(* ===== verification/Prelude.thy ===== *)
theory Prelude
  imports Main "HOL-Library.Word"
begin

text \<open>
  What the component theories share: the error values of the model, the sequencing of fallible
  steps, C++ assertions in both build modes, bounds-checked access to arrays, loops over an index
  range or a container, and the lemmas that carry the component proofs.

  A function of the library that can fail returns \<open>error + 'a\<close>.  \<open>Undefined\<close> stands for
  undefined behaviour of the language (an access outside an array, a null or dangling pointer,
  a signed overflow, a division by zero, a missing return); the model stops there, since nothing
  can be said about what the program does afterwards.
\<close>

unbundle bit_operations_syntax

datatype error =
    Assertion
  | Undefined
  | Out_Of_Range string
  | Length_Error
  | Runtime_Error string
  | Bad_Alloc

type_synonym 'a result = "error + 'a"

type_synonym ptr = "nat option"

text \<open>Whether \<open>NDEBUG\<close> is defined: in a release build \<open>assert\<close> expands to nothing.\<close>

datatype build = Debug | Release

named_theorems result_simps \<open>evaluation of fallible steps\<close>

section \<open>Sequencing\<close>

fun rbind :: "'a result \<Rightarrow> ('a \<Rightarrow> 'b result) \<Rightarrow> 'b result" where
  "rbind (Inl e) f = Inl e"
| "rbind (Inr x) f = f x"

lemma rbind_cong [fundef_cong]:
  "m = m' \<Longrightarrow> (\<And>x. m' = Inr x \<Longrightarrow> f x = f' x) \<Longrightarrow> rbind m f = rbind m' f'"
  by (cases m') auto

lemma rbind_eq_Inr [result_simps]:
  "rbind m f = Inr y \<longleftrightarrow> (\<exists>x. m = Inr x \<and> f x = Inr y)"
  by (cases m) auto

lemma rbind_eq_Inl [result_simps]:
  "rbind m f = Inl e \<longleftrightarrow> m = Inl e \<or> (\<exists>x. m = Inr x \<and> f x = Inl e)"
  by (cases m) auto

lemma rbind_assoc: "rbind (rbind m f) g = rbind m (\<lambda>x. rbind (f x) g)"
  by (cases m) auto

lemma rbind_Inr_right [simp]: "rbind m Inr = m"
  by (cases m) auto

text \<open>A computation that may also not return is a \<open>'a result option\<close>, with \<open>None\<close> for not
  returning.\<close>

definition obind :: "'a result option \<Rightarrow> ('a \<Rightarrow> 'b result option) \<Rightarrow> 'b result option" where
  "obind m f = (case m of None \<Rightarrow> None | Some (Inl e) \<Rightarrow> Some (Inl e) | Some (Inr x) \<Rightarrow> f x)"

lemma obind_simps [simp]:
  "obind None f = None" "obind (Some (Inl e)) f = Some (Inl e)" "obind (Some (Inr x)) f = f x"
  by (simp_all add: obind_def)

lemma obind_cong [fundef_cong]:
  "m = m' \<Longrightarrow> (\<And>x. m' = Some (Inr x) \<Longrightarrow> f x = f' x) \<Longrightarrow> obind m f = obind m' f'"
  by (auto simp: obind_def split: option.splits sum.splits)

lemma obind_eq_Inr [result_simps]:
  "obind m f = Some (Inr y) \<longleftrightarrow> (\<exists>x. m = Some (Inr x) \<and> f x = Some (Inr y))"
  by (auto simp: obind_def split: option.splits sum.splits)

definition require :: "error \<Rightarrow> bool \<Rightarrow> unit result" where
  "require e c = (if c then Inr () else Inl e)"

lemma require_True [simp]: "require e True = Inr ()"
  by (simp add: require_def)

lemma require_False [simp]: "require e False = Inl e"
  by (simp add: require_def)

lemma require_eq_Inr [result_simps]: "require e c = Inr u \<longleftrightarrow> c"
  by (simp add: require_def)

definition cassert :: "build \<Rightarrow> bool \<Rightarrow> unit result" where
  "cassert b c = (if b = Debug \<and> \<not> c then Inl Assertion else Inr ())"

lemma cassert_True [simp]: "cassert b True = Inr ()"
  by (simp add: cassert_def)

lemma cassert_Release [simp]: "cassert Release c = Inr ()"
  by (simp add: cassert_def)

lemma cassert_Debug_False [simp]: "cassert Debug False = Inl Assertion"
  by (simp add: cassert_def)

lemma cassert_holds [simp]: "c \<Longrightarrow> cassert b c = Inr ()"
  by (simp add: cassert_def)

section \<open>Arrays\<close>

text \<open>\<open>std::array\<close>, a span or raw storage: the index is not checked by the code, so an index
  outside the storage is undefined behaviour.\<close>

definition read_at :: "'a list \<Rightarrow> nat \<Rightarrow> 'a result" where
  "read_at xs i = (if i < length xs then Inr (xs ! i) else Inl Undefined)"

definition write_at :: "'a list \<Rightarrow> nat \<Rightarrow> 'a \<Rightarrow> 'a list result" where
  "write_at xs i x = (if i < length xs then Inr (xs[i := x]) else Inl Undefined)"

lemma read_at_in [simp]: "i < length xs \<Longrightarrow> read_at xs i = Inr (xs ! i)"
  by (simp add: read_at_def)

lemma read_at_out [simp]: "length xs \<le> i \<Longrightarrow> read_at xs i = Inl Undefined"
  by (simp add: read_at_def)

lemma write_at_in [simp]: "i < length xs \<Longrightarrow> write_at xs i x = Inr (xs[i := x])"
  by (simp add: write_at_def)

lemma write_at_out [simp]: "length xs \<le> i \<Longrightarrow> write_at xs i x = Inl Undefined"
  by (simp add: write_at_def)

lemma write_at_eq_Inr [result_simps]:
  "write_at xs i x = Inr ys \<longleftrightarrow> i < length xs \<and> ys = xs[i := x]"
  by (auto simp: write_at_def)

lemma read_at_eq_Inr [result_simps]:
  "read_at xs i = Inr y \<longleftrightarrow> i < length xs \<and> y = xs ! i"
  by (auto simp: read_at_def)

section \<open>Raw storage\<close>

text \<open>Storage whose slots hold an object or none: \<open>std::destroy_at\<close> and a read need an object in the slot; \<open>std::construct_at\<close> needs the
  slot only.\<close>

definition live_at :: "'a option list \<Rightarrow> nat \<Rightarrow> 'a result" where
  "live_at xs i = rbind (read_at xs i) (\<lambda>s. case s of None \<Rightarrow> Inl Undefined | Some v \<Rightarrow> Inr v)"

definition destroy_slot :: "'a option list \<Rightarrow> nat \<Rightarrow> 'a option list result" where
  "destroy_slot xs i = rbind (live_at xs i) (\<lambda>_. write_at xs i None)"

definition construct_slot :: "'a option list \<Rightarrow> nat \<Rightarrow> 'a \<Rightarrow> 'a option list result" where
  "construct_slot xs i v = write_at xs i (Some v)"

lemma live_at_Some [simp]: "i < length xs \<Longrightarrow> xs ! i = Some v \<Longrightarrow> live_at xs i = Inr v"
  by (simp add: live_at_def)

lemma live_at_out [simp]: "length xs \<le> i \<Longrightarrow> live_at xs i = Inl Undefined"
  by (simp add: live_at_def)

lemma destroy_slot_Some [simp]:
  "i < length xs \<Longrightarrow> xs ! i = Some v \<Longrightarrow> destroy_slot xs i = Inr (xs[i := None])"
  by (simp add: destroy_slot_def)

lemma destroy_slot_out [simp]: "length xs \<le> i \<Longrightarrow> destroy_slot xs i = Inl Undefined"
  by (simp add: destroy_slot_def)

lemma construct_slot_in [simp]: "i < length xs \<Longrightarrow> construct_slot xs i v = Inr (xs[i := Some v])"
  by (simp add: construct_slot_def)

section \<open>Loops\<close>

text \<open>\<open>rfold body xs s\<close> runs \<open>body x s\<close> for each element in turn and stops at the first
  error: a range-based \<open>for\<close>, or an index loop when \<open>xs\<close> is \<open>[a..<b]\<close>.\<close>

fun rfold :: "('x \<Rightarrow> 's \<Rightarrow> 's result) \<Rightarrow> 'x list \<Rightarrow> 's \<Rightarrow> 's result" where
  "rfold body [] s = Inr s"
| "rfold body (x # xs) s = rbind (body x s) (rfold body xs)"

lemma rfold_append: "rfold body (xs @ ys) s = rbind (rfold body xs s) (rfold body ys)"
proof (induction xs arbitrary: s)
  case Nil
  then show ?case by simp
next
  case (Cons x xs)
  then show ?case by (cases "body x s") auto
qed

lemma rfold_cong [fundef_cong]:
  "xs = ys \<Longrightarrow> s = t \<Longrightarrow> (\<And>x u. x \<in> set ys \<Longrightarrow> f x u = g x u) \<Longrightarrow> rfold f xs s = rfold g ys t"
proof (induction xs arbitrary: ys s t)
  case Nil
  then show ?case by auto
next
  case (Cons x xs)
  then show ?case by (cases "g x t") auto
qed

text \<open>The loop rule: an invariant indexed by the number of elements done, kept by every step.\<close>

lemma rfold_invariant:
  assumes "P 0 s"
    and "\<And>k t. k < length xs \<Longrightarrow> P k t \<Longrightarrow> \<exists>t'. body (xs ! k) t = Inr t' \<and> P (Suc k) t'"
  shows "\<exists>t. rfold body xs s = Inr t \<and> P (length xs) t"
  using assms
proof (induction xs arbitrary: P s)
  case Nil
  then show ?case by simp
next
  case (Cons x xs)
  from Cons.prems(2) [of 0 s] Cons.prems(1) obtain t where
    t: "body x s = Inr t" "P 1 t" by auto
  have "\<exists>u. rfold body xs t = Inr u \<and> P (Suc (length xs)) u"
  proof (rule Cons.IH [of "\<lambda>k. P (Suc k)"])
    show "P (Suc 0) t" using t(2) by simp
  next
    fix k u assume "k < length xs" "P (Suc k) u"
    then show "\<exists>t'. body (xs ! k) u = Inr t' \<and> P (Suc (Suc k)) t'"
      using Cons.prems(2) [of "Suc k" u] by auto
  qed
  then show ?case using t(1) by simp
qed

lemma rfold_upt_invariant:
  assumes "a \<le> b" and "P a s"
    and "\<And>k t. a \<le> k \<Longrightarrow> k < b \<Longrightarrow> P k t \<Longrightarrow> \<exists>t'. body k t = Inr t' \<and> P (Suc k) t'"
  shows "\<exists>t. rfold body [a..<b] s = Inr t \<and> P b t"
proof -
  have "\<exists>t. rfold body [a..<b] s = Inr t \<and> P (a + length [a..<b]) t"
    by (rule rfold_invariant [of "\<lambda>k. P (a + k)"]) (use assms in auto)
  then show ?thesis using assms(1) by simp
qed

lemma rfold_idle: "(\<And>x t. x \<in> set xs \<Longrightarrow> body x t = Inr t) \<Longrightarrow> rfold body xs s = Inr s"
  by (induction xs) simp_all

text \<open>A loop that can only stop with the error \<open>e\<close>, and one that does so at the latest at \<open>y\<close>.\<close>

lemma rfold_may_stop:
  assumes "\<And>x t. x \<in> set xs \<Longrightarrow> P t \<Longrightarrow> body x t = Inl e \<or> (\<exists>t'. body x t = Inr t' \<and> P t')" and "P s"
  shows "rfold body xs s = Inl e \<or> (\<exists>t. rfold body xs s = Inr t \<and> P t)"
  using assms
proof (induction xs arbitrary: s)
  case (Cons x xs)
  from Cons.prems have "body x s = Inl e \<or> (\<exists>t'. body x s = Inr t' \<and> P t')" by simp
  moreover have "rfold body xs t' = Inl e \<or> (\<exists>t. rfold body xs t' = Inr t \<and> P t)" if "P t'" for t'
    by (rule Cons.IH) (use Cons.prems(1) that in simp_all)
  ultimately show ?case by (elim disjE exE conjE) simp_all
qed simp

lemma rfold_stops:
  assumes "\<And>x t. x \<in> set xs \<Longrightarrow> P t \<Longrightarrow> body x t = Inl e \<or> (\<exists>t'. body x t = Inr t' \<and> P t')" and "P s"
    and "y \<in> set xs" and "\<And>t. P t \<Longrightarrow> body y t = Inl e"
  shows "rfold body xs s = Inl e"
proof -
  from assms(3) obtain us vs where xs: "xs = us @ y # vs" by (meson split_list)
  have "rfold body us s = Inl e \<or> (\<exists>t. rfold body us s = Inr t \<and> P t)"
    by (rule rfold_may_stop) (use assms(1,2) xs in auto)
  then show ?thesis using assms(4) xs by (auto simp: rfold_append)
qed

section \<open>Lists and numbers\<close>

lemma list_update_append_left [simp]:
  "i < length xs \<Longrightarrow> (xs @ ys)[i := x] = xs[i := x] @ ys"
  by (simp add: list_update_append)

lemma nth_eq_all: "length xs = length ys \<Longrightarrow> (\<And>i. i < length ys \<Longrightarrow> xs ! i = ys ! i) \<Longrightarrow> xs = ys"
  by (simp add: nth_equalityI)

lemma mod_add_less_twice:
  "(a::nat) < n \<Longrightarrow> b < n \<Longrightarrow> (a + b) mod n = (if a + b < n then a + b else a + b - n)"
  by (auto simp: mod_if)

lemma mod_shift_inj:
  assumes "((a::nat) + i) mod n = (a + j) mod n" and "i < n" and "j < n"
  shows "i = j"
proof -
  have "i mod n = j mod n"
    using assms(1) by (auto simp: nat_mod_eq_iff)
  then show ?thesis using assms(2,3) by simp
qed

end
