(* ===== verification/Heap_Lists.thy ===== *)
theory Heap_Lists
  imports Prelude
begin

text \<open>
  Linked structures in an explicit store.  A successor field is a partial map from the addresses
  of the live nodes to pointers; \<open>lseg h p as q\<close> says that following it from \<open>p\<close> visits the
  nodes \<open>as\<close> in order and ends at \<open>q\<close>.  The queue's chunks, the intrusive list and the logging
  contexts are all described with it.
\<close>

fun lseg :: "(nat \<rightharpoonup> ptr) \<Rightarrow> ptr \<Rightarrow> nat list \<Rightarrow> ptr \<Rightarrow> bool" where
  "lseg h p [] q \<longleftrightarrow> p = q"
| "lseg h p (a # as) q \<longleftrightarrow> p = Some a \<and> (\<exists>r. h a = Some r \<and> lseg h r as q)"

lemma lseg_None_start [simp]: "lseg h None as q \<longleftrightarrow> as = [] \<and> q = None"
  by (cases as) auto

lemma lseg_to_None_Some:
  "lseg h (Some a) as None \<longleftrightarrow> (\<exists>bs r. as = a # bs \<and> h a = Some r \<and> lseg h r bs None)"
  by (cases as) auto

lemma lseg_append [simp]:
  "lseg h p (as @ bs) q \<longleftrightarrow> (\<exists>r. lseg h p as r \<and> lseg h r bs q)"
  by (induction as arbitrary: p) auto

lemma lseg_cong:
  assumes "lseg h p as q" and "\<And>a. a \<in> set as \<Longrightarrow> h' a = h a"
  shows "lseg h' p as q"
  using assms by (induction as arbitrary: p) auto

lemma lseg_upd [simp]: "a \<notin> set as \<Longrightarrow> lseg (h(a := r)) p as q \<longleftrightarrow> lseg h p as q"
  by (auto intro: lseg_cong)

lemma lseg_dom: "lseg h p as q \<Longrightarrow> set as \<subseteq> dom h"
  by (induction as arbitrary: p) auto

lemma lseg_determ: "lseg h p as None \<Longrightarrow> lseg h p bs None \<Longrightarrow> as = bs"
proof (induction as arbitrary: p bs)
  case Nil
  then show ?case by simp
next
  case (Cons a as)
  then show ?case by (cases bs) auto
qed

lemma lseg_None_hd_fresh:
  assumes "h a = Some r" and "lseg h r as None"
  shows "a \<notin> set as"
proof
  assume "a \<in> set as"
  then obtain xs ys where as: "as = xs @ a # ys" by (auto simp: in_set_conv_decomp)
  with assms have "lseg h (Some a) (a # ys) None" "lseg h (Some a) (a # as) None" by auto
  then have "a # ys = a # as" by (rule lseg_determ)
  with as show False by (metis append.assoc append_Cons append_Nil length_append length_Cons
        list.inject not_add_less2 less_add_Suc2 add_Suc_right)
qed

lemma lseg_None_distinct: "lseg h p as None \<Longrightarrow> distinct as"
  by (induction as arbitrary: p) (auto dest: lseg_None_hd_fresh)

text \<open>The last node of a non-empty list points to null; appending rewrites only its field.\<close>

lemma lseg_last: "lseg h p as None \<Longrightarrow> as \<noteq> [] \<Longrightarrow> h (last as) = Some None"
  by (induction as arbitrary: p) auto

lemma lseg_snoc:
  assumes "lseg h p as None" and "as \<noteq> []" and "a \<notin> set as"
  shows "lseg (h(last as \<mapsto> Some a, a \<mapsto> None)) p (as @ [a]) None"
proof -
  obtain bs l where as: "as = bs @ [l]" using assms(2) by (cases as rule: rev_cases) auto
  have "distinct as" using assms(1) by (rule lseg_None_distinct)
  with as assms show ?thesis by auto
qed

section \<open>Walking a list\<close>

text \<open>\<open>while (ptr) { ++counter; ptr = next(ptr); }\<close>: no result when the chain is cyclic,
  \<open>Undefined\<close> when it leaves the live nodes.\<close>

partial_function (option) count_nodes :: "(nat \<rightharpoonup> ptr) \<Rightarrow> ptr \<Rightarrow> nat \<Rightarrow> nat result option" where
  "count_nodes h p c = (case p of
     None \<Rightarrow> Some (Inr c)
   | Some a \<Rightarrow> (case h a of
       None \<Rightarrow> Some (Inl Undefined)
     | Some r \<Rightarrow> count_nodes h r (Suc c)))"

lemma count_nodes_lseg: "lseg h p as None \<Longrightarrow> count_nodes h p c = Some (Inr (c + length as))"
proof (induction as arbitrary: p c)
  case Nil
  then show ?case by (simp add: count_nodes.simps)
next
  case (Cons a as)
  then obtain r where "p = Some a" "h a = Some r" "lseg h r as None" by auto
  with Cons.IH [of r "Suc c"] show ?case by (simp add: count_nodes.simps [of h "Some a"])
qed

text \<open>A node that points to itself is never left.\<close>

lemma count_nodes_self_loop:
  assumes "h a = Some (Some a)"
  shows "count_nodes h (Some a) c = None"
proof (rule ccontr)
  assume "count_nodes h (Some a) c \<noteq> None"
  then obtain r where ret: "count_nodes h (Some a) c = Some r" by auto
  have "\<not> (h a = Some (Some a) \<and> Some a = Some a)"
  proof (rule count_nodes.raw_induct
      [where P = "\<lambda>h p c r. \<not> (h a = Some (Some a) \<and> p = Some a)", OF _ ret])
    fix f h p c r
    assume IH: "\<And>h p c r. f h p c = Some r \<Longrightarrow> \<not> (h a = Some (Some a) \<and> p = Some a)"
      and eq: "(case p of None \<Rightarrow> Some (Inr c) | Some b \<Rightarrow> (case h b of
         None \<Rightarrow> Some (Inl Undefined) | Some q \<Rightarrow> f h q (Suc c))) = Some r"
    show "\<not> (h a = Some (Some a) \<and> p = Some a)"
    proof
      assume "h a = Some (Some a) \<and> p = Some a"
      with eq have "f h (Some a) (Suc c) = Some r" by simp
      then show False using IH \<open>h a = Some (Some a) \<and> p = Some a\<close> by blast
    qed
  qed
  with assms show False by simp
qed

end
