(* ===== verification/Fifo.thy ===== *)
theory Fifo
  imports Prelude
begin

text \<open>
  The contract the containers share, as an interface.  \<open>rep q xs\<close> says that the container \<open>q\<close>
  is well formed and holds the elements \<open>xs\<close>, oldest first.  \<open>adm q ys\<close> says that the
  container can take the elements \<open>ys\<close> one after the other (fresh nodes for an intrusive list,
  free slots for a ring buffer, always for the chunked queue), and \<open>safe q\<close> that its oldest
  element can be removed.  The queue, the ring buffer and the intrusive list interpret it.
\<close>

locale fifo_push =
  fixes rep :: "'q \<Rightarrow> 'a list \<Rightarrow> bool"
    and adm :: "'q \<Rightarrow> 'a list \<Rightarrow> bool"
    and push :: "'q \<Rightarrow> 'a \<Rightarrow> 'q result"
  assumes push_rep: "rep q xs \<Longrightarrow> adm q (y # ys) \<Longrightarrow>
      \<exists>q'. push q y = Inr q' \<and> rep q' (xs @ [y]) \<and> adm q' ys"
begin

text \<open>A client that pushes a whole sequence, as the constructors from a list of elements do.\<close>

lemma push_all_rep:
  "rep q xs \<Longrightarrow> adm q ys \<Longrightarrow> \<exists>q'. rfold (\<lambda>y q. push q y) ys q = Inr q' \<and> rep q' (xs @ ys)"
proof (induction ys arbitrary: q xs)
  case Nil
  then show ?case by simp
next
  case (Cons y ys)
  from push_rep [OF Cons.prems] obtain q' where
    q': "push q y = Inr q'" "rep q' (xs @ [y])" "adm q' ys" by blast
  from Cons.IH [OF q'(2,3)] q'(1) show ?case by simp
qed

end

locale fifo = fifo_push rep adm push
  for rep :: "'q \<Rightarrow> 'a list \<Rightarrow> bool"
    and adm :: "'q \<Rightarrow> 'a list \<Rightarrow> bool"
    and push :: "'q \<Rightarrow> 'a \<Rightarrow> 'q result" +
  fixes safe :: "'q \<Rightarrow> bool"
    and pop :: "'q \<Rightarrow> 'q result"
    and count :: "'q \<Rightarrow> nat"
    and is_empty :: "'q \<Rightarrow> bool"
  assumes pop_rep: "rep q (x # xs) \<Longrightarrow> safe q \<Longrightarrow> \<exists>q'. pop q = Inr q' \<and> rep q' xs"
    and count_rep: "rep q xs \<Longrightarrow> count q = length xs"
    and is_empty_rep: "rep q xs \<Longrightarrow> is_empty q \<longleftrightarrow> xs = []"
begin

text \<open>The container keeps the order of its elements: what follows a push is popped after it.\<close>

lemma push_then_pop:
  assumes "rep q (x # xs)" and "adm q [y]" and "\<And>q'. push q y = Inr q' \<Longrightarrow> safe q'"
  shows "\<exists>q'. rbind (push q y) pop = Inr q' \<and> rep q' (xs @ [y]) \<and> count q' = count q"
proof -
  from push_rep [OF assms(1,2)] obtain q1 where
    q1: "push q y = Inr q1" "rep q1 (x # (xs @ [y]))" by auto
  from pop_rep [OF q1(2) assms(3) [OF q1(1)]] obtain q2 where
    q2: "pop q1 = Inr q2" "rep q2 (xs @ [y])" by blast
  then show ?thesis using q1(1) count_rep [OF assms(1)] count_rep [OF q2(2)] by auto
qed

end

section \<open>Programs over a container\<close>

text \<open>A program pushes and pops in any order.  What it may do and what the container then holds is stated by an
  abstract machine over states \<open>'s\<close>: \<open>spush\<close> and \<open>spop\<close> give its next state, or \<open>None\<close> where the container
  promises nothing.  \<open>R s q\<close> relates it to the container.\<close>

datatype 'a fifo_op = Push 'a | Pop

fun spec_run :: "('s \<Rightarrow> 'a \<Rightarrow> 's option) \<Rightarrow> ('s \<Rightarrow> 's option) \<Rightarrow> 'a fifo_op list \<Rightarrow> 's \<Rightarrow> 's option" where
  "spec_run spush spop [] s = Some s"
| "spec_run spush spop (Push y # ops) s = Option.bind (spush s y) (spec_run spush spop ops)"
| "spec_run spush spop (Pop # ops) s = Option.bind (spop s) (spec_run spush spop ops)"

fun fifo_run :: "('q \<Rightarrow> 'a \<Rightarrow> 'q result) \<Rightarrow> ('q \<Rightarrow> 'q result) \<Rightarrow> 'a fifo_op list \<Rightarrow> 'q \<Rightarrow> 'q result" where
  "fifo_run push pop [] q = Inr q"
| "fifo_run push pop (Push y # ops) q = rbind (push q y) (fifo_run push pop ops)"
| "fifo_run push pop (Pop # ops) q = rbind (pop q) (fifo_run push pop ops)"

locale fifo_refinement =
  fixes R :: "'s \<Rightarrow> 'q \<Rightarrow> bool"
    and spush :: "'s \<Rightarrow> 'a \<Rightarrow> 's option" and spop :: "'s \<Rightarrow> 's option"
    and push :: "'q \<Rightarrow> 'a \<Rightarrow> 'q result" and pop :: "'q \<Rightarrow> 'q result"
  assumes push_refines: "R s q \<Longrightarrow> spush s y = Some s' \<Longrightarrow> \<exists>q'. push q y = Inr q' \<and> R s' q'"
    and pop_refines: "R s q \<Longrightarrow> spop s = Some s' \<Longrightarrow> \<exists>q'. pop q = Inr q' \<and> R s' q'"
begin

lemma run_refines:
  "R s q \<Longrightarrow> spec_run spush spop ops s = Some s' \<Longrightarrow> \<exists>q'. fifo_run push pop ops q = Inr q' \<and> R s' q'"
proof (induction ops arbitrary: s q)
  case Nil
  then show ?case by simp
next
  case (Cons op ops)
  show ?case
  proof (cases op)
    case (Push y)
    with Cons.prems(2) obtain s1 where s1: "spush s y = Some s1" "spec_run spush spop ops s1 = Some s'"
      by (cases "spush s y") auto
    from push_refines [OF Cons.prems(1) s1(1)] obtain q1 where q1: "push q y = Inr q1" "R s1 q1" by blast
    from Cons.IH [OF q1(2) s1(2)] show ?thesis using Push q1(1) by simp
  next
    case Pop
    with Cons.prems(2) obtain s1 where s1: "spop s = Some s1" "spec_run spush spop ops s1 = Some s'"
      by (cases "spop s") auto
    from pop_refines [OF Cons.prems(1) s1(1)] obtain q1 where q1: "pop q = Inr q1" "R s1 q1" by blast
    from Cons.IH [OF q1(2) s1(2)] show ?thesis using Pop q1(1) by simp
  qed
qed

end

end
