(* ===== verification/Layout.thy ===== *)
theory Layout
  imports Prelude
begin

text \<open>
  Memory layout of a header followed by an array, \<open>core/include/upp/fam.hpp\<close> and
  \<open>core/include/upp/flexible.hpp\<close>.  Sizes and offsets are \<open>std::size_t\<close>, 64-bit words, so
  every sum and product wraps; \<open>sizeof\<close> and \<open>alignof\<close> of the two types are arguments, and so is
  \<open>offsetof(layout, value)\<close>, which the compiler computes.
\<close>

type_synonym size = "64 word"

section \<open>Flexible array members (fam.hpp)\<close>

record type_layout =
  size_of :: size
  align_of :: size

(* core/include/upp/fam.hpp 54-64: alignment *)
definition fam_alignment :: "type_layout \<Rightarrow> type_layout \<Rightarrow> size" where
  "fam_alignment hdr t = max (align_of hdr) (align_of t)"

(* core/include/upp/fam.hpp 66-76: offset_impl *)
definition offset_impl :: "type_layout \<Rightarrow> type_layout \<Rightarrow> size" where
  "offset_impl hdr t =
     (let out = size_of hdr; over = out mod align_of t
      in if over = 0 then out else out + align_of t - over)"

(* core/include/upp/fam.hpp 78-93: offset *)
definition fam_offset :: "build \<Rightarrow> type_layout \<Rightarrow> type_layout \<Rightarrow> size result" where
  "fam_offset b hdr t =
     (let out = offset_impl hdr t in
      rbind (cassert b (size_of hdr \<le> out)) (\<lambda>_.
      rbind (cassert b (out mod align_of t = 0)) (\<lambda>_.
      let padding = out - size_of hdr in
      rbind (cassert b (padding < align_of t)) (\<lambda>_. Inr out))))"

(* core/include/upp/fam.hpp 95-104: required_bytes *)
definition fam_required_bytes :: "build \<Rightarrow> type_layout \<Rightarrow> type_layout \<Rightarrow> size \<Rightarrow> size result" where
  "fam_required_bytes b hdr t elem_count =
     rbind (fam_offset b hdr t) (\<lambda>off. Inr (off + size_of t * elem_count))"

(* core/include/upp/fam.hpp 106-125: get_fam *)
definition get_fam :: "build \<Rightarrow> type_layout \<Rightarrow> type_layout \<Rightarrow> size \<Rightarrow> size result" where
  "get_fam b hdr t addr = rbind (fam_offset b hdr t) (\<lambda>off. Inr (addr + off))"

text \<open>\<open>operator new\<close> is a parameter: from a byte count and an alignment it gives the address of
  fresh storage, or throws \<open>std::bad_alloc\<close>.\<close>

(* core/include/upp/fam.hpp 127-140: alloc *)
definition fam_alloc ::
  "build \<Rightarrow> (size \<Rightarrow> size \<Rightarrow> size result) \<Rightarrow> type_layout \<Rightarrow> type_layout \<Rightarrow> size \<Rightarrow> size result" where
  "fam_alloc b operator_new hdr t elem_count =
     rbind (fam_required_bytes b hdr t elem_count)
       (\<lambda>bytes. operator_new bytes (fam_alignment hdr t))"

(* core/include/upp/fam.hpp 142-153: dealloc *)
definition fam_dealloc ::
  "(size \<Rightarrow> size \<Rightarrow> unit result) \<Rightarrow> type_layout \<Rightarrow> type_layout \<Rightarrow> size \<Rightarrow> unit result" where
  "fam_dealloc operator_delete hdr t addr = operator_delete addr (fam_alignment hdr t)"

section \<open>Flexible objects (flexible.hpp)\<close>

(* core/include/upp/flexible.hpp 16-24: flexible::required_bytes *)
definition flexible_required_bytes :: "size \<Rightarrow> size \<Rightarrow> size \<Rightarrow> size" where
  "flexible_required_bytes data_offset size_t elements = data_offset + elements * size_t"

text \<open>How many elements fit behind the header in the storage a call of \<open>create\<close> asks for.\<close>

definition flexible_slots :: "size \<Rightarrow> size \<Rightarrow> size \<Rightarrow> nat" where
  "flexible_slots data_offset size_t elements =
     (unat (flexible_required_bytes data_offset size_t elements) - unat data_offset)
       div unat size_t"

text \<open>The storage as the allocator keeps it: the byte count of each block.  \<open>create\<close> gets the address the
  allocator has chosen; it constructs the header and no element.  Releasing a block with another byte
  count than the one it was allocated with is undefined.\<close>

type_synonym blocks = "size \<rightharpoonup> size"

(* core/include/upp/flexible.hpp 27-35: flexible::create(size_t, Alloc&) *)
definition flexible_create :: "size \<Rightarrow> size \<Rightarrow> size \<Rightarrow> size \<Rightarrow> blocks \<Rightarrow> blocks" where
  "flexible_create data_offset size_t addr elements h =
     h(addr \<mapsto> flexible_required_bytes data_offset size_t elements)"

(* core/include/upp/flexible.hpp 37-42: flexible::create(size_t) *)
definition flexible_create_new :: "size \<Rightarrow> size \<Rightarrow> size \<Rightarrow> size \<Rightarrow> blocks \<Rightarrow> blocks" where
  "flexible_create_new data_offset size_t addr elements h =
     h(addr \<mapsto> flexible_required_bytes data_offset size_t elements)"

(* core/include/upp/flexible.hpp 44-47: flexible::destroy *)
definition flexible_destroy :: "size \<Rightarrow> blocks \<Rightarrow> blocks result" where
  "flexible_destroy flex h = (if h flex = None then Inl Undefined else Inr (h(flex := None)))"

(* core/include/upp/flexible.hpp 49-55: flexible::destroy(flexible*, Alloc&, size_t) *)
definition flexible_destroy_alloc :: "size \<Rightarrow> size \<Rightarrow> size \<Rightarrow> size \<Rightarrow> blocks \<Rightarrow> blocks result" where
  "flexible_destroy_alloc data_offset size_t flex elements h =
     (if h flex = Some (flexible_required_bytes data_offset size_t elements)
      then Inr (h(flex := None)) else Inl Undefined)"

(* core/include/upp/flexible.hpp 59-69: flexible::data *)
definition flexible_data :: "size \<Rightarrow> size \<Rightarrow> size" where
  "flexible_data data_offset this = this + data_offset"

section \<open>Correctness\<close>

lemma unat_offset_impl:
  assumes "align_of t \<noteq> 0" and "unat (size_of hdr) + unat (align_of t) < 2 ^ 64"
  shows "unat (offset_impl hdr t) =
    (if unat (size_of hdr) mod unat (align_of t) = 0 then unat (size_of hdr)
     else unat (size_of hdr) + unat (align_of t) - unat (size_of hdr) mod unat (align_of t))"
proof -
  let ?s = "size_of hdr" and ?a = "align_of t"
  have md: "unat (?s mod ?a) = unat ?s mod unat ?a" by (rule unat_mod)
  have zero: "?s mod ?a = 0 \<longleftrightarrow> unat ?s mod unat ?a = 0"
    unfolding md [symmetric] by (rule unat_eq_0 [symmetric])
  have add: "unat (?s + ?a) = unat ?s + unat ?a"
    using assms(2) by (simp add: unat_word_ariths)
  have le: "?s mod ?a \<le> ?s + ?a"
    unfolding word_le_nat_alt add md by (rule trans_le_add1) (rule mod_less_eq_dividend)
  have "unat (?s + ?a - ?s mod ?a) = unat ?s + unat ?a - unat ?s mod unat ?a"
    unfolding unat_sub [OF le] add md by (rule refl)
  with zero show ?thesis by (simp add: offset_impl_def Let_def)
qed

text \<open>Rounding up: the least multiple of the alignment that is not below the size.\<close>

lemma round_up_facts:
  fixes s a :: nat
  assumes "0 < a"
  defines "r \<equiv> (if s mod a = 0 then s else s + a - s mod a)"
  shows "s \<le> r" and "a dvd r" and "r < s + a" and "\<And>m. a dvd m \<Longrightarrow> s \<le> m \<Longrightarrow> r \<le> m"
proof -
  have m: "s mod a < a" using assms(1) by simp
  have s: "s = a * (s div a) + s mod a" by simp
  have r: "r = a * (s div a) + (if s mod a = 0 then 0 else a)"
  proof (cases "s mod a = 0")
    case True
    with s show ?thesis unfolding r_def if_P [OF True] by linarith
  next
    case False
    with m s show ?thesis unfolding r_def if_not_P [OF False] by linarith
  qed
  show "s \<le> r"
  proof (cases "s mod a = 0")
    case False
    with m show ?thesis unfolding r_def if_not_P [OF False] by linarith
  qed (simp add: r_def)
  show "a dvd r" unfolding r by simp
  show "r < s + a" using assms(1) m unfolding r_def by auto
  fix k assume "a dvd k" "s \<le> k"
  then obtain q where k: "k = a * q" by blast
  show "r \<le> k"
  proof (cases "s mod a = 0")
    case True
    then show ?thesis using \<open>s \<le> k\<close> by (simp add: r_def)
  next
    case False
    then have "a * (s div a) < a * q" using s \<open>s \<le> k\<close> k by linarith
    then have "Suc (s div a) \<le> q" by (simp add: Suc_le_eq)
    then have "a * Suc (s div a) \<le> a * q" by (rule mult_le_mono2)
    with False show ?thesis by (simp add: r k)
  qed
qed

lemma fam_offset_ok:
  assumes "align_of t \<noteq> 0" and "unat (size_of hdr) + unat (align_of t) < 2 ^ 64"
  shows "fam_offset b hdr t = Inr (offset_impl hdr t)"
    and "unat (size_of hdr) \<le> unat (offset_impl hdr t)"
    and "unat (align_of t) dvd unat (offset_impl hdr t)"
    and "unat (offset_impl hdr t) < unat (size_of hdr) + unat (align_of t)"
proof -
  let ?o = "offset_impl hdr t"
  have a0: "0 < unat (align_of t)" using assms(1) by (simp add: unat_gt_0)
  note u = unat_offset_impl [OF assms] and r = round_up_facts [OF a0, of "unat (size_of hdr)"]
  show le: "unat (size_of hdr) \<le> unat ?o" unfolding u by (rule r(1))
  show dv: "unat (align_of t) dvd unat ?o" unfolding u by (rule r(2))
  show lt: "unat ?o < unat (size_of hdr) + unat (align_of t)" unfolding u by (rule r(3))
  have "size_of hdr \<le> ?o" using le by (simp add: word_le_nat_alt)
  moreover have "?o mod align_of t = 0"
    using dv unfolding unat_eq_0 [symmetric] unat_mod by (simp add: dvd_eq_mod_eq_0)
  moreover have "?o - size_of hdr < align_of t"
    using le lt unfolding word_less_nat_alt unat_sub [OF calculation(1)] by linarith
  ultimately show "fam_offset b hdr t = Inr ?o" by (simp add: fam_offset_def Let_def)
qed

text \<open>The array offset of a flexible-array object is the least multiple of the element alignment
  that is not below the header size, and none of the assertions of \<open>offset\<close> can fire.\<close>

theorem fam_offset_least:
  assumes "align_of t \<noteq> 0" and "unat (size_of hdr) + unat (align_of t) < 2 ^ 64"
  shows "\<exists>off. fam_offset b hdr t = Inr off \<and> unat (size_of hdr) \<le> unat off \<and>
    unat (align_of t) dvd unat off \<and>
    (\<forall>m. unat (align_of t) dvd m \<and> unat (size_of hdr) \<le> m \<longrightarrow> unat off \<le> m)"
proof -
  have "0 < unat (align_of t)" using assms(1) by (simp add: unat_gt_0)
  note r = round_up_facts(4) [OF this, of _ "unat (size_of hdr)"]
  have "\<forall>m. unat (align_of t) dvd m \<and> unat (size_of hdr) \<le> m \<longrightarrow> unat (offset_impl hdr t) \<le> m"
    unfolding unat_offset_impl [OF assms] using r by blast
  with fam_offset_ok [OF assms] show ?thesis by blast
qed

theorem fam_offset_least_witness:
  "\<exists>off. fam_offset Debug \<lparr>size_of = 3, align_of = 1\<rparr> \<lparr>size_of = 8, align_of = 8\<rparr> = Inr off \<and>
    3 \<le> unat off \<and> 8 dvd unat off"
proof -
  have h: "align_of \<lparr>size_of = 8, align_of = 8\<rparr> \<noteq> 0"
    "unat (size_of \<lparr>size_of = 3, align_of = 1\<rparr>) + unat (align_of \<lparr>size_of = 8, align_of = 8\<rparr>) < 2 ^ 64"
    by simp_all
  from fam_offset_least [OF h, of Debug] show ?thesis by auto
qed

lemma unat_add_mult:
  fixes a s n :: size
  assumes "unat a + unat s * unat n < 2 ^ 64"
  shows "unat (a + s * n) = unat a + unat s * unat n"
proof -
  have "unat (s * n) = unat s * unat n" using assms by (simp add: unat_word_ariths)
  then show ?thesis using assms by (simp add: unat_word_ariths)
qed

lemma fam_required_bytes_exact:
  assumes "align_of t \<noteq> 0" and "unat (size_of hdr) + unat (align_of t) < 2 ^ 64"
    and "unat (offset_impl hdr t) + unat (size_of t) * unat n < 2 ^ 64"
  shows "fam_required_bytes b hdr t n = Inr (offset_impl hdr t + size_of t * n)"
    and "unat (offset_impl hdr t + size_of t * n)
       = unat (offset_impl hdr t) + unat (size_of t) * unat n"
  using unat_add_mult [OF assms(3)] by (simp_all add: fam_required_bytes_def fam_offset_ok(1) [OF assms(1,2)])

text \<open>Alignments are powers of two, so an address with the alignment of the object has that of both types.\<close>

lemma fam_alignment_dvd:
  assumes "unat (align_of hdr) = 2 ^ p" and "unat (align_of t) = 2 ^ q"
  shows "unat (align_of hdr) dvd unat (fam_alignment hdr t)" and "unat (align_of t) dvd unat (fam_alignment hdr t)"
proof -
  have "unat (fam_alignment hdr t) = max (2 ^ p) (2 ^ q)"
    by (simp add: fam_alignment_def max_def word_le_nat_alt assms)
  also have "\<dots> = 2 ^ max p q" by (simp add: max_def)
  finally show "unat (align_of hdr) dvd unat (fam_alignment hdr t)" and "unat (align_of t) dvd unat (fam_alignment hdr t)"
    unfolding assms by (simp_all add: le_imp_power_dvd)
qed

text \<open>Element \<open>i\<close> of the array in a block of that size: where it is when nothing overflows.\<close>

lemma fam_element_address:
  assumes "align_of t \<noteq> 0" and "unat (size_of hdr) + unat (align_of t) < 2 ^ 64"
    and "unat (offset_impl hdr t) + unat (size_of t) * unat n < 2 ^ 64" and "size_of t \<noteq> 0" and "i < unat n"
    and "unat addr + unat (offset_impl hdr t + size_of t * n) \<le> 2 ^ 64"
  shows "unat (addr + offset_impl hdr t + of_nat i * size_of t) =
      unat addr + unat (offset_impl hdr t) + i * unat (size_of t)"
    and "unat (offset_impl hdr t) + i * unat (size_of t) + unat (size_of t) \<le> unat (offset_impl hdr t + size_of t * n)"
proof -
  let ?o = "offset_impl hdr t" and ?s = "unat (size_of t)"
  have "Suc i * ?s \<le> unat n * ?s" using assms(5) by (intro mult_le_mono1) (simp only: Suc_le_eq)
  then have le: "i * ?s + ?s \<le> ?s * unat n" by (simp add: algebra_simps)
  then show "unat ?o + i * ?s + ?s \<le> unat (?o + size_of t * n)"
    using fam_required_bytes_exact(2) [OF assms(1-3)] by simp
  then have lt: "unat addr + unat ?o + i * ?s < 2 ^ 64" using assms(4,6) by (simp add: unat_eq_0 [symmetric] del: unat_eq_0)
  have "i < 2 ^ 64" using assms(5) unsigned_less [of n, where 'a = nat] by simp
  then have "unat (of_nat i :: size) = i" by (simp add: unsigned_of_nat take_bit_nat_eq_self)
  moreover have "unat (addr + ?o) = unat addr + unat ?o" using lt by (simp add: unat_word_ariths)
  ultimately show "unat (addr + ?o + of_nat i * size_of t) = unat addr + unat ?o + i * ?s"
    using unat_add_mult [of "addr + ?o" "size_of t" "of_nat i"] lt by (simp add: mult.commute)
qed

text \<open>C29. \<open>alloc\<close> asks for a number of bytes and an alignment such that in any block \<open>operator new\<close> may return for
  them, a block with that alignment which does not reach over the end of the memory, the header is aligned and inside
  the block, and \<open>get_fam\<close> gives the address of an array whose \<open>n\<close> elements lie behind the header, inside the block
  and at addresses aligned for their type.  The header, the alignment of the elements and the elements must together
  fit into the 64 bits of the byte count.\<close>

theorem fam_elements_inside:
  assumes "unat (align_of hdr) = 2 ^ p" and "unat (align_of t) = 2 ^ q"
    and "size_of t \<noteq> 0" and "unat (align_of t) dvd unat (size_of t)"
    and "unat (size_of hdr) + unat (align_of t) < 2 ^ 64"
    and "unat (size_of hdr) + unat (align_of t) + unat (size_of t) * unat n \<le> 2 ^ 64"
  shows "\<exists>bytes al. (\<forall>operator_new. fam_alloc b operator_new hdr t n = operator_new bytes al) \<and>
    (\<forall>addr. unat al dvd unat addr \<and> unat addr + unat bytes \<le> 2 ^ 64 \<longrightarrow>
      unat (align_of hdr) dvd unat addr \<and> unat (size_of hdr) \<le> unat bytes \<and>
      (\<exists>fam. get_fam b hdr t addr = Inr fam \<and> (\<forall>i < unat n.
        unat addr + unat (size_of hdr) \<le> unat (fam + of_nat i * size_of t) \<and>
        unat (fam + of_nat i * size_of t) + unat (size_of t) \<le> unat addr + unat bytes \<and>
        unat (fam + of_nat i * size_of t) = unat fam + i * unat (size_of t) \<and>
        unat (align_of t) dvd unat (fam + of_nat i * size_of t))))"
proof -
  let ?o = "offset_impl hdr t" and ?s = "unat (size_of t)"
  have a0: "align_of t \<noteq> 0" using assms(2) by auto
  note o = fam_offset_ok [OF a0 assms(5)]
  have fit: "unat ?o + ?s * unat n < 2 ^ 64" using o(4) assms(6) by linarith
  note bytes = fam_required_bytes_exact [OF a0 assms(5) fit]
  have "\<exists>fam. get_fam b hdr t addr = Inr fam \<and> (\<forall>i < unat n.
      unat addr + unat (size_of hdr) \<le> unat (fam + of_nat i * size_of t) \<and>
      unat (fam + of_nat i * size_of t) + ?s \<le> unat addr + unat (?o + size_of t * n) \<and>
      unat (fam + of_nat i * size_of t) = unat fam + i * ?s \<and> unat (align_of t) dvd unat (fam + of_nat i * size_of t))"
    if addr: "unat (fam_alignment hdr t) dvd unat addr" "unat addr + unat (?o + size_of t * n) \<le> 2 ^ 64" for addr
  proof (intro exI [of _ "addr + ?o"] conjI allI impI)
    show "get_fam b hdr t addr = Inr (addr + ?o)" using o(1) by (simp add: get_fam_def)
    fix i assume i: "i < unat n"
    note e = fam_element_address [OF a0 assms(5) fit assms(3) i addr(2)]
    note z = fam_element_address [OF a0 assms(5) fit assms(3) _ addr(2), of 0]
    show "unat addr + unat (size_of hdr) \<le> unat (addr + ?o + of_nat i * size_of t)" using e(1) o(2) by simp
    show "unat (addr + ?o + of_nat i * size_of t) + ?s \<le> unat addr + unat (?o + size_of t * n)"
      using e by simp
    show "unat (addr + ?o + of_nat i * size_of t) = unat (addr + ?o) + i * ?s" using e(1) z(1) i by simp
    have "unat (align_of t) dvd unat addr" using fam_alignment_dvd(2) [OF assms(1,2)] addr(1) by (rule dvd_trans)
    then show "unat (align_of t) dvd unat (addr + ?o + of_nat i * size_of t)" using e(1) o(3) assms(4) by simp
  qed
  moreover have "fam_alloc b operator_new hdr t n = operator_new (?o + size_of t * n) (fam_alignment hdr t)" for operator_new
    using bytes(1) by (simp add: fam_alloc_def)
  moreover have "unat (size_of hdr) \<le> unat (?o + size_of t * n)" using o(2) bytes(2) by simp
  ultimately show ?thesis using dvd_trans [OF fam_alignment_dvd(1) [OF assms(1,2)]] by blast
qed

text \<open>A header of twelve bytes with alignment four before eight-byte elements, in the block at 4096.\<close>

theorem fam_elements_inside_witness:
  "fam_alloc Release (\<lambda>_ _. Inr 4096) \<lparr>size_of = 12, align_of = 4\<rparr> \<lparr>size_of = 8, align_of = 8\<rparr> 5 = Inr 4096 \<and>
    (\<exists>fam. get_fam Release \<lparr>size_of = 12, align_of = 4\<rparr> \<lparr>size_of = 8, align_of = 8\<rparr> 4096 = Inr fam \<and>
      4096 + 12 \<le> unat fam \<and> 8 dvd unat fam)"
proof -
  let ?h = "\<lparr>size_of = 12, align_of = 4\<rparr>" and ?t = "\<lparr>size_of = 8, align_of = 8\<rparr>"
  have h: "unat (align_of ?h) = 2 ^ 2" "unat (align_of ?t) = 2 ^ 3" "size_of ?t \<noteq> 0"
    "unat (align_of ?t) dvd unat (size_of ?t)" "unat (size_of ?h) + unat (align_of ?t) < 2 ^ 64"
    "unat (size_of ?h) + unat (align_of ?t) + unat (size_of ?t) * unat (5 :: size) \<le> 2 ^ 64"
    by simp_all
  from fam_elements_inside [OF h, of Release] obtain bytes al where
    asks: "\<And>operator_new. fam_alloc Release operator_new ?h ?t 5 = operator_new bytes al" and
    place: "\<And>addr. unat al dvd unat addr \<and> unat addr + unat bytes \<le> 2 ^ 64 \<Longrightarrow>
      \<exists>fam. get_fam Release ?h ?t addr = Inr fam \<and> (\<forall>i < unat (5 :: size).
        unat addr + unat (size_of ?h) \<le> unat (fam + of_nat i * size_of ?t) \<and>
        unat (align_of ?t) dvd unat (fam + of_nat i * size_of ?t))" by (metis (no_types, lifting))
  have "fam_alloc Release (\<lambda>n a. Inr n) ?h ?t 5 = Inr 56" "fam_alloc Release (\<lambda>n a. Inr a) ?h ?t 5 = Inr 8"
    by (simp_all add: fam_alloc_def fam_required_bytes_def fam_offset_def offset_impl_def fam_alignment_def)
  then have "bytes = 56" "al = 8" unfolding asks by simp_all
  with place [of 4096] asks [of "\<lambda>_ _. Inr 4096"] show ?thesis by fastforce
qed

lemma flexible_slots_exact:
  assumes "size_t \<noteq> 0" and "unat data_offset + unat size_t * unat elements < 2 ^ 64"
  shows "flexible_slots data_offset size_t elements = unat elements"
proof -
  have "unat (data_offset + elements * size_t) = unat data_offset + unat size_t * unat elements"
    using unat_add_mult [OF assms(2)] by (simp add: mult.commute)
  moreover have "0 < unat size_t" using assms(1) by (simp add: unat_gt_0)
  ultimately show ?thesis by (simp add: flexible_slots_def flexible_required_bytes_def)
qed

text \<open>Destroying takes back what \<open>create\<close> allocated, given the same element count; when the sizes do not
  wrap, any other count is an error.\<close>

lemma flexible_create_destroy:
  assumes "h addr = None"
  shows "flexible_destroy addr (flexible_create_new off sz addr n h) = Inr h"
    and "flexible_destroy_alloc off sz addr n (flexible_create off sz addr n h) = Inr h"
  using assms by (simp_all add: flexible_destroy_def flexible_destroy_alloc_def flexible_create_def flexible_create_new_def fun_upd_idem)

lemma flexible_destroy_other_count:
  assumes "sz \<noteq> 0" and "unat off + unat sz * unat n < 2 ^ 64" and "unat off + unat sz * unat k < 2 ^ 64" and "k \<noteq> n"
  shows "flexible_destroy_alloc off sz addr k (flexible_create off sz addr n h) = Inl Undefined"
proof -
  have "unat (flexible_required_bytes off sz j) = unat off + unat sz * unat j"
    if "unat off + unat sz * unat j < 2 ^ 64" for j
    using unat_add_mult [OF that] by (simp add: flexible_required_bytes_def mult.commute)
  from this [OF assms(2)] this [OF assms(3)]
  have "flexible_required_bytes off sz n \<noteq> flexible_required_bytes off sz k"
    using assms(1,4) by (metis add_left_cancel mult_left_cancel unat_eq_zero word_unat_eq_iff)
  then show ?thesis by (simp add: flexible_destroy_alloc_def flexible_create_def)
qed

text \<open>The byte count of \<open>create\<close> wraps: for a large element count it asks for less storage
  than the elements need, without an error.\<close>

theorem flexible_create_overflow:
  assumes "unat size_t * unat elements \<ge> 2 ^ 64" and "size_t \<noteq> 0"
    and "unat data_offset + unat size_t * unat elements < 2 ^ 65"
  shows "flexible_slots data_offset size_t elements < unat elements"
proof -
  let ?d = "unat data_offset" and ?s = "unat size_t" and ?n = "unat elements"
  have s0: "0 < ?s" using assms(2) by (simp add: unat_gt_0)
  have "unat (flexible_required_bytes data_offset size_t elements) = (?d + ?s * ?n) mod 2 ^ 64"
    by (simp add: flexible_required_bytes_def unat_word_ariths mod_add_right_eq mult.commute)
  also have "\<dots> \<le> ?d + ?s * ?n - 2 ^ 64"
    using assms(1,3) by (simp add: mod_if)
  finally have "unat (flexible_required_bytes data_offset size_t elements) - ?d < ?s * ?n"
    using assms(1) by simp
  then show ?thesis
    using s0 by (simp add: flexible_slots_def less_mult_imp_div_less mult.commute)
qed

theorem flexible_create_overflow_witness: "flexible_slots 24 8 (2 ^ 61 + 1) < unat (2 ^ 61 + 1 :: size)"
proof -
  have "unat (8 :: size) * unat (2 ^ 61 + 1 :: size) \<ge> 2 ^ 64" "(8 :: size) \<noteq> 0"
    "unat (24 :: size) + unat (8 :: size) * unat (2 ^ 61 + 1 :: size) < 2 ^ 65"
    by simp_all
  from flexible_create_overflow [OF this] show ?thesis .
qed

end
