(* ===== verification/Ring_Buffer.thy ===== *)
theory Ring_Buffer
  imports Layout Fifo
begin

text \<open>
  \<open>upp::ring_buffer\<close>, \<open>core/include/upp/ring_buffer.hpp\<close>: a pointer to one block that holds a
  header (capacity, offset, count) and the element slots behind it.  A slot is \<open>None\<close> while no
  object lives in it.  The header fields are 64-bit words, so the index arithmetic wraps.
\<close>

(* core/include/upp/ring_buffer.hpp 17-25: ring_buffer *)
record 'a block =
  rb_capacity :: size
  rb_offset :: size
  rb_count :: size
  rb_slots :: "'a option list"

type_synonym 'a ring_buffer = "'a block option"

text \<open>The base class: an allocator whose type makes all of them equal is created where it is used, any
  other is kept.\<close>

(* core/include/upp/detail/allocator_holder.hpp 7-25: allocator_holder::get_allocator *)
definition rb_get_allocator :: "bool \<Rightarrow> 'al \<Rightarrow> 'al \<Rightarrow> 'al" where
  "rb_get_allocator is_always_equal fresh m_alloc = (if is_always_equal then fresh else m_alloc)"

lemma rb_get_allocator_same:
  "(is_always_equal \<Longrightarrow> fresh = m_alloc) \<Longrightarrow> rb_get_allocator is_always_equal fresh m_alloc = m_alloc"
  by (simp add: rb_get_allocator_def)

(* core/include/upp/ring_buffer.hpp 29-30: ring_buffer() *)
definition rb_empty_ctor :: "'a ring_buffer" where
  "rb_empty_ctor = None"

text \<open>The block has as many slots as the requested bytes hold; the header starts zeroed.\<close>

(* core/include/upp/ring_buffer.hpp 32-35: ring_buffer(size_t) *)
definition rb_create :: "size \<Rightarrow> size \<Rightarrow> size \<Rightarrow> 'a ring_buffer" where
  "rb_create data_offset size_t capacity =
     Some \<lparr>rb_capacity = capacity, rb_offset = 0, rb_count = 0,
           rb_slots = replicate (flexible_slots data_offset size_t capacity) None\<rparr>"

text \<open>Both move operations: the new value of the target and of the moved-from object.  The
  assignment first destroys the target; for an assignment to itself that ends the lifetime of the
  source, so the read that follows is undefined.\<close>

(* core/include/upp/ring_buffer.hpp 40-41: ring_buffer(ring_buffer&&) *)
definition rb_move :: "'a ring_buffer \<Rightarrow> 'a ring_buffer \<times> 'a ring_buffer" where
  "rb_move other = (other, None)"

text \<open>The destructor: the bytes given back to the allocator, and the slots of the freed block as
  they are at that moment (the objects in them have not been destroyed).\<close>

(* core/include/upp/ring_buffer.hpp 48-51: ~ring_buffer *)
definition rb_dtor :: "size \<Rightarrow> size \<Rightarrow> 'a ring_buffer \<Rightarrow> (size \<times> 'a option list) option" where
  "rb_dtor data_offset size_t r = (case r of
     None \<Rightarrow> None
   | Some d \<Rightarrow> Some (flexible_required_bytes data_offset size_t (rb_capacity d), rb_slots d))"

(* core/include/upp/ring_buffer.hpp 43-47: operator= *)
definition rb_move_assign ::
  "size \<Rightarrow> size \<Rightarrow> bool \<Rightarrow> 'a ring_buffer \<Rightarrow> 'a ring_buffer \<Rightarrow>
     ((size \<times> 'a option list) option \<times> 'a ring_buffer \<times> 'a ring_buffer) result" where
  "rb_move_assign data_offset size_t same_object this other =
     (if same_object then Inl Undefined
      else Inr (rb_dtor data_offset size_t this, rb_move other))"

(* core/include/upp/ring_buffer.hpp 53-57: capacity *)
definition rb_capacity_of :: "'a ring_buffer \<Rightarrow> size" where
  "rb_capacity_of r = (case r of None \<Rightarrow> 0 | Some d \<Rightarrow> rb_capacity d)"

(* core/include/upp/ring_buffer.hpp 59-63: size *)
definition rb_size :: "'a ring_buffer \<Rightarrow> size" where
  "rb_size r = (case r of None \<Rightarrow> 0 | Some d \<Rightarrow> rb_count d)"

(* core/include/upp/ring_buffer.hpp 65-69: empty *)
definition rb_empty :: "'a ring_buffer \<Rightarrow> bool" where
  "rb_empty r = (case r of None \<Rightarrow> True | Some d \<Rightarrow> rb_count d = 0)"

(* core/include/upp/ring_buffer.hpp 71-75: front *)
definition rb_front :: "build \<Rightarrow> 'a ring_buffer \<Rightarrow> 'a result" where
  "rb_front b r = rbind (cassert b (\<not> rb_empty r)) (\<lambda>_. case r of
     None \<Rightarrow> Inl Undefined
   | Some d \<Rightarrow> live_at (rb_slots d) (unat (rb_offset d)))"

(* core/include/upp/ring_buffer.hpp 77-90: push *)
definition rb_push :: "build \<Rightarrow> 'a ring_buffer \<Rightarrow> 'a \<Rightarrow> 'a ring_buffer result" where
  "rb_push b r t = rbind (cassert b (r \<noteq> None)) (\<lambda>_. case r of
     None \<Rightarrow> Inl Undefined
   | Some d \<Rightarrow>
       let count = rb_count d; cap = rb_capacity d in
       if cap = 0 then Inl Undefined else
       let idx = unat ((rb_offset d + count) mod cap) in
       rbind (if count = cap
          then rbind (destroy_slot (rb_slots d) idx)
                 (\<lambda>s. Inr (d\<lparr>rb_slots := s, rb_offset := rb_offset d + 1\<rparr>))
          else Inr (d\<lparr>rb_count := count + 1\<rparr>))
       (\<lambda>d'. rbind (construct_slot (rb_slots d') idx t) (\<lambda>s. Inr (Some (d'\<lparr>rb_slots := s\<rparr>)))))"

(* core/include/upp/ring_buffer.hpp 92-97: pop *)
definition rb_pop :: "build \<Rightarrow> 'a ring_buffer \<Rightarrow> 'a ring_buffer result" where
  "rb_pop b r = rbind (cassert b (\<not> rb_empty r)) (\<lambda>_. case r of
     None \<Rightarrow> Inl Undefined
   | Some d \<Rightarrow> rbind (destroy_slot (rb_slots d) (unat (rb_offset d)))
       (\<lambda>s. Inr (Some (d\<lparr>rb_slots := s, rb_offset := rb_offset d + 1, rb_count := rb_count d - 1\<rparr>))))"

section \<open>The elements of a ring buffer\<close>

text \<open>Counted from the offset around the ring, the slots hold the elements in order and are empty
  behind them.  The offset itself may have any value that leaves room for one more turn.\<close>

definition ring_slots :: "nat \<Rightarrow> nat \<Rightarrow> 'a option list \<Rightarrow> 'a list \<Rightarrow> bool" where
  "ring_slots c f s xs \<longleftrightarrow> length s = c \<and> length xs \<le> c \<and>
     (\<forall>i<c. s ! ((f + i) mod c) = (if i < length xs then Some (xs ! i) else None))"

fun rb_rep :: "'a ring_buffer \<Rightarrow> 'a list \<Rightarrow> bool" where
  "rb_rep None xs \<longleftrightarrow> False"
| "rb_rep (Some d) xs \<longleftrightarrow>
     0 < rb_capacity d \<and> unat (rb_count d) = length xs \<and>
     unat (rb_offset d) + unat (rb_capacity d) < 2 ^ 64 \<and>
     ring_slots (unat (rb_capacity d)) (unat (rb_offset d)) (rb_slots d) xs"

definition rb_adm :: "'a ring_buffer \<Rightarrow> 'a list \<Rightarrow> bool" where
  "rb_adm r ys \<longleftrightarrow> unat (rb_size r) + length ys \<le> unat (rb_capacity_of r)"

definition rb_safe :: "'a ring_buffer \<Rightarrow> bool" where
  "rb_safe r \<longleftrightarrow> (case r of None \<Rightarrow> False | Some d \<Rightarrow>
     rb_offset d < rb_capacity d \<and> unat (rb_offset d) + unat (rb_capacity d) + 1 < 2 ^ 64)"

lemma ring_slots_bounds:
  "ring_slots c f s xs \<Longrightarrow> 0 < c \<Longrightarrow> (f + i) mod c < length s"
  by (simp add: ring_slots_def)

lemma ring_slots_nth:
  "ring_slots c f s xs \<Longrightarrow> i < length xs \<Longrightarrow> s ! ((f + i) mod c) = Some (xs ! i)"
  by (simp add: ring_slots_def)

lemma ring_slots_add:
  assumes "ring_slots c f s xs" and "length xs < c"
  shows "ring_slots c f (s[(f + length xs) mod c := Some t]) (xs @ [t])"
  unfolding ring_slots_def
proof (intro conjI allI impI)
  show "length (s[(f + length xs) mod c := Some t]) = c" "length (xs @ [t]) \<le> c"
    using assms by (auto simp: ring_slots_def)
  fix i assume i: "i < c"
  have eq: "(f + length xs) mod c = (f + i) mod c \<longleftrightarrow> length xs = i"
    using mod_shift_inj [of f "length xs" c i] i assms(2) by auto
  have "(f + i) mod c < length s" using assms i by (auto simp: ring_slots_def)
  then show "s[(f + length xs) mod c := Some t] ! ((f + i) mod c) =
      (if i < length (xs @ [t]) then Some ((xs @ [t]) ! i) else None)"
    using assms i eq by (auto simp: ring_slots_def nth_list_update nth_append)
qed

lemma ring_slots_remove:
  assumes "ring_slots c f s (x # xs)"
  shows "ring_slots c (Suc f) (s[f mod c := None]) xs"
  unfolding ring_slots_def
proof (intro conjI allI impI)
  show "length (s[f mod c := None]) = c" "length xs \<le> c"
    using assms by (auto simp: ring_slots_def)
  fix i assume i: "i < c"
  show "s[f mod c := None] ! ((Suc f + i) mod c) = (if i < length xs then Some (xs ! i) else None)"
  proof (cases "Suc i = c")
    case True
    then have "(Suc f + i) mod c = f mod c" by (metis add_Suc_shift mod_add_self2)
    moreover have "\<not> i < length xs" using assms True by (auto simp: ring_slots_def)
    moreover have "f mod c < length s" using assms i by (auto simp: ring_slots_def)
    ultimately show ?thesis by simp
  next
    case False
    then have "Suc i < c" using i by simp
    moreover have "f mod c \<noteq> (f + Suc i) mod c"
      using mod_shift_inj [of f 0 c "Suc i"] calculation by auto
    ultimately show ?thesis using assms by (auto simp: ring_slots_def)
  qed
qed

text \<open>A full ring has its oldest element in the slot the next push writes to.\<close>

lemma ring_slots_rotate:
  assumes "ring_slots c f s (x # xs)" and "Suc (length xs) = c"
  shows "ring_slots c (Suc f) (s[f mod c := Some t]) (xs @ [t])"
proof -
  have "ring_slots c (Suc f) (s[f mod c := None]) xs" using assms(1) by (rule ring_slots_remove)
  then have "ring_slots c (Suc f) ((s[f mod c := None])[(Suc f + length xs) mod c := Some t]) (xs @ [t])"
    by (rule ring_slots_add) (use assms(2) in simp)
  moreover have "(Suc f + length xs) mod c = f mod c"
    using assms(2) by (metis add_Suc_shift mod_add_self2)
  ultimately show ?thesis by simp
qed

section \<open>The operations\<close>

lemma ring_index:
  fixes f n c :: size
  assumes "unat f + unat c < 2 ^ 64" and "unat n \<le> unat c"
  shows "unat ((f + n) mod c) = (unat f + unat n) mod unat c"
proof -
  have "unat (f + n) = unat f + unat n" using assms by (simp add: unat_word_ariths)
  then show ?thesis by (simp add: unat_mod)
qed

lemma unat_inc: "unat (x :: size) + 1 < 2 ^ 64 \<Longrightarrow> unat (x + 1) = Suc (unat x)"
  by (simp add: unat_word_ariths)

lemma unat_dec: "unat (x :: size) = Suc n \<Longrightarrow> unat (x - 1) = n"
  by (metis One_nat_def diff_Suc_1 unat_gt_0 unat_minus_one zero_less_Suc)

lemma rb_push_append:
  assumes "rb_rep (Some d) xs" and "rb_count d \<noteq> rb_capacity d"
  shows "\<exists>d'. rb_push b (Some d) t = Inr (Some d') \<and> rb_rep (Some d') (xs @ [t]) \<and>
    rb_capacity d' = rb_capacity d \<and> rb_offset d' = rb_offset d \<and> rb_count d' = rb_count d + 1"
proof -
  let ?c = "unat (rb_capacity d)" and ?f = "unat (rb_offset d)"
  from assms(1) have c: "0 < rb_capacity d" "unat (rb_count d) = length xs" "?f + ?c < 2 ^ 64"
    and ring: "ring_slots ?c ?f (rb_slots d) xs" by simp_all
  have le: "length xs \<le> ?c" using ring by (simp add: ring_slots_def)
  moreover have "length xs \<noteq> ?c" using assms(2) c(2) by (simp add: word_unat_eq_iff)
  ultimately have lt: "length xs < ?c" by simp
  have idx: "unat ((rb_offset d + rb_count d) mod rb_capacity d) = (?f + length xs) mod ?c"
    using ring_index [OF c(3), of "rb_count d"] le c(2) by simp
  have inb: "(?f + length xs) mod ?c < length (rb_slots d)"
    using ring lt by (auto simp: ring_slots_def)
  have cnt: "unat (rb_count d + 1) = Suc (length xs)"
    using lt c(2,3) by (subst unat_inc) auto
  show ?thesis
    using assms c idx inb cnt ring_slots_add [OF ring lt, of t]
    by (auto simp: rb_push_def Let_def)
qed

lemma rb_push_full:
  assumes "rb_rep (Some d) (x # xs)" and "rb_count d = rb_capacity d"
    and "unat (rb_offset d) + unat (rb_capacity d) + 1 < 2 ^ 64"
  shows "\<exists>d'. rb_push b (Some d) t = Inr (Some d') \<and> rb_rep (Some d') (xs @ [t]) \<and>
    rb_capacity d' = rb_capacity d \<and> rb_offset d' = rb_offset d + 1 \<and> rb_count d' = rb_count d"
proof -
  let ?c = "unat (rb_capacity d)" and ?f = "unat (rb_offset d)"
  from assms(1) have c: "0 < rb_capacity d" "unat (rb_count d) = Suc (length xs)" "?f + ?c < 2 ^ 64"
    and ring: "ring_slots ?c ?f (rb_slots d) (x # xs)" by simp_all
  have full: "Suc (length xs) = ?c" using c(2) assms(2) by simp
  have idx: "unat ((rb_offset d + rb_count d) mod rb_capacity d) = ?f mod ?c"
    using ring_index [OF c(3), of "rb_count d"] assms(2) by simp
  have slot: "?f mod ?c < length (rb_slots d)" "rb_slots d ! (?f mod ?c) = Some x"
    using ring ring_slots_nth [OF ring, of 0] full by (auto simp: ring_slots_def)
  have off: "unat (rb_offset d + 1) = Suc ?f" using assms(3) by (subst unat_inc) auto
  show ?thesis
    using assms c(1,2) full idx slot off ring_slots_rotate [OF ring full, of t]
    by (auto simp: rb_push_def Let_def)
qed

lemma rb_pop_ok:
  assumes "rb_rep (Some d) (x # xs)" and "rb_offset d < rb_capacity d"
    and "unat (rb_offset d) + unat (rb_capacity d) + 1 < 2 ^ 64"
  shows "\<exists>d'. rb_pop b (Some d) = Inr (Some d') \<and> rb_rep (Some d') xs \<and>
    rb_capacity d' = rb_capacity d \<and> rb_offset d' = rb_offset d + 1 \<and> rb_count d' = rb_count d - 1"
proof -
  let ?c = "unat (rb_capacity d)" and ?f = "unat (rb_offset d)"
  from assms(1) have c: "0 < rb_capacity d" "unat (rb_count d) = Suc (length xs)"
    and ring: "ring_slots ?c ?f (rb_slots d) (x # xs)" by simp_all
  have lt: "?f < ?c" using assms(2) by (simp add: word_less_nat_alt)
  have slot: "?f < length (rb_slots d)" "rb_slots d ! ?f = Some x"
    using ring ring_slots_nth [OF ring, of 0] lt by (auto simp: ring_slots_def)
  have off: "unat (rb_offset d + 1) = Suc ?f" using assms(3) by (subst unat_inc) auto
  have cnt: "unat (rb_count d - 1) = length xs" using c(2) by (rule unat_dec)
  have ne: "rb_count d \<noteq> 0" using c(2) by auto
  show ?thesis
    using assms c slot off cnt ne ring_slots_remove [OF ring] lt
    by (auto simp: rb_pop_def rb_empty_def)
qed

lemma rb_create_rep:
  assumes "size_t \<noteq> 0" and "0 < c" and "unat data_offset + unat size_t * unat c < 2 ^ 64"
  shows "rb_rep (rb_create data_offset size_t c) []"
  using assms(2) flexible_slots_exact [OF assms(1,3)] unsigned_less [of c]
  by (simp add: rb_create_def ring_slots_def unat_gt_0 word_neq_0_conv)

interpretation ring: fifo rb_rep rb_adm "rb_push b" rb_safe "rb_pop b" "\<lambda>r. unat (rb_size r)" rb_empty
  for b :: build
proof
  fix q :: "'a ring_buffer" and xs y ys
  assume "rb_rep q xs" "rb_adm q (y # ys)"
  then obtain d where q: "q = Some d" "rb_rep (Some d) xs" by (cases q) auto
  from \<open>rb_adm q (y # ys)\<close> q have lt: "unat (rb_count d) < unat (rb_capacity d)"
    and le: "Suc (unat (rb_count d) + length ys) \<le> unat (rb_capacity d)"
    by (auto simp: rb_adm_def rb_size_def rb_capacity_of_def)
  then have ne: "rb_count d \<noteq> rb_capacity d" by auto
  have "unat (rb_count d + 1) = Suc (unat (rb_count d))"
    using lt q(2) by (intro unat_inc) auto
  with rb_push_append [OF q(2) ne, of b y] le q(1)
  show "\<exists>q'. rb_push b q y = Inr q' \<and> rb_rep q' (xs @ [y]) \<and> rb_adm q' ys"
    by (force simp: rb_adm_def rb_size_def rb_capacity_of_def)
next
  fix q :: "'a ring_buffer" and x xs
  assume "rb_rep q (x # xs)" "rb_safe q"
  then show "\<exists>q'. rb_pop b q = Inr q' \<and> rb_rep q' xs"
    using rb_pop_ok by (cases q) (fastforce simp: rb_safe_def)+
next
  fix q :: "'a ring_buffer" and xs
  assume "rb_rep q xs"
  then show "unat (rb_size q) = length xs" by (cases q) (auto simp: rb_size_def)
  from \<open>rb_rep q xs\<close> show "rb_empty q \<longleftrightarrow> xs = []"
    by (cases q) (auto simp: rb_empty_def unat_eq_0 [symmetric] simp del: unat_eq_0)
qed

text \<open>C14. \<open>push\<close> appends while there is room and otherwise drops the oldest element for the new
  one; it stays inside the storage whatever the offset has grown to.\<close>

theorem rb_push_contract:
  assumes "rb_rep (Some d) xs" and "unat (rb_offset d) + unat (rb_capacity d) + 1 < 2 ^ 64"
  shows "\<exists>d'. rb_push b (Some d) t = Inr (Some d') \<and> rb_capacity d' = rb_capacity d \<and>
    rb_rep (Some d') (if length xs = unat (rb_capacity d) then tl xs @ [t] else xs @ [t])"
proof (cases "rb_count d = rb_capacity d")
  case True
  with assms(1) obtain x ys where xs: "xs = x # ys"
    by (cases xs) (auto simp: unat_0_iff)
  with True assms rb_push_full [of d x ys b t] show ?thesis by auto
next
  case False
  then have "length xs \<noteq> unat (rb_capacity d)" using assms(1) by (auto simp: word_unat_eq_iff)
  with rb_push_append [OF assms(1) False, of b t] show ?thesis by auto
qed

theorem rb_push_contract_witness:
  "\<exists>d'. rb_push Debug (Some \<lparr>rb_capacity = 2, rb_offset = 3, rb_count = 2,
      rb_slots = [Some (8 :: nat), Some 7]\<rparr>) 9 = Inr (Some d') \<and> rb_rep (Some d') [8, 9]"
proof -
  let ?d = "\<lparr>rb_capacity = 2, rb_offset = 3, rb_count = 2, rb_slots = [Some (8 :: nat), Some 7]\<rparr>"
  have "ring_slots 2 3 [Some (8 :: nat), Some 7] [7, 8]"
    by code_simp
  then have h: "rb_rep (Some ?d) [7, 8]" "unat (rb_offset ?d) + unat (rb_capacity ?d) + 1 < 2 ^ 64"
    by simp_all
  from rb_push_contract [OF h, of Debug 9] show ?thesis by auto
qed

lemma rb_front_below:
  assumes "rb_rep (Some d) xs" and "xs \<noteq> []" and "rb_offset d < rb_capacity d"
  shows "rb_front b (Some d) = Inr (hd xs)"
proof -
  obtain x ys where xs: "xs = x # ys" using assms(2) by (cases xs) auto
  let ?f = "unat (rb_offset d)"
  have ring: "ring_slots (unat (rb_capacity d)) ?f (rb_slots d) (x # ys)" using assms(1) xs by simp
  have "?f < unat (rb_capacity d)" using assms(3) by (simp add: word_less_nat_alt)
  then have "?f < length (rb_slots d)" "rb_slots d ! ?f = Some x"
    using ring ring_slots_nth [OF ring, of 0] by (auto simp: ring_slots_def)
  moreover have "\<not> rb_empty (Some d)" using ring.is_empty_rep [OF assms(1)] assms(2) by simp
  ultimately show ?thesis using xs by (simp add: rb_front_def)
qed

text \<open>While the offset is below the capacity, \<open>front\<close> is the oldest element and \<open>pop\<close> removes
  exactly it, in both builds.\<close>

theorem rb_front_pop:
  assumes "rb_rep r (x # xs)" and "rb_safe r"
  shows "rb_front b r = Inr x \<and> (\<exists>r'. rb_pop b r = Inr r' \<and> rb_rep r' xs)"
proof -
  from assms obtain d where d: "r = Some d" "rb_offset d < rb_capacity d" by (auto simp: rb_safe_def split: option.splits)
  have "rb_front b r = Inr x" using rb_front_below [of d "x # xs" b] assms(1) d by simp
  with ring.pop_rep [OF assms] show ?thesis by blast
qed

theorem rb_front_pop_witness:
  "rb_front Debug (Some \<lparr>rb_capacity = 2, rb_offset = 1, rb_count = 1, rb_slots = [None, Some CHR ''a'']\<rparr>) = Inr CHR ''a''"
proof -
  let ?r = "Some \<lparr>rb_capacity = 2, rb_offset = 1, rb_count = 1, rb_slots = [None, Some CHR ''a'']\<rparr>"
  have "ring_slots 2 1 [None, Some CHR ''a''] [CHR ''a'']"
    by code_simp
  then have h: "rb_rep ?r [CHR ''a'']" "rb_safe ?r" by (simp_all add: rb_safe_def)
  from rb_front_pop [OF h, of Debug] show ?thesis by simp
qed

text \<open>The machine of a ring buffer of capacity \<open>c\<close>: its offset, which counts the elements removed or dropped, and
  the elements it holds.  It may be popped while the offset is below the capacity.\<close>

definition rb_spec_push :: "nat \<Rightarrow> nat \<times> 'a list \<Rightarrow> 'a \<Rightarrow> (nat \<times> 'a list) option" where
  "rb_spec_push c s t = (if length (snd s) < c then Some (fst s, snd s @ [t])
     else if fst s + c + 1 < 2 ^ 64 then Some (Suc (fst s), tl (snd s) @ [t]) else None)"

definition rb_spec_pop :: "nat \<Rightarrow> nat \<times> 'a list \<Rightarrow> (nat \<times> 'a list) option" where
  "rb_spec_pop c s = (case snd s of [] \<Rightarrow> None
     | x # xs \<Rightarrow> (if fst s < c \<and> fst s + c + 1 < 2 ^ 64 then Some (Suc (fst s), xs) else None))"

definition rb_runs :: "nat \<Rightarrow> nat \<times> 'a list \<Rightarrow> 'a ring_buffer \<Rightarrow> bool" where
  "rb_runs c s r \<longleftrightarrow> (\<exists>d. r = Some d \<and> rb_rep (Some d) (snd s) \<and> unat (rb_offset d) = fst s \<and> unat (rb_capacity d) = c)"

lemma rb_rep_length: "rb_rep (Some d) xs \<Longrightarrow> length xs \<le> unat (rb_capacity d)"
  by (simp add: ring_slots_def)

interpretation ring_runs: fifo_refinement "rb_runs c" "rb_spec_push c" "rb_spec_pop c" "rb_push b" "rb_pop b"
  for c :: nat and b :: build
proof
  fix s s' :: "nat \<times> 'a list" and r y
  assume "rb_runs c s r"
  then obtain d where d: "r = Some d" "rb_rep (Some d) (snd s)" "unat (rb_offset d) = fst s" "unat (rb_capacity d) = c"
    unfolding rb_runs_def by blast
  have count: "unat (rb_count d) = length (snd s)" using d(2) by simp
  show "\<exists>r'. rb_push b r y = Inr r' \<and> rb_runs c s' r'" if sp: "rb_spec_push c s y = Some s'"
  proof (cases "length (snd s) < c")
    case True
    then have "rb_count d \<noteq> rb_capacity d" using count d(4) by auto
    from rb_push_append [OF d(2) this, of b y] d sp True show ?thesis
      by (auto simp: rb_spec_push_def rb_runs_def)
  next
    case False
    then have lt: "fst s + c + 1 < 2 ^ 64" "s' = (Suc (fst s), tl (snd s) @ [y])"
      using sp by (auto simp: rb_spec_push_def split: if_splits)
    have full: "length (snd s) = c" using False rb_rep_length [OF d(2)] d(4) by simp
    then have eq: "rb_count d = rb_capacity d" using count d(4) by (simp add: word_unat_eq_iff)
    have "0 < unat (rb_capacity d)" using d(2) by (simp add: unat_gt_0 word_neq_0_conv)
    then obtain x xs where xs: "snd s = x # xs" using full d(4) by (cases "snd s") auto
    have "unat (rb_offset d) + unat (rb_capacity d) + 1 < 2 ^ 64" using lt(1) d(3,4) by simp
    moreover from this have "unat (rb_offset d + 1) = Suc (fst s)" using d(3) by (subst unat_inc) auto
    ultimately show ?thesis using rb_push_full [of d x xs b y] d xs eq lt(2) by (auto simp: rb_runs_def)
  qed
  show "\<exists>r'. rb_pop b r = Inr r' \<and> rb_runs c s' r'" if sp: "rb_spec_pop c s = Some s'"
  proof -
    obtain x xs where xs: "snd s = x # xs" using sp by (cases "snd s") (auto simp: rb_spec_pop_def)
    with sp have lt: "fst s < c" "fst s + c + 1 < 2 ^ 64" "s' = (Suc (fst s), xs)"
      by (auto simp: rb_spec_pop_def split: if_splits)
    have "rb_offset d < rb_capacity d" using lt(1) d(3,4) by (simp add: word_less_nat_alt)
    moreover have "unat (rb_offset d) + unat (rb_capacity d) + 1 < 2 ^ 64" using lt(2) d(3,4) by simp
    moreover from this have "unat (rb_offset d + 1) = Suc (fst s)" using d(3) by (subst unat_inc) auto
    ultimately show ?thesis using rb_pop_ok [of d x xs b] d xs lt(3) by (auto simp: rb_runs_def)
  qed
qed

text \<open>C13. A new ring buffer works as the sequence of a bounded queue that drops its oldest element when it is full,
  for any program that pops only while the offset is below the capacity; the offset counts the elements removed and
  the elements dropped.  \<open>size\<close> and \<open>empty\<close> are those of the sequence, and so is \<open>front\<close>, again while the offset is
  below the capacity.  The offset must not come within the capacity and one of the bound of its type.\<close>

theorem rb_run_refines:
  assumes "size_t \<noteq> 0" and "0 < c" and "unat data_offset + unat size_t * unat c < 2 ^ 64"
    and "spec_run (rb_spec_push (unat c)) (rb_spec_pop (unat c)) ops (0, []) = Some (f, xs)"
  shows "\<exists>r. fifo_run (rb_push b) (rb_pop b) ops (rb_create data_offset size_t c) = Inr r \<and> rb_rep r xs \<and>
    unat (rb_size r) = length xs \<and> (rb_empty r \<longleftrightarrow> xs = []) \<and>
    (xs \<noteq> [] \<and> f < unat c \<longrightarrow> rb_front b r = Inr (hd xs))"
proof -
  have new: "rb_rep (rb_create data_offset size_t c) []" by (rule rb_create_rep [OF assms(1-3)])
  then have "rb_runs (unat c) (0, []) (rb_create data_offset size_t c)" by (simp add: rb_runs_def rb_create_def)
  from ring_runs.run_refines [OF this assms(4), of b] obtain r where
    r: "fifo_run (rb_push b) (rb_pop b) ops (rb_create data_offset size_t c) = Inr r" "rb_runs (unat c) (f, xs) r" by blast
  then obtain d where d: "r = Some d" "rb_rep (Some d) xs" "unat (rb_offset d) = f" "unat (rb_capacity d) = unat c"
    unfolding rb_runs_def fst_conv snd_conv by blast
  have "rb_front b r = Inr (hd xs)" if "xs \<noteq> []" "f < unat c"
    unfolding d(1) by (rule rb_front_below [OF d(2)]) (use that d(3,4) in \<open>simp_all add: word_less_nat_alt\<close>)
  then show ?thesis using r(1) d ring.count_rep [of r xs] ring.is_empty_rep [of r xs] by blast
qed

theorem rb_run_refines_witness:
  "\<exists>r. fifo_run (rb_push Debug) (rb_pop Debug) [Push 1, Push 2, Push 3, Push (4 :: nat), Pop] (rb_create 24 4 3) = Inr r \<and>
    rb_rep r [3, 4] \<and> rb_front Debug r = Inr 3"
proof -
  have "spec_run (rb_spec_push (unat (3 :: size))) (rb_spec_pop (unat (3 :: size)))
      [Push 1, Push 2, Push 3, Push (4 :: nat), Pop] (0, []) = Some (2, [3, 4])"
    by (simp add: rb_spec_push_def rb_spec_pop_def)
  from rb_run_refines [of 4 3 24, OF _ _ _ this, of Debug] show ?thesis by auto
qed

text \<open>The offset is never reduced modulo the capacity, and \<open>front\<close> and \<open>pop\<close> use it as the
  index: once it has reached the capacity both read behind the storage.\<close>

lemma rb_worn_out:
  assumes "rb_rep (Some d) (x # xs)" and "rb_capacity d \<le> rb_offset d"
  shows "rb_front b (Some d) = Inl Undefined" and "rb_pop b (Some d) = Inl Undefined"
proof -
  have "length (rb_slots d) \<le> unat (rb_offset d)"
    using assms by (auto simp: ring_slots_def word_le_nat_alt)
  moreover have "\<not> rb_empty (Some d)" using ring.is_empty_rep [OF assms(1)] by simp
  ultimately show "rb_front b (Some d) = Inl Undefined" "rb_pop b (Some d) = Inl Undefined"
    by (simp_all add: rb_front_def rb_pop_def)
qed

definition push_pop :: "build \<Rightarrow> 'a \<Rightarrow> 'a ring_buffer \<Rightarrow> 'a ring_buffer result" where
  "push_pop b t r = rbind (rb_push b r t) (rb_pop b)"

lemma push_pop_empty:
  assumes "rb_rep (Some d) []" and "rb_offset d < rb_capacity d"
    and "2 * unat (rb_capacity d) < 2 ^ 64"
  shows "\<exists>d'. push_pop b t (Some d) = Inr (Some d') \<and> rb_rep (Some d') [] \<and>
    rb_capacity d' = rb_capacity d \<and> unat (rb_offset d') = Suc (unat (rb_offset d))"
proof -
  have lt: "unat (rb_offset d) < unat (rb_capacity d)" using assms(2) by (simp add: word_less_nat_alt)
  have "rb_count d \<noteq> rb_capacity d" using assms(1,2) by (auto simp: unat_0_iff)
  from rb_push_append [OF assms(1) this, of b t] obtain d1 where
    d1: "rb_push b (Some d) t = Inr (Some d1)" "rb_rep (Some d1) [t]"
      "rb_capacity d1 = rb_capacity d" "rb_offset d1 = rb_offset d" by auto
  have "rb_offset d1 < rb_capacity d1" "unat (rb_offset d1) + unat (rb_capacity d1) + 1 < 2 ^ 64"
    using d1(3,4) assms(2,3) lt by simp_all
  from rb_pop_ok [OF d1(2) this, of b] d1 obtain d2 where
    "push_pop b t (Some d) = Inr (Some d2)" "rb_rep (Some d2) []"
    "rb_capacity d2 = rb_capacity d" "rb_offset d2 = rb_offset d + 1"
    by (auto simp: push_pop_def)
  moreover have "unat (rb_offset d + 1) = Suc (unat (rb_offset d))"
    using lt assms(3) by (intro unat_inc) simp
  ultimately show ?thesis by auto
qed

lemma push_pop_rounds:
  assumes "rb_rep (Some d) []" and "unat (rb_offset d) + length ts \<le> unat (rb_capacity d)"
    and "2 * unat (rb_capacity d) < 2 ^ 64"
  shows "\<exists>d'. rfold (push_pop b) ts (Some d) = Inr (Some d') \<and> rb_rep (Some d') [] \<and>
    rb_capacity d' = rb_capacity d \<and> unat (rb_offset d') = unat (rb_offset d) + length ts"
  using assms
proof (induction ts arbitrary: d)
  case Nil
  then show ?case by simp
next
  case (Cons t ts)
  then have "rb_offset d < rb_capacity d" by (simp add: word_less_nat_alt)
  from push_pop_empty [OF Cons.prems(1) this Cons.prems(3), of b t] obtain d1 where
    d1: "push_pop b t (Some d) = Inr (Some d1)" "rb_rep (Some d1) []"
      "rb_capacity d1 = rb_capacity d" "unat (rb_offset d1) = Suc (unat (rb_offset d))" by auto
  from Cons.IH [OF d1(2)] d1 Cons.prems(2,3) show ?case by auto
qed

text \<open>C30. A ring buffer wears out: after as many push-and-pop rounds as it has capacity, the element
  of the next push can no longer be read or removed.\<close>

theorem rb_wears_out:
  fixes ts :: "'a list"
  assumes "size_t \<noteq> 0" and "0 < c" and "unat data_offset + unat size_t * unat c < 2 ^ 64"
    and "2 * unat c < 2 ^ 64" and "length ts = unat c"
  shows "\<exists>r. rbind (rfold (push_pop b) ts (rb_create data_offset size_t c)) (\<lambda>r. rb_push b r x) = Inr r \<and>
    rb_size r = 1 \<and> rb_front b r = Inl Undefined \<and> rb_pop b r = Inl Undefined"
proof -
  let ?d = "\<lparr>rb_capacity = c, rb_offset = 0, rb_count = 0,
           rb_slots = replicate (flexible_slots data_offset size_t c) None :: 'a option list\<rparr>"
  have new: "rb_create data_offset size_t c = Some ?d" by (simp add: rb_create_def)
  have "rb_rep (Some ?d) []" using rb_create_rep [OF assms(1-3), where 'a = 'a] by (simp only: new)
  moreover have "unat (rb_offset ?d) + length ts \<le> unat (rb_capacity ?d)" "2 * unat (rb_capacity ?d) < 2 ^ 64"
    using assms(4,5) by simp_all
  ultimately obtain d1 where
    d1: "rfold (push_pop b) ts (Some ?d) = Inr (Some d1)" "rb_rep (Some d1) []"
      "rb_capacity d1 = rb_capacity ?d" "unat (rb_offset d1) = unat (rb_offset ?d) + length ts"
    using push_pop_rounds by (metis (no_types, lifting))
  then have d1': "rb_capacity d1 = c" "unat (rb_offset d1) = unat c" using assms(5) by simp_all
  have "rb_count d1 \<noteq> rb_capacity d1" using d1(2) d1'(1) assms(2) by (auto simp: unat_0_iff)
  from rb_push_append [OF d1(2) this, of b x] d1'(1) obtain d2 where
    d2: "rb_push b (Some d1) x = Inr (Some d2)" "rb_rep (Some d2) [x]"
      "rb_capacity d2 = c" "rb_offset d2 = rb_offset d1" "rb_count d2 = rb_count d1 + 1" by auto
  have "rb_count d1 = 0" using d1(2) by (simp add: unat_0_iff)
  moreover have "rb_capacity d2 \<le> rb_offset d2" using d2(3,4) d1'(2) by (simp add: word_le_nat_alt)
  ultimately show ?thesis
    using new d1(1) d2 rb_worn_out [OF d2(2), of b] by (simp add: rb_size_def)
qed

theorem rb_wears_out_witness:
  "\<exists>r. rbind (rfold (push_pop Debug) [5 :: nat] (rb_create 24 8 1)) (\<lambda>r. rb_push Debug r 6) = Inr r \<and>
    rb_size r = 1 \<and> rb_front Debug r = Inl Undefined \<and> rb_pop Debug r = Inl Undefined"
  by (rule rb_wears_out) simp_all

text \<open>The slots that hold an object, in storage order.\<close>

definition live_objects :: "'a option list \<Rightarrow> 'a list" where
  "live_objects s = map the (filter (\<lambda>v. v \<noteq> None) s)"

lemma live_objects_count:
  assumes "ring_slots c f s xs" and "0 < c"
  shows "length (live_objects s) = length xs"
proof -
  let ?g = "\<lambda>i. (f + i) mod c"
  have len: "length s = c" "length xs \<le> c" using assms(1) by (simp_all add: ring_slots_def)
  have inj: "inj_on ?g {..<c}" by (rule inj_onI) (auto dest: mod_shift_inj)
  have img: "?g ` {..<c} = {..<c}"
    by (rule endo_inj_surj) (use inj assms(2) in auto)
  have "{j. j < length s \<and> s ! j \<noteq> None} = ?g ` {..<length xs}"
  proof (intro set_eqI iffI)
    fix j assume "j \<in> {j. j < length s \<and> s ! j \<noteq> None}"
    then have j: "j < c" "s ! j \<noteq> None" using len by auto
    from j(1) have "j \<in> ?g ` {..<c}" by (simp add: img)
    then obtain i where i: "i < c" "j = ?g i" by blast
    have "i < length xs" by (rule ccontr) (use assms(1) i j(2) in \<open>simp add: ring_slots_def\<close>)
    then show "j \<in> ?g ` {..<length xs}" using i by blast
  next
    fix j assume "j \<in> ?g ` {..<length xs}"
    then obtain i where "i < length xs" "j = ?g i" by blast
    then show "j \<in> {j. j < length s \<and> s ! j \<noteq> None}"
      using ring_slots_nth [OF assms(1)] len assms(2) by simp
  qed
  moreover have "inj_on ?g {..<length xs}" by (rule inj_on_subset [OF inj]) (use len(2) in auto)
  ultimately have "card {j. j < length s \<and> s ! j \<noteq> None} = length xs"
    by (simp add: card_image)
  then show ?thesis by (simp add: live_objects_def length_filter_conv_card)
qed

text \<open>The destructor gives the storage back with as many live objects in it as the container held:
  it runs no element destructor.\<close>

theorem rb_dtor_leaks_elements:
  assumes "rb_rep r xs"
  shows "\<exists>bytes slots. rb_dtor data_offset size_t r = Some (bytes, slots) \<and>
    bytes = flexible_required_bytes data_offset size_t (rb_capacity_of r) \<and>
    length (live_objects slots) = length xs"
proof -
  from assms obtain d where d: "r = Some d" by (cases r) auto
  with assms have "ring_slots (unat (rb_capacity d)) (unat (rb_offset d)) (rb_slots d) xs"
    and "0 < unat (rb_capacity d)" by (auto simp: unat_gt_0 word_neq_0_conv)
  from live_objects_count [OF this] d show ?thesis by (simp add: rb_dtor_def rb_capacity_of_def)
qed

theorem rb_dtor_leaks_elements_witness:
  "\<exists>bytes slots. rb_dtor 24 8 (Some \<lparr>rb_capacity = 2, rb_offset = 1, rb_count = 1,
      rb_slots = [None, Some (7 :: nat)]\<rparr>) = Some (bytes, slots) \<and> length (live_objects slots) = 1"
proof -
  let ?r = "Some \<lparr>rb_capacity = 2, rb_offset = 1, rb_count = 1, rb_slots = [None, Some (7 :: nat)]\<rparr>"
  have "ring_slots 2 1 [None, Some (7 :: nat)] [7]" by code_simp
  then have "rb_rep ?r [7]" by simp
  from rb_dtor_leaks_elements [OF this, of 24 8] show ?thesis by auto
qed

end
