(* ===== verification/Chunk_Queue.thy ===== *)
theory Chunk_Queue
  imports Heap_Lists Fifo
begin

text \<open>
  \<open>upp::experimental::queue\<close>, \<open>core/include/upp/queue.hpp\<close>: a chain of chunks with
  \<open>chunk_elements\<close> slots each, a pointer to the first and to the last chunk, the index of the
  oldest element in the first and the index behind the newest in the last.  The chunks live in an
  explicit store, so a chunk given back to the allocator is gone and a pointer to it dangles.
\<close>

section \<open>Chunk size and index type\<close>

(* core/include/upp/queue.hpp 8-13: chunk_elements *)
definition chunk_elements :: "nat \<Rightarrow> nat" where
  "chunk_elements size_t = 1024 div size_t + 1"

datatype index_type = Uint8 | Uint16

text \<open>The two tests of \<open>chunk_index_type_impl\<close> are \<open>if constexpr\<close> statements without an
  \<open>else\<close>: the types of the \<open>return\<close> statements that are not discarded, in order.  A deduced return
  type exists when these agree.\<close>

(* core/include/upp/queue.hpp 15-22: chunk_index_type_impl *)
definition chunk_index_returns :: "nat \<Rightarrow> index_type list" where
  "chunk_index_returns size_t =
     (let count = chunk_elements size_t in
      (if count \<le> 255 then [Uint8] else []) @ (if count \<le> 65535 then [Uint16] else []))"

(* core/include/upp/queue.hpp 24-25: chunk_index_type *)
definition chunk_index_type :: "nat \<Rightarrow> index_type option" where
  "chunk_index_type size_t = (case chunk_index_returns size_t of
     [] \<Rightarrow> None
   | t # ts \<Rightarrow> (if \<forall>u \<in> set ts. u = t then Some t else None))"

section \<open>State\<close>

(* core/include/upp/queue.hpp 46-54: chunk *)
record 'a chunk =
  ch_next :: ptr
  ch_data :: "'a option list"

text \<open>The members of the queue, and the storage its allocator has handed out: the live chunks and
  the next address to hand out (an allocator never returns the address of a live block).\<close>

(* core/include/upp/queue.hpp 170-175: queue *)
record 'a queue =
  q_front :: ptr
  q_back :: ptr
  q_idx_front :: nat
  q_idx_end :: nat
  q_chunks :: "nat \<rightharpoonup> 'a chunk"
  q_fresh :: nat

(* core/include/upp/queue.hpp 76-77: queue() *)
definition q_new :: "'a queue" where
  "q_new = \<lparr>q_front = None, q_back = None, q_idx_front = 0, q_idx_end = 0,
            q_chunks = Map.empty, q_fresh = 0\<rparr>"

definition get_chunk :: "'a queue \<Rightarrow> ptr \<Rightarrow> 'a chunk result" where
  "get_chunk q p = (case p of None \<Rightarrow> Inl Undefined | Some a \<Rightarrow>
     (case q_chunks q a of None \<Rightarrow> Inl Undefined | Some c \<Rightarrow> Inr c))"

definition set_chunk :: "'a queue \<Rightarrow> ptr \<Rightarrow> 'a chunk \<Rightarrow> 'a queue result" where
  "set_chunk q p c = rbind (get_chunk q p) (\<lambda>_. Inr (q\<lparr>q_chunks := (q_chunks q)(the p \<mapsto> c)\<rparr>))"

text \<open>\<open>allocate(1)\<close> followed by \<open>std::construct_at\<close>: a fresh chunk, all slots empty.\<close>

definition new_chunk :: "nat \<Rightarrow> 'a queue \<Rightarrow> nat \<times> 'a queue" where
  "new_chunk size_t q =
     (q_fresh q, q\<lparr>q_chunks := (q_chunks q)(q_fresh q \<mapsto>
        \<lparr>ch_next = None, ch_data = replicate (chunk_elements size_t) None\<rparr>),
      q_fresh := Suc (q_fresh q)\<rparr>)"

definition free_chunk :: "'a queue \<Rightarrow> ptr \<Rightarrow> 'a queue result" where
  "free_chunk q p = rbind (get_chunk q p) (\<lambda>_. Inr (q\<lparr>q_chunks := (q_chunks q)(the p := None)\<rparr>))"

definition destroy_elem :: "'a queue \<Rightarrow> ptr \<Rightarrow> nat \<Rightarrow> 'a queue result" where
  "destroy_elem q p i = rbind (get_chunk q p) (\<lambda>c.
     rbind (destroy_slot (ch_data c) i) (\<lambda>s. set_chunk q p (c\<lparr>ch_data := s\<rparr>)))"

section \<open>Operations\<close>

(* core/include/upp/queue.hpp 147-151: empty *)
definition q_empty :: "'a queue \<Rightarrow> bool" where
  "q_empty q = (if q_front q = None then True
     else if q_front q = q_back q \<and> q_idx_front q = q_idx_end q then True else False)"

(* core/include/upp/queue.hpp 118-134: push *)
definition q_push :: "nat \<Rightarrow> 'a queue \<Rightarrow> 'a \<Rightarrow> 'a queue result" where
  "q_push size_t q t =
     (let q1 = (if q_back q = None
          then (case new_chunk size_t q of (p, q') \<Rightarrow> q'\<lparr>q_front := Some p, q_back := Some p\<rparr>)
          else q) in
      rbind (if q_idx_end q1 = chunk_elements size_t
          then (case new_chunk size_t q1 of (p, q') \<Rightarrow>
             rbind (get_chunk q' (q_back q')) (\<lambda>c.
             rbind (set_chunk q' (q_back q') (c\<lparr>ch_next := Some p\<rparr>)) (\<lambda>q''.
             Inr (q''\<lparr>q_back := Some p, q_idx_end := 0\<rparr>))))
          else Inr q1) (\<lambda>q2.
      rbind (get_chunk q2 (q_back q2)) (\<lambda>c.
      rbind (construct_slot (ch_data c) (q_idx_end q2) t) (\<lambda>s.
      rbind (set_chunk q2 (q_back q2) (c\<lparr>ch_data := s\<rparr>)) (\<lambda>q3.
      Inr (q3\<lparr>q_idx_end := Suc (q_idx_end q3)\<rparr>))))))"

(* core/include/upp/queue.hpp 79-84: queue(initializer_list) *)
definition q_of_list :: "nat \<Rightarrow> 'a list \<Rightarrow> 'a queue result" where
  "q_of_list size_t il = rfold (\<lambda>t q. q_push size_t q t) il q_new"

(* core/include/upp/queue.hpp 136-145: pop *)
definition q_pop :: "build \<Rightarrow> nat \<Rightarrow> 'a queue \<Rightarrow> 'a queue result" where
  "q_pop b size_t q =
     rbind (cassert b (\<not> q_empty q)) (\<lambda>_.
     rbind (destroy_elem q (q_front q) (q_idx_front q)) (\<lambda>q1.
     let q2 = q1\<lparr>q_idx_front := Suc (q_idx_front q1)\<rparr> in
     if q_idx_front q2 = chunk_elements size_t
     then rbind (get_chunk q2 (q_front q2)) (\<lambda>c.
       let old = q_front q2; q3 = q2\<lparr>q_front := ch_next c\<rparr> in
       rbind (free_chunk q3 old) (\<lambda>q4. Inr (q4\<lparr>q_idx_front := 0\<rparr>)))
     else Inr q2))"

(* core/include/upp/queue.hpp 153-164: size *)
definition q_size :: "nat \<Rightarrow> 'a queue \<Rightarrow> nat result option" where
  "q_size size_t q =
     (case count_nodes (\<lambda>a. map_option ch_next (q_chunks q a)) (q_front q) 0 of
        None \<Rightarrow> None
      | Some (Inl e) \<Rightarrow> Some (Inl e)
      | Some (Inr chunks) \<Rightarrow> Some (Inr (if chunks = 0 then 0
          else (chunks - 1) * chunk_elements size_t + q_idx_end q - q_idx_front q)))"

(* core/include/upp/queue.hpp 166-166: reserve *)
definition q_reserve :: "nat \<Rightarrow> 'a queue \<Rightarrow> 'a queue" where
  "q_reserve new_cap q = q"

text \<open>The body has no \<open>return\<close> statement.\<close>

(* core/include/upp/queue.hpp 168-168: capacity *)
definition q_capacity :: "'a queue \<Rightarrow> nat result" where
  "q_capacity q = Inl Undefined"

text \<open>The base class of the queue keeps the allocator when allocators of its type can differ;
  \<open>fresh\<close> is the value \<open>Alloc()\<close>.\<close>

(* core/include/upp/queue.hpp 27-43: alloc_holder *)
record 'al alloc_holder =
  m_alloc :: "'al option"

definition alloc_holder_ctor :: "bool \<Rightarrow> 'al \<Rightarrow> 'al alloc_holder" where
  "alloc_holder_ctor is_always_equal a = \<lparr>m_alloc = (if is_always_equal then None else Some a)\<rparr>"

(* core/include/upp/queue.hpp 34-34: alloc_holder::get_allocator *)
definition alloc_holder_get :: "'al \<Rightarrow> 'al alloc_holder \<Rightarrow> 'al" where
  "alloc_holder_get fresh h = fresh"

text \<open>So an allocator with a state is never used.\<close>

lemma alloc_holder_forgets: "a \<noteq> fresh \<Longrightarrow> alloc_holder_get fresh (alloc_holder_ctor False a) \<noteq> a"
  by (simp add: alloc_holder_get_def)

text \<open>The destructor returns the queue's storage as it leaves it: the chunks not given back.\<close>

definition destroy_range :: "ptr \<Rightarrow> nat \<Rightarrow> nat \<Rightarrow> 'a queue \<Rightarrow> 'a queue result" where
  "destroy_range p i j q = rfold (\<lambda>k q. destroy_elem q p k) [i..<j] q"

partial_function (option) destroy_middle :: "nat \<Rightarrow> ptr \<Rightarrow> 'a queue \<Rightarrow> 'a queue result option" where
  "destroy_middle size_t p q = (if p = q_back q then Some (Inr q) else
     (case destroy_range p 0 (chunk_elements size_t) q of
        Inl e \<Rightarrow> Some (Inl e)
      | Inr q' \<Rightarrow> (case get_chunk q' p of
          Inl e \<Rightarrow> Some (Inl e)
        | Inr c \<Rightarrow> destroy_middle size_t (ch_next c) q')))"

partial_function (option) free_chain :: "ptr \<Rightarrow> 'a queue \<Rightarrow> 'a queue result option" where
  "free_chain p q = (if p = None then Some (Inr q) else
     (case get_chunk q p of
        Inl e \<Rightarrow> Some (Inl e)
      | Inr c \<Rightarrow> (case free_chunk q p of
          Inl e \<Rightarrow> Some (Inl e)
        | Inr q' \<Rightarrow> free_chain (ch_next c) q')))"

(* core/include/upp/queue.hpp 92-116: ~queue *)
definition q_dtor :: "nat \<Rightarrow> 'a queue \<Rightarrow> 'a queue result option" where
  "q_dtor size_t q =
     (if q_front q = None then Some (Inr q)
      else if q_front q = q_back q
      then Some (destroy_range (q_front q) (q_idx_front q) (q_idx_end q) q)
      else (case rbind (destroy_range (q_front q) (q_idx_front q) (chunk_elements size_t) q)
                   (\<lambda>q1. rbind (destroy_range (q_back q1) 0 (q_idx_end q1) q1)
                   (\<lambda>q2. rbind (get_chunk q2 (q_front q2)) (\<lambda>c. Inr (q2, ch_next c)))) of
          Inl e \<Rightarrow> Some (Inl e)
        | Inr (q2, p) \<Rightarrow> (case destroy_middle size_t p q2 of
            None \<Rightarrow> None
          | Some (Inl e) \<Rightarrow> Some (Inl e)
          | Some (Inr q3) \<Rightarrow> free_chain (q_front q3) q3)))"

section \<open>The elements of a queue\<close>

text \<open>Laid end to end, the slots of the chain are empty up to the front index, then hold the
  elements in order, and are empty from the end index of the last chunk on.\<close>

definition links :: "(nat \<rightharpoonup> 'a chunk) \<Rightarrow> nat \<rightharpoonup> ptr" where
  "links m = (\<lambda>a. map_option ch_next (m a))"

definition slots :: "(nat \<rightharpoonup> 'a chunk) \<Rightarrow> nat list \<Rightarrow> 'a option list" where
  "slots m ps = concat (map (\<lambda>p. ch_data (the (m p))) ps)"

definition sized :: "nat \<Rightarrow> (nat \<rightharpoonup> 'a chunk) \<Rightarrow> nat list \<Rightarrow> bool" where
  "sized n m ps \<longleftrightarrow> (\<forall>p \<in> set ps. \<exists>c. m p = Some c \<and> length (ch_data c) = n)"

definition fresh_ok :: "'a queue \<Rightarrow> bool" where
  "fresh_ok q \<longleftrightarrow> (\<forall>a c. q_chunks q a = Some c \<longrightarrow> a < q_fresh q)"

definition q_chain :: "nat \<Rightarrow> 'a queue \<Rightarrow> nat list \<Rightarrow> 'a list \<Rightarrow> bool" where
  "q_chain n q ps xs \<longleftrightarrow> ps \<noteq> [] \<and> fresh_ok q \<and>
     lseg (links (q_chunks q)) (q_front q) ps None \<and> q_back q = Some (last ps) \<and>
     sized n (q_chunks q) ps \<and> q_idx_front q < n \<and> q_idx_end q \<le> n \<and>
     slots (q_chunks q) ps =
       replicate (q_idx_front q) None @ map Some xs @ replicate (n - q_idx_end q) None"

definition q_rep :: "nat \<Rightarrow> 'a queue \<Rightarrow> 'a list \<Rightarrow> bool" where
  "q_rep size_t q xs \<longleftrightarrow>
     (q_front q = None \<and> q_back q = None \<and> q_idx_front q = 0 \<and> q_idx_end q = 0 \<and> fresh_ok q \<and> xs = [])
     \<or> (\<exists>ps. q_chain (chunk_elements size_t) q ps xs)"

text \<open>The oldest element is the last of the last slot: removing it gives the last chunk back.\<close>

definition q_at_end :: "nat \<Rightarrow> 'a queue \<Rightarrow> bool" where
  "q_at_end size_t q \<longleftrightarrow> q_front q = q_back q \<and> Suc (q_idx_front q) = chunk_elements size_t \<and>
     q_idx_end q = chunk_elements size_t"

lemma links_upd [simp]: "links (m(p \<mapsto> c)) = (links m)(p \<mapsto> ch_next c)"
  by (auto simp: links_def)

lemma links_None [simp]: "links (m(p := None)) = (links m)(p := None)"
  by (auto simp: links_def)

lemma links_dom: "dom (links m) = dom m"
  by (auto simp: links_def)

lemma slots_Nil [simp]: "slots m [] = []"
  by (simp add: slots_def)

lemma slots_Cons [simp]: "slots m (p # ps) = ch_data (the (m p)) @ slots m ps"
  by (simp add: slots_def)

lemma slots_append [simp]: "slots m (ps @ qs) = slots m ps @ slots m qs"
  by (simp add: slots_def)

lemma slots_upd [simp]: "p \<notin> set ps \<Longrightarrow> slots (m(p := c)) ps = slots m ps"
  by (induction ps) auto

lemma sized_Cons [simp]:
  "sized n m (p # ps) \<longleftrightarrow> (\<exists>c. m p = Some c \<and> length (ch_data c) = n) \<and> sized n m ps"
  by (simp add: sized_def)

lemma sized_append [simp]: "sized n m (ps @ qs) \<longleftrightarrow> sized n m ps \<and> sized n m qs"
  by (auto simp: sized_def)

lemma sized_Nil [simp]: "sized n m []"
  by (simp add: sized_def)

lemma sized_upd [simp]: "p \<notin> set ps \<Longrightarrow> sized n (m(p := c)) ps \<longleftrightarrow> sized n m ps"
  by (induction ps) auto

lemma length_slots: "sized n m ps \<Longrightarrow> length (slots m ps) = length ps * n"
  by (induction ps) auto

lemma chunk_elements_pos [simp]: "0 < chunk_elements size_t"
  by (simp add: chunk_elements_def)

lemma q_chain_length:
  assumes "q_chain n q ps xs"
  shows "q_idx_front q + length xs + (n - q_idx_end q) = length ps * n"
  using assms length_slots [of n "q_chunks q" ps] by (simp add: q_chain_def)

lemma q_chain_distinct: "q_chain n q ps xs \<Longrightarrow> distinct ps"
  by (auto simp: q_chain_def dest: lseg_None_distinct)

section \<open>Push\<close>

lemma q_chain_store:
  assumes "q_chain n q ps xs" and "q_idx_end q < n"
  shows "\<exists>c s q'. get_chunk q (q_back q) = Inr c \<and> construct_slot (ch_data c) (q_idx_end q) t = Inr s \<and>
    set_chunk q (q_back q) (c\<lparr>ch_data := s\<rparr>) = Inr q' \<and>
    q_chain n (q'\<lparr>q_idx_end := Suc (q_idx_end q')\<rparr>) ps (xs @ [t])"
proof -
  let ?m = "q_chunks q" and ?e = "q_idx_end q" and ?f = "q_idx_front q"
  obtain bs l where ps: "ps = bs @ [l]"
    using assms(1) by (cases ps rule: rev_cases) (auto simp: q_chain_def)
  with assms(1) obtain c where c: "?m l = Some c" "length (ch_data c) = n"
    by (auto simp: q_chain_def)
  have l: "l \<notin> set bs" using q_chain_distinct [OF assms(1)] ps by simp
  have bk: "q_back q = Some l" using assms(1) ps by (simp add: q_chain_def)
  have flat: "slots ?m bs @ ch_data c = replicate ?f None @ map Some xs @ replicate (n - ?e) None"
    using assms(1) ps c by (simp add: q_chain_def)
  have len: "?f + length xs = length bs * n + ?e"
    using q_chain_length [OF assms(1)] assms(2) ps by simp
  have "slots ?m bs @ (ch_data c)[?e := Some t] = (slots ?m bs @ ch_data c)[length bs * n + ?e := Some t]"
    using length_slots [of n ?m bs] assms(1) ps by (simp add: list_update_append q_chain_def)
  also have "\<dots> = replicate ?f None @ map Some (xs @ [t]) @ replicate (n - Suc ?e) None"
  proof -
    have "replicate (n - ?e) None = None # replicate (n - Suc ?e) (None :: 'a option)"
      using assms(2) by (simp add: Suc_diff_Suc flip: replicate_Suc)
    then show ?thesis unfolding flat len [symmetric] by (simp add: list_update_append)
  qed
  finally have flat': "slots ?m bs @ (ch_data c)[?e := Some t] =
      replicate ?f None @ map Some (xs @ [t]) @ replicate (n - Suc ?e) None" .
  let ?q = "q\<lparr>q_chunks := ?m(l \<mapsto> c\<lparr>ch_data := (ch_data c)[?e := Some t]\<rparr>)\<rparr>"
  have lnk: "(links ?m)(l \<mapsto> ch_next c) = links ?m" using c by (auto simp: links_def)
  have "q_chain n (?q\<lparr>q_idx_end := Suc ?e\<rparr>) ps (xs @ [t])"
    using assms ps c l flat' lnk by (auto simp: q_chain_def fresh_ok_def)
  then show ?thesis using bk c assms(2) by (simp add: get_chunk_def set_chunk_def)
qed

lemma q_chain_extend:
  assumes "q_chain n q ps xs" and "q_idx_end q = n" and "n = chunk_elements size_t"
    and "new_chunk size_t q = (p, q')"
  shows "\<exists>c q''. get_chunk q' (q_back q') = Inr c \<and>
    set_chunk q' (q_back q') (c\<lparr>ch_next := Some p\<rparr>) = Inr q'' \<and>
    q_chain n (q''\<lparr>q_back := Some p, q_idx_end := 0\<rparr>) (ps @ [p]) xs"
proof -
  let ?m = "q_chunks q" and ?new = "\<lparr>ch_next = None, ch_data = replicate n (None :: 'a option)\<rparr>"
  obtain bs l where ps: "ps = bs @ [l]"
    using assms(1) by (cases ps rule: rev_cases) (auto simp: q_chain_def)
  with assms(1) obtain c where c: "?m l = Some c" "length (ch_data c) = n"
    by (auto simp: q_chain_def)
  have p: "p = q_fresh q" "q' = q\<lparr>q_chunks := ?m(p \<mapsto> ?new), q_fresh := Suc p\<rparr>"
    using assms(3,4) by (auto simp: new_chunk_def)
  have dom: "set ps \<subseteq> dom ?m" using assms(1) by (auto simp: q_chain_def sized_def)
  have pn: "p \<notin> set ps" using dom p(1) assms(1) by (auto simp: q_chain_def fresh_ok_def)
  have l: "l \<notin> set bs" "l \<noteq> p" using q_chain_distinct [OF assms(1)] ps pn by auto
  have bk: "q_back q' = Some l" using assms(1) ps p by (simp add: q_chain_def)
  let ?q = "q'\<lparr>q_chunks := (q_chunks q')(l \<mapsto> c\<lparr>ch_next := Some p\<rparr>)\<rparr>"
  have "lseg ((links ?m)(last ps \<mapsto> Some p, p \<mapsto> None)) (q_front q) (ps @ [p]) None"
    by (rule lseg_snoc) (use assms(1) pn in \<open>auto simp: q_chain_def\<close>)
  moreover have "(links ?m)(last ps \<mapsto> Some p, p \<mapsto> None) = links (q_chunks ?q)"
    using p ps l by (auto simp: fun_upd_twist)
  moreover have "slots (q_chunks ?q) (ps @ [p]) = slots ?m ps @ replicate n None"
    using p ps l pn c by simp
  moreover have "sized n (q_chunks ?q) (ps @ [p])"
    using assms(1) p ps l pn c by (auto simp: q_chain_def)
  moreover have "fresh_ok ?q" using assms(1) p dom ps by (auto simp: q_chain_def fresh_ok_def)
  ultimately have "q_chain n (?q\<lparr>q_back := Some p, q_idx_end := 0\<rparr>) (ps @ [p]) xs"
    using assms(1,2) p l(2) by (auto simp: q_chain_def fresh_ok_def)
  then show ?thesis using bk c p l by (simp add: get_chunk_def set_chunk_def)
qed

lemma q_first_chunk:
  assumes "fresh_ok q" and "q_idx_front q = 0" and "q_idx_end q = 0"
    and "new_chunk size_t q = (p, q')"
  shows "q_chain (chunk_elements size_t) (q'\<lparr>q_front := Some p, q_back := Some p\<rparr>) [p] []"
  using assms
  by (auto simp: q_chain_def new_chunk_def links_def fresh_ok_def less_Suc_eq split: if_splits)

text \<open>The part of \<open>push\<close> that makes room: a first chunk, a further one, or nothing.\<close>

lemma q_push_store:
  assumes "q_chain n q ps xs" and "n = chunk_elements size_t" and "q_back q \<noteq> None"
  shows "\<exists>q' ps'. q_push size_t q t = Inr q' \<and> q_chain n q' ps' (xs @ [t])"
proof (cases "q_idx_end q = n")
  case True
  obtain p q1 where new: "new_chunk size_t q = (p, q1)" by (cases "new_chunk size_t q")
  from q_chain_extend [OF assms(1) True assms(2) new] obtain c q2 where
    q2: "get_chunk q1 (q_back q1) = Inr c"
      "set_chunk q1 (q_back q1) (c\<lparr>ch_next := Some p\<rparr>) = Inr q2"
      "q_chain n (q2\<lparr>q_back := Some p, q_idx_end := 0\<rparr>) (ps @ [p]) xs" by blast
  have "0 < n" using assms(2) by simp
  with q_chain_store [OF q2(3), of t] q2(1,2) new True assms(2,3) show ?thesis
    by (force simp: q_push_def Let_def)
next
  case False
  then have "q_idx_end q < n" using assms(1) by (simp add: q_chain_def)
  with q_chain_store [OF assms(1), of t] False assms(2,3) show ?thesis
    by (force simp: q_push_def Let_def)
qed

lemma q_push_rep:
  assumes "q_rep size_t q xs"
  shows "\<exists>q'. q_push size_t q t = Inr q' \<and> q_rep size_t q' (xs @ [t])"
proof (cases "q_back q = None")
  case True
  with assms have e: "fresh_ok q" "q_idx_front q = 0" "q_idx_end q = 0" "xs = []"
    by (auto simp: q_rep_def q_chain_def)
  obtain p q1 where new: "new_chunk size_t q = (p, q1)" by (cases "new_chunk size_t q")
  let ?q = "q1\<lparr>q_front := Some p, q_back := Some p\<rparr>"
  have "q_chain (chunk_elements size_t) ?q [p] []" using e(1-3) new by (rule q_first_chunk)
  moreover have "q_push size_t q t = q_push size_t ?q t"
    using True new by (simp add: q_push_def)
  ultimately show ?thesis
    using q_push_store [of _ ?q "[p]" "[]" size_t t] e(4) by (auto simp: q_rep_def)
next
  case False
  with assms obtain ps where "q_chain (chunk_elements size_t) q ps xs" by (auto simp: q_rep_def)
  from q_push_store [OF this refl False, of t] show ?thesis by (auto simp: q_rep_def)
qed

section \<open>Pop, empty and size\<close>

lemma q_chain_empty:
  assumes "q_chain n q ps xs"
  shows "q_empty q \<longleftrightarrow> xs = []"
proof -
  note len = q_chain_length [OF assms]
  obtain h tl where ps: "ps = h # tl" using assms by (cases ps) (auto simp: q_chain_def)
  have front: "q_front q = Some h" and bk: "q_back q = Some (last ps)" and
    idx: "q_idx_front q < n" "q_idx_end q \<le> n"
    using assms ps by (auto simp: q_chain_def)
  have same: "q_front q = q_back q \<longleftrightarrow> tl = []"
    using front bk ps q_chain_distinct [OF assms] by (cases tl rule: rev_cases) auto
  show ?thesis
  proof (cases "tl = []")
    case True
    with len idx ps have "q_idx_front q + length xs = q_idx_end q" by simp
    with same True front show ?thesis by (auto simp: q_empty_def)
  next
    case False
    then obtain k where "length tl = Suc k" by (cases tl) auto
    with len ps have "q_idx_front q + length xs + (n - q_idx_end q) = n + (n + k * n)" by simp
    with idx have "xs \<noteq> []" by (cases xs) auto
    with same False front show ?thesis by (simp add: q_empty_def)
  qed
qed

lemma q_rep_empty: "q_rep size_t q xs \<Longrightarrow> q_empty q \<longleftrightarrow> xs = []"
  by (auto simp: q_rep_def q_chain_empty) (simp_all add: q_empty_def)

lemma q_chain_destroy:
  assumes "q_chain n q ps (x # xs)"
  shows "\<exists>h tl c q'. ps = h # tl \<and> q_front q = Some h \<and> q_chunks q h = Some c \<and>
    length (ch_data c) = n \<and> h \<notin> set tl \<and>
    q' = q\<lparr>q_chunks := (q_chunks q)(h \<mapsto> c\<lparr>ch_data := (ch_data c)[q_idx_front q := None]\<rparr>)\<rparr> \<and>
    destroy_elem q (q_front q) (q_idx_front q) = Inr q' \<and>
    slots (q_chunks q') ps = replicate (Suc (q_idx_front q)) None @ map Some xs @
      replicate (n - q_idx_end q) None"
proof -
  let ?m = "q_chunks q" and ?f = "q_idx_front q"
  obtain h tl where ps: "ps = h # tl" using assms by (cases ps) (auto simp: q_chain_def)
  with assms obtain c where c: "?m h = Some c" "length (ch_data c) = n" and
    front: "q_front q = Some h" and f: "?f < n"
    by (auto simp: q_chain_def)
  have h: "h \<notin> set tl" using q_chain_distinct [OF assms] ps by simp
  have flat: "ch_data c @ slots ?m tl = replicate ?f None @ (Some x # map Some xs) @ replicate (n - q_idx_end q) None"
    using assms ps c by (simp add: q_chain_def)
  have "(ch_data c @ slots ?m tl) ! ?f = Some x" unfolding flat by (simp add: nth_append)
  then have x: "ch_data c ! ?f = Some x" using f c(2) by (simp add: nth_append)
  have "(ch_data c)[?f := None] @ slots ?m tl = (ch_data c @ slots ?m tl)[?f := None]"
    using f c(2) by simp
  also have "\<dots> = replicate (Suc ?f) None @ map Some xs @ replicate (n - q_idx_end q) None"
    unfolding flat by (simp add: list_update_append replicate_append_same flip: replicate_Suc)
  finally show ?thesis
    using ps front c f h x by (simp add: destroy_elem_def get_chunk_def set_chunk_def)
qed

lemma q_chain_pop:
  assumes "q_chain n q ps (x # xs)" and "n = chunk_elements size_t" and "\<not> q_at_end size_t q"
  shows "\<exists>q' ps'. q_pop b size_t q = Inr q' \<and> q_chain n q' ps' xs \<and> q_idx_end q' = q_idx_end q \<and>
    q_idx_front q' = (if Suc (q_idx_front q) = n then 0 else Suc (q_idx_front q)) \<and>
    dom (q_chunks q') = dom (q_chunks q) - (if Suc (q_idx_front q) = n then set_option (q_front q) else {})"
proof -
  let ?f = "q_idx_front q" and ?m = "q_chunks q"
  from q_chain_destroy [OF assms(1)] obtain h tl c q1 where
    ps: "ps = h # tl" "q_front q = Some h" "?m h = Some c" "length (ch_data c) = n" "h \<notin> set tl" and
    q1: "q1 = q\<lparr>q_chunks := ?m(h \<mapsto> c\<lparr>ch_data := (ch_data c)[?f := None]\<rparr>)\<rparr>" and
    destroy: "destroy_elem q (q_front q) ?f = Inr q1" and
    flat: "slots (q_chunks q1) ps = replicate (Suc ?f) None @ map Some xs @
      replicate (n - q_idx_end q) None" by blast
  have ne: "\<not> q_empty q" using q_chain_empty [OF assms(1)] by simp
  have lnk: "links (?m(h \<mapsto> c\<lparr>ch_data := (ch_data c)[?f := None]\<rparr>)) = links ?m"
    using ps(3) by (auto simp: links_def)
  show ?thesis
  proof (cases "Suc ?f = n")
    case False
    then have "q_chain n (q1\<lparr>q_idx_front := Suc ?f\<rparr>) ps xs"
      using assms(1) q1 flat lnk ps by (auto simp: q_chain_def fresh_ok_def)
    moreover have "dom (q_chunks q1) = dom ?m" using q1 ps(3) by auto
    ultimately show ?thesis using False ne destroy q1 assms(2) by (auto simp: q_pop_def simp del: fun_upd_apply)
  next
    case True
    have "tl \<noteq> []"
    proof
      assume "tl = []"
      with q_chain_length [OF assms(1)] ps(1) have "Suc ?f + length xs + (n - q_idx_end q) = n" by simp
      with True have "n - q_idx_end q = 0" by linarith
      then have "q_idx_end q = n" using assms(1) by (auto simp: q_chain_def)
      moreover have "q_front q = q_back q" using assms(1) ps \<open>tl = []\<close> by (simp add: q_chain_def)
      ultimately show False using True assms(2,3) by (simp add: q_at_end_def)
    qed
    have "(ch_data c)[?f := None] @ slots ?m tl = replicate n None @ map Some xs @
        replicate (n - q_idx_end q) None"
      using flat q1 ps True by simp
    then have rest: "slots ?m tl = map Some xs @ replicate (n - q_idx_end q) None"
      using ps(4) by (simp add: append_eq_append_conv)
    obtain r where r: "links ?m h = Some r" "lseg (links ?m) r tl None" "r = ch_next c"
      using assms(1) ps by (auto simp: q_chain_def links_def)
    let ?q = "q\<lparr>q_chunks := ?m(h := None), q_front := ch_next c, q_idx_front := 0\<rparr>"
    have "q_chain n ?q tl xs"
      using assms(1) ps r rest \<open>tl \<noteq> []\<close> True by (auto simp: q_chain_def fresh_ok_def)
    moreover have "q_pop b size_t q = Inr ?q"
      using True ne destroy q1 ps assms(2) by (simp add: q_pop_def get_chunk_def free_chunk_def)
    ultimately show ?thesis using True ps(2) by auto
  qed
qed

lemma q_pop_rep:
  assumes "q_rep size_t q (x # xs)" and "\<not> q_at_end size_t q"
  shows "\<exists>q'. q_pop b size_t q = Inr q' \<and> q_rep size_t q' xs \<and>
    dom (q_chunks q') = dom (q_chunks q) -
      (if Suc (q_idx_front q) = chunk_elements size_t then set_option (q_front q) else {})"
  using assms q_chain_pop [of "chunk_elements size_t" q _ x xs size_t b] by (fastforce simp: q_rep_def)

lemma q_size_rep: "q_rep size_t q xs \<Longrightarrow> q_size size_t q = Some (Inr (length xs))"
proof (unfold q_rep_def, elim disjE exE conjE)
  assume "q_front q = None" "xs = []"
  then show ?thesis by (simp add: q_size_def count_nodes.simps)
next
  fix ps assume chain: "q_chain (chunk_elements size_t) q ps xs"
  then have "count_nodes (links (q_chunks q)) (q_front q) 0 = Some (Inr (length ps))"
    using count_nodes_lseg [of "links (q_chunks q)" "q_front q" ps 0] by (simp add: q_chain_def)
  moreover obtain k where "length ps = Suc k" using chain by (cases ps) (auto simp: q_chain_def)
  moreover have "q_idx_front q < chunk_elements size_t" "q_idx_end q \<le> chunk_elements size_t"
    using chain by (simp_all add: q_chain_def)
  ultimately show ?thesis using q_chain_length [OF chain] by (simp add: q_size_def links_def)
qed

lemma q_new_rep: "q_rep size_t q_new []"
  by (simp add: q_rep_def q_new_def fresh_ok_def)

definition q_count :: "nat \<Rightarrow> 'a queue \<Rightarrow> nat" where
  "q_count size_t q = (case q_size size_t q of Some (Inr k) \<Rightarrow> k | _ \<Rightarrow> 0)"

interpretation chunks: fifo "q_rep size_t" "\<lambda>q ys. True" "q_push size_t" "\<lambda>q. \<not> q_at_end size_t q"
    "q_pop b size_t" "q_count size_t" q_empty
  for b :: build and size_t :: nat
  by unfold_locales (auto simp: q_push_rep q_rep_empty q_count_def q_size_rep dest: q_pop_rep)

text \<open>Pushing any sequence onto a queue appends it: no chunk boundary loses or reorders an element,
  whatever the element size.\<close>

theorem q_push_all:
  assumes "q_rep size_t q xs"
  shows "\<exists>q'. rfold (\<lambda>t q. q_push size_t q t) ys q = Inr q' \<and> q_rep size_t q' (xs @ ys) \<and>
    q_size size_t q' = Some (Inr (length xs + length ys))"
  using chunks.push_all_rep [OF assms TrueI, of ys] q_size_rep by fastforce

theorem q_push_all_witness:
  "\<exists>q'. q_of_list 4 [1, 2, 3 :: nat] = Inr q' \<and> q_rep 4 q' [1, 2, 3] \<and> q_size 4 q' = Some (Inr 3)"
  using q_push_all [OF q_new_rep, of 4 "[1, 2, 3 :: nat]"] by (simp add: q_of_list_def numeral_3_eq_3)

text \<open>C11. \<open>pop\<close> removes the oldest element, unless that element is in the very last slot of the chain.  When it
  was the last one of the first chunk, that chunk is given back to the allocator, and no other one is; otherwise none is.\<close>

theorem q_pop_removes_oldest:
  assumes "q_rep size_t q (x # xs)" and "\<not> q_at_end size_t q"
  shows "\<exists>q'. q_pop b size_t q = Inr q' \<and> q_rep size_t q' xs \<and> q_size size_t q' = Some (Inr (length xs)) \<and>
    dom (q_chunks q') = dom (q_chunks q) -
      (if Suc (q_idx_front q) = chunk_elements size_t then set_option (q_front q) else {})"
  using q_pop_rep [OF assms, of b] q_size_rep by blast

theorem q_pop_removes_oldest_witness:
  "\<exists>q'. rbind (q_of_list 4 [1, 2 :: nat]) (q_pop Debug 4) = Inr q' \<and> q_size 4 q' = Some (Inr 1)"
proof -
  from chunks.push_all_rep [OF q_new_rep TrueI, of 4 "[1, 2 :: nat]"] obtain q where
    q: "q_of_list 4 [1, 2 :: nat] = Inr q" "q_rep 4 q [1, 2]" by (auto simp: q_of_list_def)
  have "\<not> q_at_end 4 q" using q(1)
    by (auto simp: q_of_list_def q_push_def q_new_def new_chunk_def get_chunk_def set_chunk_def
        chunk_elements_def construct_slot_def q_at_end_def write_at_def Let_def split: if_splits)
  from q_pop_removes_oldest [OF q(2) this, of Debug] q(1) show ?thesis by auto
qed

section \<open>Programs over a queue\<close>

text \<open>The machine of a queue with chunks of \<open>n\<close> elements: how many elements have been pushed, and those it holds.
  The only element may not be removed when the pushes have just filled a chunk.\<close>

definition q_spec_push :: "nat \<times> 'a list \<Rightarrow> 'a \<Rightarrow> (nat \<times> 'a list) option" where
  "q_spec_push s t = Some (Suc (fst s), snd s @ [t])"

definition q_spec_pop :: "nat \<Rightarrow> nat \<times> 'a list \<Rightarrow> (nat \<times> 'a list) option" where
  "q_spec_pop n s = (case snd s of [] \<Rightarrow> None
     | x # xs \<Rightarrow> (if xs = [] \<and> n dvd fst s then None else Some (fst s, xs)))"

definition q_runs :: "nat \<Rightarrow> nat \<times> 'a list \<Rightarrow> 'a queue \<Rightarrow> bool" where
  "q_runs size_t s q \<longleftrightarrow> q_rep size_t q (snd s) \<and> length (snd s) \<le> fst s \<and>
     q_idx_front q = (fst s - length (snd s)) mod chunk_elements size_t \<and>
     q_idx_end q = (if fst s = 0 then 0 else Suc ((fst s - 1) mod chunk_elements size_t))"

lemma q_push_end:
  assumes "q_push size_t q t = Inr q'" and "q_back q = None \<Longrightarrow> q_idx_end q = 0"
  shows "q_idx_end q' = (if q_idx_end q = chunk_elements size_t then 1 else Suc (q_idx_end q))"
    and "q_idx_front q' = q_idx_front q"
  using assms
  by (auto simp: q_push_def Let_def new_chunk_def get_chunk_def set_chunk_def result_simps chunk_elements_def
      split: if_splits option.splits)

lemma mod_pred_full: "0 < n \<Longrightarrow> 0 < p \<Longrightarrow> Suc ((p - 1) mod n) = n \<longleftrightarrow> n dvd p" for n p :: nat
  using mod_Suc [of "p - 1" n] by (auto simp: dvd_eq_mod_eq_0 split: if_splits)

lemma q_runs_chain:
  assumes "q_runs size_t (p, x # xs) q"
  obtains ps where "q_chain (chunk_elements size_t) q ps (x # xs)"
  using assms by (auto simp: q_runs_def q_rep_def)

text \<open>The queue stands at the end of its chain exactly where the machine stops.\<close>

lemma q_runs_at_end:
  assumes "q_runs size_t (p, x # xs) q"
  shows "q_at_end size_t q \<longleftrightarrow> xs = [] \<and> chunk_elements size_t dvd p"
proof -
  let ?n = "chunk_elements size_t"
  from assms obtain ps where chain: "q_chain ?n q ps (x # xs)" by (rule q_runs_chain)
  have p: "0 < p" "q_idx_front q = (p - Suc (length xs)) mod ?n" "q_idx_end q = Suc ((p - 1) mod ?n)"
    using assms by (auto simp: q_runs_def)
  note len = q_chain_length [OF chain]
  have full: "q_idx_end q = ?n \<longleftrightarrow> ?n dvd p" using mod_pred_full [OF chunk_elements_pos p(1)] p(3) by simp
  show ?thesis
  proof
    assume e: "q_at_end size_t q"
    then have "q_front q = q_back q" "Suc (q_idx_front q) = ?n" "q_idx_end q = ?n" by (simp_all add: q_at_end_def)
    moreover from this(1) have "length ps = 1"
      using chain q_chain_distinct [OF chain] by (cases ps; cases "tl ps" rule: rev_cases) (auto simp: q_chain_def)
    ultimately show "xs = [] \<and> ?n dvd p" using len full by (cases xs) auto
  next
    assume a: "xs = [] \<and> ?n dvd p"
    then have e: "q_idx_end q = ?n" using full by simp
    have f: "Suc (q_idx_front q) = ?n" using e p(2,3) a by simp
    then have "length ps * ?n = ?n" using len e a by simp
    then have "length ps = 1" using chunk_elements_pos [of size_t] by (auto simp del: chunk_elements_pos)
    then have "q_front q = q_back q" using chain by (cases ps) (auto simp: q_chain_def)
    then show "q_at_end size_t q" using e f by (simp add: q_at_end_def)
  qed
qed

lemma q_runs_push:
  assumes "q_runs size_t s q"
  shows "\<exists>q'. q_push size_t q t = Inr q' \<and> q_runs size_t (Suc (fst s), snd s @ [t]) q'"
proof -
  from q_push_rep [of size_t q "snd s" t] assms obtain q' where
    q': "q_push size_t q t = Inr q'" "q_rep size_t q' (snd s @ [t])" by (auto simp: q_runs_def)
  have "q_back q = None \<Longrightarrow> q_idx_end q = 0" using assms by (auto simp: q_runs_def q_rep_def q_chain_def)
  note idx = q_push_end [OF q'(1) this]
  have "q_idx_end q' = Suc (fst s mod chunk_elements size_t)"
    using idx(1) assms mod_Suc [of "fst s - 1" "chunk_elements size_t"] chunk_elements_pos [of size_t]
    by (auto simp: q_runs_def split: if_splits simp del: chunk_elements_pos)
  then have "q_runs size_t (Suc (fst s), snd s @ [t]) q'"
    using q'(2) idx(2) assms by (simp add: q_runs_def)
  with q'(1) show ?thesis by blast
qed

lemma q_runs_pop:
  assumes "q_runs size_t (p, x # xs) q" and "\<not> (xs = [] \<and> chunk_elements size_t dvd p)"
  shows "\<exists>q'. q_pop b size_t q = Inr q' \<and> q_runs size_t (p, xs) q'"
proof -
  let ?n = "chunk_elements size_t"
  from assms(1) obtain ps where chain: "q_chain ?n q ps (x # xs)" by (rule q_runs_chain)
  have "\<not> q_at_end size_t q" using q_runs_at_end [OF assms(1)] assms(2) by simp
  from q_chain_pop [OF chain refl this, of b] obtain q' ps' where
    q': "q_pop b size_t q = Inr q'" "q_chain ?n q' ps' xs" "q_idx_end q' = q_idx_end q"
      "q_idx_front q' = (if Suc (q_idx_front q) = ?n then 0 else Suc (q_idx_front q))" by blast
  have p: "Suc (length xs) \<le> p" "q_idx_front q = (p - Suc (length xs)) mod ?n"
    using assms(1) by (auto simp: q_runs_def)
  have "p - length xs = Suc (p - Suc (length xs))" using p(1) by simp
  then have "q_idx_front q' = (p - length xs) mod ?n" using q'(4) p(2) mod_Suc [of "p - Suc (length xs)" ?n] by simp
  then have "q_runs size_t (p, xs) q'"
    using q'(2,3) assms(1) p(1) by (auto simp: q_runs_def q_rep_def)
  with q'(1) show ?thesis by blast
qed

interpretation queue_runs: fifo_refinement "q_runs size_t" q_spec_push "q_spec_pop (chunk_elements size_t)"
    "q_push size_t" "q_pop b size_t" for size_t :: nat and b :: build
proof
  fix s s' :: "nat \<times> 'a list" and q y
  assume R: "q_runs size_t s q"
  show "\<exists>q'. q_push size_t q y = Inr q' \<and> q_runs size_t s' q'" if "q_spec_push s y = Some s'"
    using q_runs_push [OF R, of y] that by (simp add: q_spec_push_def)
  show "\<exists>q'. q_pop b size_t q = Inr q' \<and> q_runs size_t s' q'" if sp: "q_spec_pop (chunk_elements size_t) s = Some s'"
  proof -
    obtain p x xs where s: "s = (p, x # xs)" using sp by (cases s; cases "snd s") (auto simp: q_spec_pop_def)
    with sp have "\<not> (xs = [] \<and> chunk_elements size_t dvd p)" "s' = (p, xs)"
      by (auto simp: q_spec_pop_def split: if_splits)
    with q_runs_pop [of size_t p x xs q b] R s show ?thesis by simp
  qed
qed

lemma q_new_runs: "q_runs size_t (0, []) q_new"
  using q_new_rep by (simp add: q_runs_def q_new_def)

section \<open>The last slot of the chain\<close>

lemma q_pop_at_end:
  assumes "q_chain n q ps [x]" and "n = chunk_elements size_t" and "q_at_end size_t q"
  shows "\<exists>q'. q_pop b size_t q = Inr q' \<and> q_front q' = None \<and> q_push size_t q' y = Inl Undefined"
proof -
  let ?f = "q_idx_front q" and ?m = "q_chunks q"
  have idx: "Suc ?f = n" "q_idx_end q = n" using assms(2,3) by (simp_all add: q_at_end_def)
  from q_chain_destroy [OF assms(1)] obtain h tl c q1 where
    ps: "ps = h # tl" "q_front q = Some h" "?m h = Some c" "h \<notin> set tl" and
    q1: "q1 = q\<lparr>q_chunks := ?m(h \<mapsto> c\<lparr>ch_data := (ch_data c)[?f := None]\<rparr>)\<rparr>" and
    destroy: "destroy_elem q (q_front q) ?f = Inr q1" by blast
  have bk: "q_back q = Some h" using assms(3) ps by (simp add: q_at_end_def)
  have "tl = []" using bk ps assms(1) by (cases tl rule: rev_cases) (auto simp: q_chain_def)
  then have nxt: "ch_next c = None" using assms(1) ps by (auto simp: q_chain_def links_def)
  let ?q = "q\<lparr>q_chunks := ?m(h := None), q_front := None, q_idx_front := 0\<rparr>"
  have ne: "\<not> q_empty q" using q_chain_empty [OF assms(1)] by simp
  have "q_pop b size_t q = Inr ?q"
    using idx ne destroy q1 ps nxt assms(2) by (simp add: q_pop_def get_chunk_def free_chunk_def)
  moreover have "h \<noteq> q_fresh q" using assms(1) ps by (auto simp: q_chain_def fresh_ok_def)
  then have "q_push size_t ?q y = Inl Undefined"
    using bk idx assms(2) by (simp add: q_push_def new_chunk_def get_chunk_def)
  ultimately show ?thesis by auto
qed

lemma q_push_indices:
  assumes "q_push size_t q t = Inr q'"
  shows "0 < q_idx_end q'" and "q_idx_front q' = q_idx_front q"
  using assms
  by (auto simp: q_push_def Let_def new_chunk_def get_chunk_def set_chunk_def result_simps
      split: if_splits option.splits)

lemma q_push_all_indices:
  "rfold (\<lambda>t q. q_push size_t q t) ys q = Inr q' \<Longrightarrow>
    q_idx_front q' = q_idx_front q \<and> (ys \<noteq> [] \<longrightarrow> 0 < q_idx_end q')"
proof (induction ys arbitrary: q)
  case Nil
  then show ?case by simp
next
  case (Cons y ys)
  then obtain q1 where q1: "q_push size_t q y = Inr q1" "rfold (\<lambda>t q. q_push size_t q t) ys q1 = Inr q'"
    by (auto simp: result_simps)
  with Cons.IH [OF q1(2)] q_push_indices [OF q1(1)] show ?case by (cases ys) auto
qed

lemma q_drain:
  assumes "q_chain n q ps (x # xs)" and "n = chunk_elements size_t" and "q_idx_end q = n"
    and "q_idx_front q + Suc (length xs) = n"
  shows "\<exists>q'. rfold (\<lambda>_. q_pop b size_t) (x # xs) q = Inr q' \<and> q_front q' = None \<and>
    q_push size_t q' y = Inl Undefined"
  using assms
proof (induction xs arbitrary: q ps x)
  case Nil
  then have "Suc (q_idx_front q) = n" by simp
  moreover have "length ps * n = n" using q_chain_length [OF Nil.prems(1)] Nil.prems(2-4) by simp
  then have "length ps = 1" using Nil.prems(2) chunk_elements_pos [of size_t] by (auto simp del: chunk_elements_pos)
  then have "q_front q = q_back q" using Nil.prems(1) by (cases ps) (auto simp: q_chain_def)
  ultimately have "q_at_end size_t q" using Nil.prems(2,3) by (simp add: q_at_end_def)
  from q_pop_at_end [OF Nil.prems(1,2) this, of b y] show ?case by auto
next
  case (Cons z zs)
  then have "Suc (q_idx_front q) \<noteq> n" by simp
  moreover from this have "\<not> q_at_end size_t q" using Cons.prems(2) by (simp add: q_at_end_def)
  ultimately obtain q1 ps1 where
    q1: "q_pop b size_t q = Inr q1" "q_chain n q1 ps1 (z # zs)" "q_idx_end q1 = n"
      "q_idx_front q1 + Suc (length zs) = n"
    using q_chain_pop [OF Cons.prems(1,2), of b] Cons.prems(3,4) by auto
  from Cons.IH [OF q1(2) Cons.prems(2) q1(3,4)] q1(1) show ?case by simp
qed

text \<open>C10. Any program that pushes elements and pops while there are some gets the sequence of a queue, with its
  \<open>size\<close> and \<open>empty\<close>, as long as it does not remove the only element when its pushes have just filled a
  chunk.  That bound is exact: the queue is empty after such a \<open>pop\<close>, but the next \<open>push\<close> writes to the
  chunk that was freed.\<close>

theorem q_run_refines:
  assumes "spec_run q_spec_push (q_spec_pop (chunk_elements size_t)) ops (0, []) = Some (p, xs)"
  shows "\<exists>q. fifo_run (q_push size_t) (q_pop b size_t) ops q_new = Inr q \<and> q_rep size_t q xs \<and>
    q_size size_t q = Some (Inr (length xs)) \<and> (q_empty q \<longleftrightarrow> xs = []) \<and>
    (\<forall>x y. xs = [x] \<and> chunk_elements size_t dvd p \<longrightarrow>
      (\<exists>q'. q_pop b size_t q = Inr q' \<and> q_empty q' \<and> q_push size_t q' y = Inl Undefined))"
proof -
  from queue_runs.run_refines [OF q_new_runs assms, of b] obtain q where
    q: "fifo_run (q_push size_t) (q_pop b size_t) ops q_new = Inr q" "q_runs size_t (p, xs) q" by blast
  have rep: "q_rep size_t q xs" using q(2) by (simp add: q_runs_def)
  have "\<exists>q'. q_pop b size_t q = Inr q' \<and> q_empty q' \<and> q_push size_t q' y = Inl Undefined"
    if e: "xs = [x]" "chunk_elements size_t dvd p" for x y
  proof -
    have r: "q_runs size_t (p, x # []) q" using q(2) e(1) by simp
    then obtain ps where chain: "q_chain (chunk_elements size_t) q ps [x]" by (rule q_runs_chain)
    have "q_at_end size_t q" using q_runs_at_end [OF r] e(2) by simp
    from q_pop_at_end [OF chain refl this, of b y] show ?thesis by (auto simp: q_empty_def)
  qed
  then show ?thesis using q(1) rep q_size_rep [OF rep] q_rep_empty [OF rep] by blast
qed

theorem q_run_refines_witness:
  "\<exists>q. fifo_run (q_push 4) (q_pop Debug 4) [Push 1, Push 2, Pop, Push (3 :: nat)] q_new = Inr q \<and> q_rep 4 q [2, 3] \<and>
    q_size 4 q = Some (Inr 2)"
proof -
  have "spec_run q_spec_push (q_spec_pop (chunk_elements 4)) [Push 1, Push 2, Pop, Push (3 :: nat)] (0, []) = Some (3, [2, 3])"
    by (simp add: q_spec_push_def q_spec_pop_def)
  from q_run_refines [OF this, of Debug] show ?thesis by auto
qed

text \<open>A queue that is filled with exactly one chunk of elements and then emptied must not be used
  again: \<open>pop\<close> frees the chunk but leaves \<open>m_back\<close> pointing to it, and the next \<open>push\<close> writes
  through that pointer.\<close>

theorem q_refill_use_after_free:
  assumes "length xs = chunk_elements size_t"
  shows "\<exists>q q'. q_of_list size_t xs = Inr q \<and> q_rep size_t q xs \<and>
    rfold (\<lambda>_. q_pop b size_t) xs q = Inr q' \<and> q_empty q' \<and> q_push size_t q' y = Inl Undefined"
proof -
  let ?n = "chunk_elements size_t"
  obtain z zs where xs: "xs = z # zs" using assms by (cases xs) (auto simp: chunk_elements_def)
  from chunks.push_all_rep [OF q_new_rep TrueI, of size_t xs] obtain q where
    q: "q_of_list size_t xs = Inr q" "q_rep size_t q xs" by (auto simp: q_of_list_def)
  then obtain ps where chain: "q_chain ?n q ps xs" using xs by (auto simp: q_rep_def)
  have idx: "q_idx_front q = 0" "0 < q_idx_end q"
    using q_push_all_indices [of size_t xs q_new q] q(1) xs by (auto simp: q_of_list_def q_new_def)
  have le: "q_idx_end q \<le> ?n" using chain by (simp add: q_chain_def)
  have eq: "?n + (?n - q_idx_end q) = length ps * ?n"
    using q_chain_length [OF chain] assms idx(1) by simp
  have "length ps * ?n < 2 * ?n" using eq idx(2) le by linarith
  then have "length ps < 2" by (simp only: mult_less_cancel2)
  with eq have "q_idx_end q = ?n" using le chain by (cases ps) (auto simp: q_chain_def)
  with q_drain [of ?n q ps z zs size_t b y] chain xs idx(1) assms obtain q' where
    "rfold (\<lambda>_. q_pop b size_t) xs q = Inr q'" "q_front q' = None" "q_push size_t q' y = Inl Undefined"
    by auto
  then show ?thesis using q by (auto simp: q_empty_def)
qed

theorem q_refill_use_after_free_witness:
  "\<exists>q q'. q_of_list 4 (replicate 257 (0 :: nat)) = Inr q \<and>
    rfold (\<lambda>_. q_pop Debug 4) (replicate 257 (0 :: nat)) q = Inr q' \<and> q_push 4 q' 1 = Inl Undefined"
proof -
  have "length (replicate 257 (0 :: nat)) = chunk_elements 4" by (simp add: chunk_elements_def)
  from q_refill_use_after_free [OF this, of Debug 1] show ?thesis by blast
qed

text \<open>The index type is only well formed for element types of at most four bytes: for larger ones
  both \<open>return\<close> statements of \<open>chunk_index_type_impl\<close> take part in the deduction and disagree.\<close>

theorem chunk_index_type_sizes:
  assumes "0 < size_t"
  shows "chunk_index_type size_t = (if size_t \<le> 4 then Some Uint16 else None)"
proof (cases "size_t \<le> 4")
  case True
  then have "256 \<le> 1024 div size_t" using div_le_mono2 [of size_t 4 1024] assms by simp
  moreover have "chunk_elements size_t \<le> 65535"
    unfolding chunk_elements_def using div_le_dividend [of 1024 size_t] by linarith
  ultimately show ?thesis using True
    by (simp add: chunk_index_type_def chunk_index_returns_def chunk_elements_def)
next
  case False
  then have "1024 div size_t \<le> 204" using div_le_mono2 [of 5 size_t 1024] by simp
  then show ?thesis using False
    by (simp add: chunk_index_type_def chunk_index_returns_def chunk_elements_def)
qed

theorem chunk_index_type_sizes_witness: "chunk_index_type 8 = None"
  using chunk_index_type_sizes [of 8] by simp

section \<open>Destruction\<close>

lemma destroy_range_step:
  assumes "q_chunks q a = Some c" and "i < length (ch_data c)" and "ch_data c ! i = Some v"
  shows "destroy_elem q (Some a) i =
    Inr (q\<lparr>q_chunks := (q_chunks q)(a \<mapsto> c\<lparr>ch_data := (ch_data c)[i := None]\<rparr>)\<rparr>)"
  using assms by (simp add: destroy_elem_def get_chunk_def set_chunk_def)

text \<open>Destroying the slots from \<open>i\<close> up to \<open>j\<close> of a chunk that holds objects exactly there.\<close>

lemma destroy_range_ok:
  assumes "q_chunks q a = Some c"
    and "ch_data c = replicate i None @ map Some vs @ replicate k None"
  shows "destroy_range (Some a) i (i + length vs) q =
    Inr (q\<lparr>q_chunks := (q_chunks q)(a \<mapsto> c\<lparr>ch_data := replicate (i + length vs + k) None\<rparr>)\<rparr>)"
  using assms
proof (induction vs arbitrary: i q c)
  case Nil
  then have "c\<lparr>ch_data := replicate (i + k) None\<rparr> = c" by (simp add: replicate_add)
  with Nil.prems(1) have "(q_chunks q)(a \<mapsto> c\<lparr>ch_data := replicate (i + k) None\<rparr>) = q_chunks q"
    by (auto simp: fun_upd_idem)
  then show ?case by (simp add: destroy_range_def)
next
  case (Cons v vs)
  let ?c = "c\<lparr>ch_data := replicate (Suc i) None @ map Some vs @ replicate k None\<rparr>"
  let ?q = "q\<lparr>q_chunks := (q_chunks q)(a \<mapsto> ?c)\<rparr>"
  have "(ch_data c)[i := None] = replicate (Suc i) None @ map Some vs @ replicate k None"
    by (simp add: Cons.prems(2) list_update_append replicate_append_same flip: replicate_Suc)
  then have step: "destroy_elem q (Some a) i = Inr ?q"
    using destroy_range_step [OF Cons.prems(1), of i v] Cons.prems(2) by (simp add: nth_append)
  have "destroy_range (Some a) (Suc i) (Suc i + length vs) ?q =
      Inr (?q\<lparr>q_chunks := (q_chunks ?q)(a \<mapsto> ?c\<lparr>ch_data := replicate (Suc i + length vs + k) None\<rparr>)\<rparr>)"
    by (rule Cons.IH) simp_all
  moreover have "destroy_range (Some a) i (i + length (v # vs)) q =
      rbind (destroy_elem q (Some a) i) (destroy_range (Some a) (Suc i) (Suc i + length vs))"
  proof -
    have "[i..<i + length (v # vs)] = i # [Suc i..<Suc i + length vs]"
      by (simp add: upt_conv_Cons del: upt_Suc)
    then show ?thesis by (simp add: destroy_range_def [abs_def] del: upt_Suc)
  qed
  moreover have "?q\<lparr>q_chunks := (q_chunks ?q)(a \<mapsto> ?c\<lparr>ch_data := X\<rparr>)\<rparr> =
      q\<lparr>q_chunks := (q_chunks q)(a \<mapsto> c\<lparr>ch_data := X\<rparr>)\<rparr>" for X
    by simp
  moreover have "i + length (v # vs) + k = Suc i + length vs + k"
    by simp
  ultimately show ?case using step by (simp only: rbind.simps)
qed

lemma free_chain_ok:
  assumes "lseg (links (q_chunks q)) p ps None"
  shows "free_chain p q = Some (Inr (q\<lparr>q_chunks := q_chunks q |` (- set ps)\<rparr>))"
  using assms
proof (induction ps arbitrary: p q)
  case Nil
  then show ?case by (simp add: free_chain.simps restrict_map_def)
next
  case (Cons a ps)
  then obtain c where p: "p = Some a" and c: "q_chunks q a = Some c"
    and rest: "lseg (links (q_chunks q)) (ch_next c) ps None" by (auto simp: links_def)
  have "a \<notin> set ps" using lseg_None_distinct [OF Cons.prems] by simp
  let ?q = "q\<lparr>q_chunks := (q_chunks q)(a := None)\<rparr>"
  have "lseg (links (q_chunks ?q)) (ch_next c) ps None" using rest \<open>a \<notin> set ps\<close> by simp
  then have "free_chain (ch_next c) ?q = Some (Inr (?q\<lparr>q_chunks := q_chunks ?q |` (- set ps)\<rparr>))"
    by (rule Cons.IH)
  moreover have "?q\<lparr>q_chunks := q_chunks ?q |` (- set ps)\<rparr> = q\<lparr>q_chunks := q_chunks q |` (- set (a # ps))\<rparr>"
    by (auto simp: restrict_map_def fun_eq_iff)
  ultimately show ?case using p c
    by (simp add: free_chain.simps [of "Some a"] get_chunk_def free_chunk_def)
qed

text \<open>A step of the destructor that only changes the objects in the chunks, not the chain.\<close>

definition same_chain :: "'a queue \<Rightarrow> 'a queue \<Rightarrow> bool" where
  "same_chain q q' \<longleftrightarrow> (\<exists>m. q' = q\<lparr>q_chunks := m\<rparr> \<and> links m = links (q_chunks q))"

lemma same_chain_refl: "same_chain q q"
  by (auto simp: same_chain_def intro!: exI [of _ "q_chunks q"])

lemma same_chain_trans: "same_chain q q1 \<Longrightarrow> same_chain q1 q2 \<Longrightarrow> same_chain q q2"
  by (auto simp: same_chain_def)

lemma same_chain_fields:
  assumes "same_chain q q'"
  shows "q_front q' = q_front q" and "q_back q' = q_back q" and "q_idx_front q' = q_idx_front q"
    and "q_idx_end q' = q_idx_end q" and "links (q_chunks q') = links (q_chunks q)"
  using assms by (auto simp: same_chain_def)

lemma same_chain_data:
  "q_chunks q a = Some c \<Longrightarrow> same_chain q (q\<lparr>q_chunks := (q_chunks q)(a \<mapsto> c\<lparr>ch_data := d\<rparr>)\<rparr>)"
  by (auto simp: same_chain_def links_def fun_eq_iff)

lemma destroy_middle_ok:
  assumes "lseg (links (q_chunks q)) p ps (q_back q)" and "distinct ps" and "the (q_back q) \<notin> set ps"
    and "q_back q \<noteq> None" and "sized n (q_chunks q) ps" and "n = chunk_elements size_t"
    and "slots (q_chunks q) ps = map Some ys"
  shows "\<exists>q'. destroy_middle size_t p q = Some (Inr q') \<and> same_chain q q'"
  using assms
proof (induction ps arbitrary: p q ys)
  case Nil
  then show ?case by (simp add: destroy_middle.simps same_chain_refl)
next
  case (Cons a ps)
  then obtain c where p: "p = Some a" and c: "q_chunks q a = Some c" "length (ch_data c) = n"
    and rest: "lseg (links (q_chunks q)) (ch_next c) ps (q_back q)" by (auto simp: links_def)
  have pb: "p \<noteq> q_back q" using Cons.prems(3) p by (cases "q_back q") auto
  have "ch_data c @ slots (q_chunks q) ps = map Some (take n ys) @ map Some (drop n ys)"
    using Cons.prems(7) c by (simp flip: map_append)
  moreover have "n \<le> length ys" using Cons.prems(7) c by (metis length_append length_map le_add1 option.sel slots_Cons)
  ultimately have d: "ch_data c = map Some (take n ys)" "slots (q_chunks q) ps = map Some (drop n ys)"
    using c(2) by (simp_all add: append_eq_append_conv)
  let ?q = "q\<lparr>q_chunks := (q_chunks q)(a \<mapsto> c\<lparr>ch_data := replicate n None\<rparr>)\<rparr>"
  have "destroy_range p 0 n q = Inr ?q"
  proof -
    have len: "length (take n ys) = n" using \<open>n \<le> length ys\<close> by simp
    have "ch_data c = replicate 0 None @ map Some (take n ys) @ replicate 0 None" using d(1) by simp
    from destroy_range_ok [OF c(1) this] show ?thesis unfolding len p by simp
  qed
  moreover have same: "same_chain q ?q" using c(1) by (rule same_chain_data)
  have "\<exists>q'. destroy_middle size_t (ch_next c) ?q = Some (Inr q') \<and> same_chain ?q q'"
  proof (rule Cons.IH)
    show "lseg (links (q_chunks ?q)) (ch_next c) ps (q_back ?q)"
      using rest same_chain_fields(5) [OF same] by simp
    show "slots (q_chunks ?q) ps = map Some (drop n ys)" "sized n (q_chunks ?q) ps"
      using d(2) Cons.prems(2,5) by simp_all
  qed (use Cons.prems in simp_all)
  moreover have "get_chunk ?q p = Inr (c\<lparr>ch_data := replicate n None\<rparr>)" using p by (simp add: get_chunk_def)
  ultimately show ?case
    using pb Cons.prems(6) same_chain_trans [OF same] by (auto simp: destroy_middle.simps [of size_t p q])
qed

lemma q_chain_split:
  assumes "q_chain n q ps xs" and "1 < length ps"
  obtains h mid l ch cl xs1 xs2 xs3 where
    "ps = h # mid @ [l]" "q_chunks q h = Some ch" "q_chunks q l = Some cl" "xs = xs1 @ xs2 @ xs3"
    "ch_data ch = replicate (q_idx_front q) None @ map Some xs1" "length xs1 = n - q_idx_front q"
    "slots (q_chunks q) mid = map Some xs2"
    "ch_data cl = map Some xs3 @ replicate (n - q_idx_end q) None" "length xs3 = q_idx_end q"
proof -
  let ?f = "q_idx_front q" and ?e = "q_idx_end q" and ?m = "q_chunks q"
  obtain h tl where tl: "ps = h # tl" "tl \<noteq> []" using assms(2) by (cases ps) auto
  then obtain mid l where ps: "ps = h # mid @ [l]" by (metis rev_exhaust)
  with assms(1) obtain ch cl where c: "?m h = Some ch" "length (ch_data ch) = n" "?m l = Some cl"
    "length (ch_data cl) = n" "sized n ?m mid" "?f < n" "?e \<le> n" by (auto simp: q_chain_def)
  define xs1 xs2 xs3 where "xs1 = take (n - ?f) xs" and "xs2 = take (length mid * n) (drop (n - ?f) xs)"
    and "xs3 = drop (length mid * n) (drop (n - ?f) xs)"
  have len: "length xs = (n - ?f) + length mid * n + ?e"
    using q_chain_length [OF assms(1)] ps c(6,7) by simp
  then have l123: "length xs1 = n - ?f" "length xs2 = length mid * n" "length xs3 = ?e"
    by (simp_all add: xs1_def xs2_def xs3_def)
  have xs: "xs = xs1 @ xs2 @ xs3"
    by (simp add: xs1_def xs2_def xs3_def del: drop_drop)
  have lm: "length (slots ?m mid) = length mid * n" using c(5) by (rule length_slots)
  have "ch_data ch @ (slots ?m mid @ ch_data cl) =
      (replicate ?f None @ map Some xs1) @ (map Some xs2 @ map Some xs3 @ replicate (n - ?e) None)"
    using assms(1) ps c(1,3) xs by (simp add: q_chain_def)
  moreover have "length (ch_data ch) = length (replicate ?f None @ map Some xs1)"
    using c(2,6) l123(1) by simp
  ultimately have d: "ch_data ch = replicate ?f None @ map Some xs1"
    "slots ?m mid @ ch_data cl = map Some xs2 @ (map Some xs3 @ replicate (n - ?e) None)"
    by (blast dest: append_eq_append_conv [THEN iffD1, OF disjI1])+
  from d(2) have "slots ?m mid = map Some xs2" "ch_data cl = map Some xs3 @ replicate (n - ?e) None"
    using lm l123(2) by (simp_all add: append_eq_append_conv)
  then show thesis using that ps c(1,3) xs d(1) l123(1,3) by blast
qed

text \<open>C12. Destroying a queue that spans several chunks gives every chunk back, and every destructor
  call on the way finds a live object.\<close>

theorem q_dtor_frees_chunks:
  assumes "q_chain (chunk_elements size_t) q ps xs" and "1 < length ps"
  shows "\<exists>q'. q_dtor size_t q = Some (Inr q') \<and> dom (q_chunks q') = dom (q_chunks q) - set ps"
proof -
  let ?n = "chunk_elements size_t" and ?f = "q_idx_front q" and ?e = "q_idx_end q"
  from q_chain_split [OF assms] obtain h mid l ch cl xs1 xs2 xs3 where
    ps: "ps = h # mid @ [l]" "q_chunks q h = Some ch" "q_chunks q l = Some cl" and
    d1: "ch_data ch = replicate ?f None @ map Some xs1" "length xs1 = ?n - ?f" and
    d2: "slots (q_chunks q) mid = map Some xs2" and
    d3: "ch_data cl = map Some xs3 @ replicate (?n - ?e) None" "length xs3 = ?e" by metis
  have dist: "distinct (h # mid @ [l])" using q_chain_distinct [OF assms(1)] ps by simp
  have front: "q_front q = Some h" "q_back q = Some l" "?f < ?n"
    and path: "lseg (links (q_chunks q)) (ch_next ch) (mid @ [l]) None"
    and sz: "sized ?n (q_chunks q) mid"
    using assms(1) ps by (auto simp: q_chain_def links_def)
  let ?q1 = "q\<lparr>q_chunks := (q_chunks q)(h \<mapsto> ch\<lparr>ch_data := replicate ?n None\<rparr>)\<rparr>"
  have r1: "destroy_range (q_front q) ?f ?n q = Inr ?q1"
    using destroy_range_ok [OF ps(2), of ?f xs1 0] d1 front(1,3) by simp
  let ?q2 = "?q1\<lparr>q_chunks := (q_chunks ?q1)(l \<mapsto> cl\<lparr>ch_data := replicate (?e + (?n - ?e)) None\<rparr>)\<rparr>"
  have lh: "q_chunks ?q1 l = Some cl" using ps(3) dist by simp
  have r2: "destroy_range (q_back ?q1) 0 (q_idx_end ?q1) ?q1 = Inr ?q2"
    using destroy_range_ok [OF lh, of 0 xs3 "?n - ?e"] d3 front(2) by simp
  have same: "same_chain q ?q2"
    using same_chain_trans [OF same_chain_data [OF ps(2)] same_chain_data [OF lh]] by simp
  have r3: "get_chunk ?q2 (q_front ?q2) = Inr (ch\<lparr>ch_data := replicate ?n None\<rparr>)"
    using front(1) dist by (simp add: get_chunk_def)
  have "\<exists>q3. destroy_middle size_t (ch_next ch) ?q2 = Some (Inr q3) \<and> same_chain ?q2 q3"
  proof (rule destroy_middle_ok)
    show "lseg (links (q_chunks ?q2)) (ch_next ch) mid (q_back ?q2)"
      using path front(2) same_chain_fields(5) [OF same] by auto
    show "slots (q_chunks ?q2) mid = map Some xs2" "sized ?n (q_chunks ?q2) mid"
      using d2 sz dist by simp_all
  qed (use front(2) dist in simp_all)
  then obtain q3 where r4: "destroy_middle size_t (ch_next ch) ?q2 = Some (Inr q3)"
    and "same_chain ?q2 q3" by blast
  with same have sc: "same_chain q q3" by (blast intro: same_chain_trans)
  have "lseg (links (q_chunks q3)) (q_front q3) ps None"
    using assms(1) same_chain_fields [OF sc] by (simp add: q_chain_def)
  then have "free_chain (q_front q3) q3 = Some (Inr (q3\<lparr>q_chunks := q_chunks q3 |` (- set ps)\<rparr>))"
    by (rule free_chain_ok)
  moreover have "q_front q \<noteq> q_back q" using front dist by auto
  ultimately have "q_dtor size_t q = Some (Inr (q3\<lparr>q_chunks := q_chunks q3 |` (- set ps)\<rparr>))"
    using r1 r2 r3 r4 front(1) by (simp add: q_dtor_def)
  moreover have "dom (q_chunks q3) = dom (q_chunks q)"
    using same_chain_fields(5) [OF sc] by (metis links_dom)
  ultimately show ?thesis by auto
qed

theorem q_dtor_frees_chunks_witness:
  "\<exists>q q' ps. q_of_list 2000 [7, 8 :: nat] = Inr q \<and> q_dtor 2000 q = Some (Inr q') \<and>
    set ps \<subseteq> dom (q_chunks q) \<and> 1 < length ps \<and> dom (q_chunks q') = dom (q_chunks q) - set ps"
proof -
  from chunks.push_all_rep [OF q_new_rep TrueI, of 2000 "[7, 8 :: nat]"] obtain q where
    q: "q_of_list 2000 [7, 8 :: nat] = Inr q" "q_rep 2000 q [7, 8]" by (auto simp: q_of_list_def)
  then obtain ps where chain: "q_chain (chunk_elements 2000) q ps [7, 8]" by (auto simp: q_rep_def)
  have len: "1 < length ps" using q_chain_length [OF chain] by (simp add: chunk_elements_def)
  have "set ps \<subseteq> dom (q_chunks q)" using chain by (auto simp: q_chain_def sized_def)
  with q_dtor_frees_chunks [OF chain len] q(1) len show ?thesis by blast
qed

text \<open>Destroying a queue whose elements fit in one chunk runs every element destructor but keeps
  the chunk: its storage is never given back.\<close>

theorem q_dtor_single_chunk_leaks:
  assumes "q_rep size_t q (x # xs)" and "q_front q = q_back q"
  shows "\<exists>q' a c. q_dtor size_t q = Some (Inr q') \<and> q_front q = Some a \<and> q_chunks q' a = Some c \<and>
    ch_data c = replicate (chunk_elements size_t) None"
proof -
  let ?n = "chunk_elements size_t" and ?f = "q_idx_front q" and ?e = "q_idx_end q"
  from assms(1) obtain ps where chain: "q_chain ?n q ps (x # xs)" by (auto simp: q_rep_def)
  then obtain a tl where ps: "ps = a # tl" by (cases ps) (auto simp: q_chain_def)
  have front: "q_front q = Some a" and bk: "q_back q = Some (last ps)" using chain ps by (auto simp: q_chain_def)
  have "tl = []"
    using assms(2) front bk ps q_chain_distinct [OF chain] by (cases tl rule: rev_cases) auto
  then obtain c where c: "q_chunks q a = Some c"
    and data: "ch_data c = replicate ?f None @ map Some (x # xs) @ replicate (?n - ?e) None"
    using chain ps by (auto simp: q_chain_def)
  have len: "?f + length (x # xs) + (?n - ?e) = ?n" using q_chain_length [OF chain] ps \<open>tl = []\<close> by simp
  then have e: "?f + length (x # xs) = ?e" using chain by (auto simp: q_chain_def)
  have "destroy_range (Some a) ?f ?e q = Inr (q\<lparr>q_chunks := (q_chunks q)(a \<mapsto>
      c\<lparr>ch_data := replicate ?n None\<rparr>)\<rparr>)"
    using destroy_range_ok [OF c data] unfolding len unfolding e .
  then show ?thesis using front assms(2) by (simp add: q_dtor_def)
qed

theorem q_dtor_single_chunk_leaks_witness:
  "\<exists>q q' a. q_of_list 4 [7 :: nat] = Inr q \<and> q_dtor 4 q = Some (Inr q') \<and> q_front q = Some a \<and>
    q_chunks q' a \<noteq> None"
proof -
  from chunks.push_all_rep [OF q_new_rep TrueI, of 4 "[7 :: nat]"] obtain q where
    q: "q_of_list 4 [7 :: nat] = Inr q" "q_rep 4 q [7]" by (auto simp: q_of_list_def)
  have "q_front q = q_back q" using q(1)
    by (auto simp: q_of_list_def q_push_def q_new_def new_chunk_def get_chunk_def set_chunk_def
        chunk_elements_def construct_slot_def write_at_def Let_def split: if_splits)
  from q_dtor_single_chunk_leaks [OF q(2) this] q(1) show ?thesis by auto
qed

end
