(* ===== verification/Intrusive_List.thy ===== *)
theory Intrusive_List
  imports Heap_Lists Fifo
begin

text \<open>
  \<open>upp::intrusive_list\<close>, \<open>core/include/upp/intrusive_list.hpp\<close>: a singly linked list through the
  successor field that \<open>Traits::next\<close> gives of the caller's nodes.  The nodes live in a store; the
  list owns none of them and keeps the addresses of the first and of the last.
\<close>

section \<open>State and operations\<close>

(* core/include/upp/intrusive_list.hpp 16-22: intrusive_list *)
record ilist =
  il_front :: ptr
  il_back :: ptr
  il_nodes :: "nat \<rightharpoonup> ptr"

text \<open>An empty list beside a store of nodes.\<close>

definition il_new :: "(nat \<rightharpoonup> ptr) \<Rightarrow> ilist" where
  "il_new h = \<lparr>il_front = None, il_back = None, il_nodes = h\<rparr>"

(* core/include/upp/intrusive_list.hpp 11-14: intrusive_list_traits::next *)
definition next_of :: "ilist \<Rightarrow> ptr \<Rightarrow> ptr result" where
  "next_of l p = (case p of None \<Rightarrow> Inl Undefined | Some a \<Rightarrow>
     (case il_nodes l a of None \<Rightarrow> Inl Undefined | Some r \<Rightarrow> Inr r))"

definition set_next :: "ilist \<Rightarrow> ptr \<Rightarrow> ptr \<Rightarrow> ilist result" where
  "set_next l p r = rbind (next_of l p) (\<lambda>_. Inr (l\<lparr>il_nodes := (il_nodes l)(the p \<mapsto> r)\<rparr>))"

(* core/include/upp/intrusive_list.hpp 33-42: push_back *)
definition il_push_back :: "ilist \<Rightarrow> nat \<Rightarrow> ilist result" where
  "il_push_back l t =
     rbind (set_next l (Some t) None) (\<lambda>l1.
     if il_front l1 = None then Inr (l1\<lparr>il_front := Some t, il_back := Some t\<rparr>)
     else rbind (set_next l1 (il_back l1) (Some t)) (\<lambda>l2. Inr (l2\<lparr>il_back := Some t\<rparr>)))"

(* core/include/upp/intrusive_list.hpp 24-31: intrusive_list(Ts&...) *)
definition il_of_nodes :: "(nat \<rightharpoonup> ptr) \<Rightarrow> nat list \<Rightarrow> ilist result" where
  "il_of_nodes h ts = rfold (\<lambda>t l. il_push_back l t) ts (il_new h)"

(* core/include/upp/intrusive_list.hpp 44-44: pop_front *)
definition il_pop_front :: "ilist \<Rightarrow> ilist result" where
  "il_pop_front l = rbind (next_of l (il_front l)) (\<lambda>p. Inr (l\<lparr>il_front := p\<rparr>))"

(* core/include/upp/intrusive_list.hpp 79-79: front *)
definition il_first :: "ilist \<Rightarrow> nat result" where
  "il_first l = (case il_front l of None \<Rightarrow> Inl Undefined | Some a \<Rightarrow> Inr a)"

(* core/include/upp/intrusive_list.hpp 80-80: back *)
definition il_last :: "ilist \<Rightarrow> nat result" where
  "il_last l = (case il_back l of None \<Rightarrow> Inl Undefined | Some a \<Rightarrow> Inr a)"

(* core/include/upp/intrusive_list.hpp 82-82: empty *)
definition il_empty :: "ilist \<Rightarrow> bool" where
  "il_empty l = (il_front l = None)"

(* core/include/upp/intrusive_list.hpp 84-94: size *)
definition il_size :: "ilist \<Rightarrow> nat result option" where
  "il_size l = count_nodes (il_nodes l) (il_front l) 0"

text \<open>A range-based \<open>for\<close> over the list: \<open>begin\<close>, \<open>operator*\<close>, \<open>operator++\<close> and the comparison
  with the sentinel, with a loop body that may change the store.\<close>

(* core/include/upp/intrusive_list.hpp 46-77: iterator, begin, end *)
partial_function (option) il_for_each ::
    "(nat \<Rightarrow> 's \<Rightarrow> 's) \<Rightarrow> ilist \<Rightarrow> ptr \<Rightarrow> 's \<Rightarrow> 's result option" where
  "il_for_each body l it s = (case it of
     None \<Rightarrow> Some (Inr s)
   | Some a \<Rightarrow> (case next_of l it of
       Inl e \<Rightarrow> Some (Inl e)
     | Inr it' \<Rightarrow> il_for_each body l it' (body a s)))"

section \<open>The nodes of a list\<close>

text \<open>\<open>m_back\<close> names the last node while the list is not empty; on an empty list it is stale.\<close>

definition il_rep :: "ilist \<Rightarrow> nat list \<Rightarrow> bool" where
  "il_rep l as \<longleftrightarrow> lseg (il_nodes l) (il_front l) as None \<and> (as \<noteq> [] \<longrightarrow> il_back l = Some (last as))"

text \<open>What may be pushed: live nodes, none of them twice and none that is already on the list.\<close>

definition il_adm :: "ilist \<Rightarrow> nat list \<Rightarrow> bool" where
  "il_adm l ts \<longleftrightarrow> distinct ts \<and> set ts \<subseteq> dom (il_nodes l) \<and>
     (\<forall>as. lseg (il_nodes l) (il_front l) as None \<longrightarrow> set ts \<inter> set as = {})"

lemma il_rep_determ: "il_rep l as \<Longrightarrow> lseg (il_nodes l) (il_front l) bs None \<Longrightarrow> bs = as"
  by (auto simp: il_rep_def intro: lseg_determ)

lemma il_admI:
  "il_rep l as \<Longrightarrow> distinct ts \<Longrightarrow> set ts \<subseteq> dom (il_nodes l) \<Longrightarrow> set ts \<inter> set as = {} \<Longrightarrow> il_adm l ts"
  by (auto simp: il_adm_def dest: il_rep_determ)

lemma il_admD: "il_adm l ts \<Longrightarrow> il_rep l as \<Longrightarrow> set ts \<inter> set as = {}"
  by (auto simp: il_adm_def il_rep_def)

lemma il_push_back_rep:
  assumes "il_rep l as" and "t \<in> dom (il_nodes l)" and "t \<notin> set as"
  shows "\<exists>l'. il_push_back l t = Inr l' \<and> il_rep l' (as @ [t]) \<and> dom (il_nodes l') = dom (il_nodes l)"
proof (cases "as = []")
  case True
  then have "il_front l = None" using assms(1) by (simp add: il_rep_def)
  with True assms(2) show ?thesis
    by (auto simp: il_push_back_def set_next_def next_of_def il_rep_def)
next
  case False
  have seg: "lseg (il_nodes l) (il_front l) as None" and bk: "il_back l = Some (last as)"
    using assms(1) False by (auto simp: il_rep_def)
  have ne: "last as \<noteq> t" using assms(3) False by (metis last_in_set)
  have nx: "il_nodes l (last as) = Some None" using lseg_last [OF seg False] .
  have front: "il_front l \<noteq> None" using seg False by (cases as) auto
  let ?h = "(il_nodes l)(t \<mapsto> None, last as \<mapsto> Some t)"
  have "lseg ?h (il_front l) (as @ [t]) None"
    using lseg_snoc [OF seg False assms(3)] ne by (simp add: fun_upd_twist)
  then have "il_rep (l\<lparr>il_nodes := ?h, il_back := Some t\<rparr>) (as @ [t])" by (simp add: il_rep_def)
  moreover have "il_push_back l t = Inr (l\<lparr>il_nodes := ?h, il_back := Some t\<rparr>)"
    using assms(2) bk nx ne front by (auto simp: il_push_back_def set_next_def next_of_def)
  moreover have "dom ?h = dom (il_nodes l)" using assms(2) nx by (auto simp: dom_def)
  ultimately show ?thesis by auto
qed

lemma il_pop_front_rep: "il_rep l (a # as) \<Longrightarrow>
    \<exists>l'. il_pop_front l = Inr l' \<and> il_rep l' as \<and> il_nodes l' = il_nodes l"
  by (auto simp: il_pop_front_def next_of_def il_rep_def)

lemma il_size_rep: "il_rep l as \<Longrightarrow> il_size l = Some (Inr (length as))"
  using count_nodes_lseg [of "il_nodes l" "il_front l" as 0] by (simp add: il_size_def il_rep_def)

lemma il_empty_rep: "il_rep l as \<Longrightarrow> il_empty l \<longleftrightarrow> as = []"
  by (cases as) (auto simp: il_empty_def il_rep_def)

definition il_count :: "ilist \<Rightarrow> nat" where
  "il_count l = (case il_size l of Some (Inr k) \<Rightarrow> k | _ \<Rightarrow> 0)"

lemma il_push_adm:
  assumes "il_rep l as" and "il_adm l (t # ts)"
  shows "\<exists>l'. il_push_back l t = Inr l' \<and> il_rep l' (as @ [t]) \<and> il_adm l' ts"
proof -
  have fresh: "set (t # ts) \<inter> set as = {}" using il_admD [OF assms(2,1)] .
  have t: "t \<in> dom (il_nodes l)" "t \<notin> set as" "distinct (t # ts)" "set ts \<subseteq> dom (il_nodes l)"
    using assms(2) fresh by (auto simp: il_adm_def)
  from il_push_back_rep [OF assms(1) t(1,2)] obtain l' where
    l': "il_push_back l t = Inr l'" "il_rep l' (as @ [t])" "dom (il_nodes l') = dom (il_nodes l)" by blast
  have "il_adm l' ts" by (rule il_admI [OF l'(2)]) (use t l'(3) fresh in auto)
  with l' show ?thesis by blast
qed

interpretation nodes: fifo il_rep il_adm il_push_back "\<lambda>l. True" il_pop_front il_count il_empty
  by unfold_locales
    (use il_push_adm il_pop_front_rep il_empty_rep in
      \<open>blast | auto simp: il_count_def il_size_rep\<close>)+

section \<open>Properties\<close>

lemma il_new_rep: "il_rep (il_new h) []"
  by (simp add: il_rep_def il_new_def)

lemma il_for_each_lseg:
  "lseg (il_nodes l) it as None \<Longrightarrow> il_for_each body l it s = Some (Inr (fold body as s))"
proof (induction as arbitrary: it s)
  case Nil
  then show ?case by (simp add: il_for_each.simps)
next
  case (Cons a as)
  then obtain r where r: "it = Some a" "il_nodes l a = Some r" "lseg (il_nodes l) r as None" by auto
  then have "il_for_each body l it s = il_for_each body l r (body a s)"
    by (simp add: il_for_each.simps [of body l "Some a"] next_of_def)
  also have "\<dots> = Some (Inr (fold body as (body a s)))" by (rule Cons.IH [OF r(3)])
  finally show ?case by simp
qed

text \<open>C32. A list built from distinct nodes visits them in the order given: \<open>size\<close> counts them, a
  range-based \<open>for\<close> runs its body on each in turn, and \<open>front\<close> and \<open>back\<close> are the first and the
  last.\<close>

theorem il_of_nodes_visits:
  assumes "distinct ts" and "set ts \<subseteq> dom h" and "ts \<noteq> []"
  shows "\<exists>l. il_of_nodes h ts = Inr l \<and> il_size l = Some (Inr (length ts)) \<and>
    il_for_each body l (il_front l) s = Some (Inr (fold body ts s)) \<and>
    il_first l = Inr (hd ts) \<and> il_last l = Inr (last ts)"
proof -
  have "il_adm (il_new h) ts" by (rule il_admI [OF il_new_rep]) (use assms in \<open>auto simp: il_new_def\<close>)
  from nodes.push_all_rep [OF il_new_rep this] obtain l where
    l: "il_of_nodes h ts = Inr l" "il_rep l ts" by (auto simp: il_of_nodes_def)
  then have seg: "lseg (il_nodes l) (il_front l) ts None" and bk: "il_back l = Some (last ts)"
    using assms(3) by (auto simp: il_rep_def)
  have "il_front l = Some (hd ts)" using seg assms(3) by (cases ts) auto
  then show ?thesis using l il_size_rep [OF l(2)] il_for_each_lseg [OF seg] bk
    by (simp add: il_first_def il_last_def)
qed

theorem il_of_nodes_visits_witness:
  "\<exists>l. il_of_nodes [5 \<mapsto> Some 5, 7 \<mapsto> None] [7, 5] = Inr l \<and>
    il_for_each (\<lambda>a s. s @ [a]) l (il_front l) [] = Some (Inr [7, 5])"
  using il_of_nodes_visits [of "[7, 5]" "[5 \<mapsto> Some 5, 7 \<mapsto> None]" "\<lambda>a s. s @ [a]" "[]"] by auto

text \<open>A node that has been popped may be pushed again: popping the first node and pushing it back
  rotates the list, also when it was the only one and \<open>m_back\<close> was left stale.\<close>

theorem il_rotate:
  assumes "il_rep l (a # as)"
  shows "\<exists>l'. rbind (il_pop_front l) (\<lambda>l1. il_push_back l1 a) = Inr l' \<and> il_rep l' (as @ [a])"
proof -
  from il_pop_front_rep [OF assms] obtain l1 where
    l1: "il_pop_front l = Inr l1" "il_rep l1 as" "il_nodes l1 = il_nodes l" by blast
  have "a \<notin> set as" "a \<in> dom (il_nodes l1)"
    using lseg_None_distinct [of "il_nodes l" "il_front l" "a # as"] assms l1(3) by (auto simp: il_rep_def)
  from il_push_back_rep [OF l1(2) this(2,1)] l1(1) show ?thesis by auto
qed

theorem il_rotate_witness:
  "\<exists>l'. rbind (il_pop_front \<lparr>il_front = Some 3, il_back = Some 3, il_nodes = [3 \<mapsto> None]\<rparr>)
      (\<lambda>l1. il_push_back l1 3) = Inr l' \<and> il_rep l' [3]"
  using il_rotate [of "\<lparr>il_front = Some 3, il_back = Some 3, il_nodes = [3 \<mapsto> None]\<rparr>" 3 "[]"]
  by (simp add: il_rep_def)

text \<open>The machine of a list over the nodes \<open>N\<close>: a node that is not on the list may be pushed.\<close>

definition il_spec_push :: "nat set \<Rightarrow> nat list \<Rightarrow> nat \<Rightarrow> nat list option" where
  "il_spec_push N xs t = (if t \<in> N \<and> t \<notin> set xs then Some (xs @ [t]) else None)"

definition il_spec_pop :: "nat list \<Rightarrow> nat list option" where
  "il_spec_pop xs = (case xs of [] \<Rightarrow> None | x # ys \<Rightarrow> Some ys)"

definition il_over :: "nat set \<Rightarrow> nat list \<Rightarrow> ilist \<Rightarrow> bool" where
  "il_over N xs l \<longleftrightarrow> il_rep l xs \<and> dom (il_nodes l) = N"

interpretation il_runs: fifo_refinement "il_over N" "il_spec_push N" il_spec_pop il_push_back il_pop_front for N
proof
  fix xs xs' l y
  assume R: "il_over N xs l"
  show "\<exists>l'. il_push_back l y = Inr l' \<and> il_over N xs' l'" if "il_spec_push N xs y = Some xs'"
    using that R il_push_back_rep [of l xs y] by (auto simp: il_spec_push_def il_over_def split: if_splits)
  show "\<exists>l'. il_pop_front l = Inr l' \<and> il_over N xs' l'" if "il_spec_pop xs = Some xs'"
    using that R il_pop_front_rep by (fastforce simp: il_spec_pop_def il_over_def split: list.splits)
qed

text \<open>C31. Any program that pushes nodes which are not on the list and pops while it has nodes gets the list a
  sequence of nodes would be: \<open>size\<close> counts it and a range-based \<open>for\<close> visits it in order.  Popped nodes
  may be pushed again.\<close>

theorem il_run_refines:
  assumes "spec_run (il_spec_push (dom h)) il_spec_pop ops [] = Some xs"
  shows "\<exists>l. fifo_run il_push_back il_pop_front ops (il_new h) = Inr l \<and> il_size l = Some (Inr (length xs)) \<and>
    il_for_each body l (il_front l) s = Some (Inr (fold body xs s)) \<and> (il_empty l \<longleftrightarrow> xs = [])"
proof -
  have "il_over (dom h) [] (il_new h)" using il_new_rep by (simp add: il_over_def il_new_def)
  from il_runs.run_refines [OF this assms] obtain l where
    l: "fifo_run il_push_back il_pop_front ops (il_new h) = Inr l" "il_rep l xs" by (auto simp: il_over_def)
  then have "lseg (il_nodes l) (il_front l) xs None" by (simp add: il_rep_def)
  from il_for_each_lseg [OF this, of body s] l il_size_rep [OF l(2)] il_empty_rep [OF l(2)] show ?thesis
    by (intro exI [of _ l]) simp
qed

theorem il_run_refines_witness:
  "\<exists>l. fifo_run il_push_back il_pop_front [Push 7, Push 5, Pop, Push 7] (il_new [5 \<mapsto> Some 5, 7 \<mapsto> None]) = Inr l \<and>
    il_for_each (\<lambda>a s. s @ [a]) l (il_front l) [] = Some (Inr [5, 7])"
proof -
  have "spec_run (il_spec_push (dom [5 \<mapsto> Some 5, 7 \<mapsto> None])) il_spec_pop [Push 7, Push 5, Pop, Push 7] [] = Some [5, 7]"
    by (simp add: il_spec_push_def il_spec_pop_def)
  from il_run_refines [OF this, of "\<lambda>a s. s @ [a]" "[]"] show ?thesis by auto
qed

text \<open>Pushing the node that is already the last one ties the list into a loop: \<open>size\<close> never
  returns.\<close>

theorem il_push_last_again:
  assumes "il_rep l [a]"
  shows "\<exists>l'. il_push_back l a = Inr l' \<and> il_size l' = None"
proof -
  have a: "il_front l = Some a" "il_back l = Some a" "il_nodes l a = Some None"
    using assms by (auto simp: il_rep_def)
  let ?l = "l\<lparr>il_nodes := (il_nodes l)(a \<mapsto> Some a), il_back := Some a\<rparr>"
  have "il_push_back l a = Inr ?l" using a by (simp add: il_push_back_def set_next_def next_of_def)
  moreover have "il_size ?l = None" using a(1) count_nodes_self_loop [of "il_nodes ?l" a 0]
    by (simp add: il_size_def)
  ultimately show ?thesis by blast
qed

theorem il_push_last_again_witness:
  "\<exists>l'. il_push_back \<lparr>il_front = Some 3, il_back = Some 3, il_nodes = [3 \<mapsto> None]\<rparr> 3 = Inr l' \<and>
    il_size l' = None"
  using il_push_last_again [of "\<lparr>il_front = Some 3, il_back = Some 3, il_nodes = [3 \<mapsto> None]\<rparr>" 3]
  by (simp add: il_rep_def)

end
