(* ===== verification/Strings.thy ===== *)
theory Strings
  imports Prelude "HOL-Library.Char_ord" "HOL-Library.List_Lexorder"
begin

text \<open>
  String types and terminal codes: \<open>strlit\<close>, \<open>cstr\<close> and \<open>template_str\<close> of \<open>core/include/upp\<close>, and
  the escape codes of \<open>terminal.hpp\<close>.  A character array is the list of its characters, the
  terminating null included; a view is the list of the characters it shows.
\<close>

section \<open>Views of character arrays\<close>

abbreviation NUL :: char where
  "NUL \<equiv> CHR 0x00"

text \<open>\<open>std::string_view(const char *)\<close>: up to the first null, which the array must have.\<close>

fun view_of_pointer :: "string \<Rightarrow> string result" where
  "view_of_pointer [] = Inl Undefined"
| "view_of_pointer (c # s) = (if c = NUL then Inr [] else rbind (view_of_pointer s) (\<lambda>v. Inr (c # v)))"

(* core/include/upp/strlit.hpp 12-16: strlit() *)
definition strlit_empty :: string where
  "strlit_empty = []"

(* core/include/upp/strlit.hpp 17-18: strlit(const char (&)[N]) *)
definition strlit_of_array :: "string \<Rightarrow> string" where
  "strlit_of_array s = take (length s - 1) s"

(* core/include/upp/strlit.hpp 20-20: strlit(pointer) *)
definition strlit_of_pointer :: "string \<Rightarrow> string result" where
  "strlit_of_pointer s = view_of_pointer s"

(* core/include/upp/strlit.hpp 30-42: strlit::operator std::string_view *)
definition strlit_view :: "string \<Rightarrow> string" where
  "strlit_view s = s"

text \<open>The length the compiler passes is not used.\<close>

(* core/include/upp/strlit.hpp 70-74: operator""_lit *)
definition strlit_lit :: "string \<Rightarrow> nat \<Rightarrow> string result" where
  "strlit_lit s len = strlit_of_pointer s"

(* core/include/upp/strlit.hpp 46-48: strlit::operator== *)
definition strlit_eq :: "string \<Rightarrow> string \<Rightarrow> bool" where
  "strlit_eq a b = (a = b)"

text \<open>The three-way comparison of views: characters are compared as unsigned bytes, and a proper prefix comes first.\<close>

datatype strong_ordering = ord_less | ord_equal | ord_greater

fun view_compare :: "string \<Rightarrow> string \<Rightarrow> strong_ordering" where
  "view_compare [] [] = ord_equal"
| "view_compare [] (d # t) = ord_less"
| "view_compare (c # s) [] = ord_greater"
| "view_compare (c # s) (d # t) =
     (if (of_char c :: nat) < of_char d then ord_less else if (of_char d :: nat) < of_char c then ord_greater else view_compare s t)"

(* core/include/upp/strlit.hpp 50-52: strlit::operator<=> *)
definition strlit_compare :: "string \<Rightarrow> string \<Rightarrow> strong_ordering" where
  "strlit_compare a b = view_compare a b"

text \<open>The defaulted comparison of two \<open>strlit\<close> compares their views.\<close>

(* core/include/upp/strlit.hpp 44-44: strlit::operator<=>(const strlit&) *)
definition strlit_spaceship :: "string \<Rightarrow> string \<Rightarrow> strong_ordering" where
  "strlit_spaceship a b = view_compare a b"

(* core/include/upp/strlit.hpp 54-57: strlit::size *)
definition strlit_size :: "string \<Rightarrow> nat" where
  "strlit_size s = length s"

text \<open>A \<open>cstr\<close> keeps the array it points into, from its first character on, and its length.\<close>

(* core/include/upp/cstr.hpp 15-19: cstr *)
record cstr =
  cs_array :: string
  cs_length :: nat

(* core/include/upp/cstr.hpp 19-19: cstr() *)
definition cstr_empty :: cstr where
  "cstr_empty = \<lparr>cs_array = [NUL], cs_length = 0\<rparr>"

(* core/include/upp/cstr.hpp 20-22: cstr(pointer) *)
definition cstr_of_pointer :: "string \<Rightarrow> cstr result" where
  "cstr_of_pointer s = rbind (view_of_pointer s) (\<lambda>v. Inr \<lparr>cs_array = s, cs_length = length v\<rparr>)"

(* core/include/upp/cstr.hpp 24-34: cstr(pointer, size_t) *)
definition cstr_of_length :: "build \<Rightarrow> string \<Rightarrow> nat \<Rightarrow> cstr result" where
  "cstr_of_length b s len =
     rbind (case b of Debug \<Rightarrow> rbind (read_at s len) (\<lambda>c. cassert b (c = NUL)) | Release \<Rightarrow> Inr ()) (\<lambda>_.
     Inr \<lparr>cs_array = s, cs_length = len\<rparr>)"

definition cs_view :: "cstr \<Rightarrow> string" where
  "cs_view s = take (cs_length s) (cs_array s)"

(* core/include/upp/cstr.hpp 50-50: cstr::remove_prefix *)
definition cs_remove_prefix :: "cstr \<Rightarrow> nat \<Rightarrow> cstr result" where
  "cs_remove_prefix s n = (if n \<le> cs_length s
     then Inr \<lparr>cs_array = drop n (cs_array s), cs_length = cs_length s - n\<rparr> else Inl Undefined)"

text \<open>The pointer that is handed to functions of C.\<close>

(* core/include/upp/cstr.hpp 52-52: cstr::c_str *)
definition cs_c_str :: "cstr \<Rightarrow> string" where
  "cs_c_str s = cs_array s"

(* core/include/upp/cstr.hpp 54-57: cstr::operator std::string *)
definition cs_string :: "cstr \<Rightarrow> string" where
  "cs_string s = cs_view s"

(* core/include/upp/template_str.hpp 12-23: template_str *)
definition template_str_view :: "string \<Rightarrow> string" where
  "template_str_view s = (let data = take (length s) s in take (length data - 1) data)"

text \<open>So a literal with a null inside is cut there.\<close>

lemma strlit_lit_cut: "NUL \<notin> set s \<Longrightarrow> strlit_lit (s @ NUL # t) (length s + length t) = Inr s"
  by (induction s) (auto simp: strlit_lit_def strlit_of_pointer_def)

text \<open>The comparison is the lexicographic order, which is total, and agrees with \<open>operator==\<close>.\<close>

lemma view_compare_order: "view_compare a b = (if a < b then ord_less else if a = b then ord_equal else ord_greater)"
  by (induction a b rule: view_compare.induct) (auto simp: less_char_def)

lemma strlit_compare_total:
  "strlit_compare a b = ord_equal \<longleftrightarrow> strlit_eq a b"
  "strlit_compare a b = ord_less \<longleftrightarrow> strlit_compare b a = ord_greater"
  "strlit_compare a b = ord_less \<Longrightarrow> strlit_compare b c = ord_less \<Longrightarrow> strlit_compare a c = ord_less"
  "strlit_spaceship a b = strlit_compare a b"
  by (auto simp: strlit_compare_def strlit_spaceship_def strlit_eq_def view_compare_order split: if_splits)

text \<open>What a \<open>cstr\<close> promises: behind the characters shown stands a null.\<close>

definition cs_terminated :: "cstr \<Rightarrow> bool" where
  "cs_terminated s \<longleftrightarrow> cs_length s < length (cs_array s) \<and> cs_array s ! cs_length s = NUL"

lemma view_of_pointer_Inr:
  "view_of_pointer s = Inr v \<Longrightarrow> length v < length s \<and> s ! length v = NUL \<and> v = take (length v) s \<and> NUL \<notin> set v"
proof (induction s arbitrary: v)
  case Nil
  then show ?case by simp
next
  case (Cons c s)
  then show ?case by (cases "c = NUL") (auto simp: result_simps)
qed

lemma view_of_pointer_array: "NUL \<notin> set s \<Longrightarrow> view_of_pointer (s @ NUL # t) = Inr s"
  by (induction s) auto

lemma strlit_of_literal: "NUL \<notin> set s \<Longrightarrow> strlit_of_pointer (s @ [NUL]) = Inr (strlit_of_array (s @ [NUL]))"
  by (simp add: strlit_of_pointer_def strlit_of_array_def view_of_pointer_array)

lemma template_str_view_literal: "template_str_view (s @ [NUL]) = strlit_of_array (s @ [NUL])"
  by (simp add: template_str_view_def strlit_of_array_def Let_def)

lemma cstr_terminated:
  "cstr_of_pointer s = Inr c \<Longrightarrow> cs_terminated c"
  "cstr_of_length Debug s n = Inr c \<Longrightarrow> cs_terminated c"
  "cs_terminated c \<Longrightarrow> cs_remove_prefix c k = Inr c' \<Longrightarrow> cs_terminated c'"
  by (auto simp: cstr_of_pointer_def cstr_of_length_def cs_remove_prefix_def cs_terminated_def
      result_simps cassert_def dest: view_of_pointer_Inr split: if_splits)

text \<open>The values of the type.  In a release build nothing checks what the caller of the constructor with a
  length promises.\<close>

inductive cs_value :: "build \<Rightarrow> cstr \<Rightarrow> bool" for b where
  cs_value_empty: "cs_value b cstr_empty"
| cs_value_pointer: "cstr_of_pointer s = Inr c \<Longrightarrow> cs_value b c"
| cs_value_length: "b = Debug \<or> n < length s \<and> s ! n = NUL \<Longrightarrow> cstr_of_length b s n = Inr c \<Longrightarrow> cs_value b c"
| cs_value_suffix: "cs_value b c \<Longrightarrow> cs_remove_prefix c k = Inr c' \<Longrightarrow> cs_value b c'"

lemma cs_value_terminated: "cs_value b c \<Longrightarrow> cs_terminated c"
proof (induction rule: cs_value.induct)
  case cs_value_empty
  then show ?case by (simp add: cstr_empty_def cs_terminated_def)
next
  case (cs_value_length n s c)
  then show ?case
    using cstr_terminated(2) by (cases b) (auto simp: cstr_of_length_def cs_terminated_def)
qed (auto intro: cstr_terminated)

lemma view_of_terminated:
  "n < length s \<Longrightarrow> s ! n = NUL \<Longrightarrow> view_of_pointer s = Inr (takeWhile (\<lambda>c. c \<noteq> NUL) (take n s))"
proof (induction s arbitrary: n)
  case (Cons c s)
  then show ?case by (cases n) auto
qed simp

text \<open>C36. Every \<open>cstr\<close>, however it was constructed and shortened from the front, can be passed as a C string:
  reading what \<open>c_str\<close> points to meets a null inside the array and gives the characters shown, up to
  the first null among them.\<close>

theorem cstr_null_terminated:
  assumes "cs_value b c"
  shows "cs_terminated c \<and> view_of_pointer (cs_c_str c) = Inr (takeWhile (\<lambda>x. x \<noteq> NUL) (cs_string c))"
  using cs_value_terminated [OF assms] view_of_terminated [of "cs_length c" "cs_array c"]
  by (simp add: cs_terminated_def cs_c_str_def cs_string_def cs_view_def)

theorem cstr_null_terminated_witness:
  "\<exists>c d. cstr_of_length Debug (''/usr/lib'' @ [NUL]) 8 = Inr c \<and> cs_remove_prefix c 5 = Inr d \<and>
    view_of_pointer (cs_c_str d) = Inr ''lib''"
proof -
  let ?c = "\<lparr>cs_array = ''/usr/lib'' @ [NUL], cs_length = 8\<rparr>"
  let ?d = "\<lparr>cs_array = ''lib'' @ [NUL], cs_length = 3\<rparr>"
  have c: "cstr_of_length Debug (''/usr/lib'' @ [NUL]) 8 = Inr ?c"
    by code_simp
  have d: "cs_remove_prefix ?c 5 = Inr ?d" by (simp add: cs_remove_prefix_def)
  have "cs_value Debug ?c" by (rule cs_value_length [OF _ c]) simp
  then have "cs_value Debug ?d" using d by (rule cs_value_suffix)
  from cstr_null_terminated [OF this] c d show ?thesis by (auto simp: cs_string_def cs_view_def)
qed

section \<open>Terminal escape codes\<close>

(* core/include/upp/terminal.hpp 12-37: option *)
datatype term_option =
    opt_clear | opt_bold | opt_faint | opt_italic | opt_underline | opt_slow_blink
  | opt_black | opt_red | opt_green | opt_yellow | opt_blue | opt_purple | opt_cyan | opt_white
  | opt_bg_black | opt_bg_red | opt_bg_green | opt_bg_yellow | opt_bg_blue | opt_bg_purple
  | opt_bg_cyan | opt_bg_white

fun option_value :: "term_option \<Rightarrow> nat" where
  "option_value opt_clear = 0"
| "option_value opt_bold = 1"
| "option_value opt_faint = 2"
| "option_value opt_italic = 3"
| "option_value opt_underline = 4"
| "option_value opt_slow_blink = 5"
| "option_value opt_black = 30"
| "option_value opt_red = 31"
| "option_value opt_green = 32"
| "option_value opt_yellow = 33"
| "option_value opt_blue = 34"
| "option_value opt_purple = 35"
| "option_value opt_cyan = 36"
| "option_value opt_white = 37"
| "option_value opt_bg_black = 40"
| "option_value opt_bg_red = 41"
| "option_value opt_bg_green = 42"
| "option_value opt_bg_yellow = 43"
| "option_value opt_bg_blue = 44"
| "option_value opt_bg_purple = 45"
| "option_value opt_bg_cyan = 46"
| "option_value opt_bg_white = 47"

text \<open>\<open>std::to_string\<close> of a number that is not negative.\<close>

fun to_string :: "nat \<Rightarrow> string" where
  "to_string n = (if n < 10 then [char_of (48 + n)] else to_string (n div 10) @ [char_of (48 + n mod 10)])"

declare to_string.simps [simp del]

(* core/include/upp/terminal.hpp 39-53: dynamic_escape_code *)
definition dynamic_escape_code :: "term_option list \<Rightarrow> string" where
  "dynamic_escape_code ts =
     (let res = [CHR 0x1B, CHR ''[''];
          res = (if ts \<noteq> [] then
            butlast (foldl (\<lambda>res v. (res @ to_string (option_value v)) @ [CHR '';'']) res ts)
            else res) in
      res @ [CHR ''m''])"

text \<open>Reading a code back: the decimal numbers, separated by semicolons, between the introducer, escape and bracket, and
  the final \<open>m\<close>.  Any other text is not a code.\<close>

fun split_at :: "char \<Rightarrow> string \<Rightarrow> string list" where
  "split_at d [] = [[]]"
| "split_at d (c # s) = (if c = d then [] # split_at d s else
     (case split_at d s of [] \<Rightarrow> [[c]] | w # ws \<Rightarrow> (c # w) # ws))"

definition of_digits :: "string \<Rightarrow> nat" where
  "of_digits s = foldl (\<lambda>n c. 10 * n + (of_char c - 48)) 0 s"

definition is_number :: "string \<Rightarrow> bool" where
  "is_number s \<longleftrightarrow> s \<noteq> [] \<and> (\<forall>c \<in> set s. 48 \<le> (of_char c :: nat) \<and> (of_char c :: nat) < 58)"

definition escape_values :: "string \<Rightarrow> nat list option" where
  "escape_values s = (case s of
     c # d # rest \<Rightarrow> if c = CHR 0x1B \<and> d = CHR ''['' \<and> rest \<noteq> [] \<and> last rest = CHR ''m''
       then (let ps = (if butlast rest = [] then [] else split_at CHR '';'' (butlast rest)) in
         if \<forall>w \<in> set ps. is_number w then Some (map of_digits ps) else None)
       else None
   | _ \<Rightarrow> None)"

lemma of_digits_to_string: "of_digits (to_string n) = n"
proof (induction n rule: to_string.induct)
  case (1 n)
  show ?case
  proof (cases "n < 10")
    case True
    then show ?thesis by (simp add: to_string.simps [of n] of_digits_def)
  next
    case False
    then have "of_digits (to_string n) = 10 * of_digits (to_string (n div 10)) + n mod 10"
      by (simp add: to_string.simps [of n] of_digits_def)
    then show ?thesis using 1 False by simp
  qed
qed

lemma to_string_number: "is_number (to_string n)"
proof (induction n rule: to_string.induct)
  case (1 n)
  show ?case
  proof (cases "n < 10")
    case False
    then show ?thesis using 1 by (auto simp: to_string.simps [of n] is_number_def)
  qed (simp add: to_string.simps [of n] is_number_def)
qed

lemma number_no_semicolon: "is_number s \<Longrightarrow> CHR '';'' \<notin> set s"
  by (force simp: is_number_def)

lemma number_ne: "is_number s \<Longrightarrow> s \<noteq> []"
  by (simp add: is_number_def)

lemma split_at_none: "d \<notin> set s \<Longrightarrow> split_at d s = [s]"
  by (induction s) auto

lemma split_at_append: "d \<notin> set s \<Longrightarrow> split_at d (s @ d # t) = s # split_at d t"
  by (induction s) auto

fun joined :: "string list \<Rightarrow> string" where
  "joined [] = []"
| "joined [w] = w"
| "joined (w # ws) = w @ CHR '';'' # joined ws"

lemma split_joined:
  "ws \<noteq> [] \<Longrightarrow> (\<And>w. w \<in> set ws \<Longrightarrow> CHR '';'' \<notin> set w) \<Longrightarrow> split_at CHR '';'' (joined ws) = ws"
  by (induction ws rule: joined.induct) (auto simp: split_at_none split_at_append)

lemma foldl_joined:
  "ts \<noteq> [] \<Longrightarrow> foldl (\<lambda>res v. (res @ f v) @ [CHR '';'']) res ts = res @ joined (map f ts) @ [CHR '';'']"
proof (induction ts arbitrary: res)
  case Nil
  then show ?case by simp
next
  case (Cons t ts)
  then show ?case using Cons.IH [of "res @ f t @ [CHR '';'']"] by (cases ts) simp_all
qed

lemma dynamic_escape_code_joined:
  "ts \<noteq> [] \<Longrightarrow> dynamic_escape_code ts =
    [CHR 0x1B, CHR ''[''] @ joined (map (\<lambda>t. to_string (option_value t)) ts) @ [CHR ''m'']"
  unfolding dynamic_escape_code_def Let_def
  using foldl_joined [of ts "\<lambda>t. to_string (option_value t)" "[CHR 0x1B, CHR ''['']"]
  by (simp add: butlast_append)

lemma joined_ne: "ws \<noteq> [] \<Longrightarrow> (\<And>w. w \<in> set ws \<Longrightarrow> w \<noteq> []) \<Longrightarrow> joined ws \<noteq> []"
  by (induction ws rule: joined.induct) auto

text \<open>C34. An escape code is the introducer, the values of its options in decimal, in order and separated by semicolons,
  and the final letter: reading it gives the values back, none for no options.\<close>

theorem escape_code_roundtrip: "escape_values (dynamic_escape_code ts) = Some (map option_value ts)"
proof (cases "ts = []")
  case True
  then show ?thesis by (simp add: escape_values_def dynamic_escape_code_def)
next
  case False
  let ?ws = "map (\<lambda>t. to_string (option_value t)) ts"
  have number: "is_number w" if "w \<in> set ?ws" for w using that to_string_number by auto
  have "split_at CHR '';'' (joined ?ws) = ?ws"
    by (rule split_joined) (use False number_no_semicolon [OF number] in auto)
  moreover have "joined ?ws \<noteq> []" by (rule joined_ne) (use False number_ne [OF number] in auto)
  ultimately show ?thesis using number
    by (simp add: escape_values_def dynamic_escape_code_joined [OF False] of_digits_to_string o_def butlast_append)
qed

end
