(* ===== verification/Logs_Context.thy ===== *)
theory Logs_Context
  imports Strings
begin

text \<open>
  The logging contexts of \<open>logs/include/upp/logs.hpp\<close> and \<open>logs/lib/logs.cpp\<close>: levels, the
  context objects in a store, the doubly linked list that goes through all of them from the root
  context, and the constructor and destructor, which link and unlink a context.  Each operation of the
  code takes the library's mutex first and is one step here; Logs_Threads shows its writes one by one.
\<close>

section \<open>Levels\<close>

(* logs/include/upp/logs.hpp 20-29: level *)
datatype level =
    level_trace | level_debug | level_info | level_note | level_warn | level_error | level_fatal
  | level_unset

text \<open>The underlying value, which the comparison in \<open>UPP_LOG\<close> uses.\<close>

fun level_value :: "level \<Rightarrow> nat" where
  "level_value level_trace = 0"
| "level_value level_debug = 1"
| "level_value level_info = 2"
| "level_value level_note = 3"
| "level_value level_warn = 4"
| "level_value level_error = 5"
| "level_value level_fatal = 6"
| "level_value level_unset = 7"

lemma level_value_inj: "level_value a = level_value b \<Longrightarrow> a = b"
  by (cases a; cases b) simp_all

instantiation level :: linorder
begin

definition less_eq_level :: "level \<Rightarrow> level \<Rightarrow> bool" where
  "less_eq_level a b = (level_value a \<le> level_value b)"

definition less_level :: "level \<Rightarrow> level \<Rightarrow> bool" where
  "less_level a b = (level_value a < level_value b)"

instance
  by standard (auto simp: less_eq_level_def less_level_def dest: level_value_inj)

end

lemma level_unset_greatest [simp]: "l \<le> level_unset"
  by (cases l) (simp_all add: less_eq_level_def)

section \<open>Contexts\<close>

(* logs/include/upp/logs.hpp 53-61: context_base *)
record context_base =
  m_parent :: ptr
  m_next :: ptr
  m_prev :: ptr
  m_lvl :: level
  m_inherited_level :: level
  m_name :: string

type_synonym store = "nat \<rightharpoonup> context_base"

text \<open>The context objects by address, and \<open>g_organized\<close>.  The root context is a static object; its
  address is \<open>root_context\<close>.\<close>

record logs =
  contexts :: store
  g_organized :: bool

(* logs/lib/logs.cpp 217-222: g_root_ctx *)
definition root_context :: nat where
  "root_context = 0"

(* logs/lib/logs.cpp 158-159: context_base(context_passkey) *)
definition root_ctx :: context_base where
  "root_ctx = \<lparr>m_parent = None, m_next = None, m_prev = None, m_lvl = level_unset,
     m_inherited_level = level_unset, m_name = []\<rparr>"

definition logs_init :: logs where
  "logs_init = \<lparr>contexts = [root_context \<mapsto> root_ctx], g_organized = False\<rparr>"

definition get_ctx :: "store \<Rightarrow> ptr \<Rightarrow> context_base result" where
  "get_ctx m p = (case p of None \<Rightarrow> Inl Undefined | Some a \<Rightarrow>
     (case m a of None \<Rightarrow> Inl Undefined | Some c \<Rightarrow> Inr c))"

lemma get_ctx_Some [simp]: "m a = Some c \<Longrightarrow> get_ctx m (Some a) = Inr c"
  by (simp add: get_ctx_def)

lemma get_ctx_None [simp]: "get_ctx m None = Inl Undefined"
  by (simp add: get_ctx_def)

(* logs/lib/logs.cpp 203-206: context_base::set_next *)
definition set_next :: "store \<Rightarrow> ptr \<Rightarrow> ptr \<Rightarrow> store result" where
  "set_next m p nxt = rbind (get_ctx m p) (\<lambda>c. Inr (m(the p \<mapsto> c\<lparr>m_next := nxt\<rparr>)))"

(* logs/lib/logs.cpp 208-211: context_base::set_prev *)
definition set_prev :: "store \<Rightarrow> ptr \<Rightarrow> ptr \<Rightarrow> store result" where
  "set_prev m p prv = rbind (get_ctx m p) (\<lambda>c. Inr (m(the p \<mapsto> c\<lparr>m_prev := prv\<rparr>)))"

(* logs/lib/logs.cpp 212-215: context_base::set_inherited_level *)
definition set_inherited_level :: "store \<Rightarrow> ptr \<Rightarrow> level \<Rightarrow> store result" where
  "set_inherited_level m p lvl = rbind (get_ctx m p) (\<lambda>c. Inr (m(the p \<mapsto> c\<lparr>m_inherited_level := lvl\<rparr>)))"

(* logs/lib/logs.cpp 181-183: context_base::explicit_level *)
definition explicit_level :: "context_base \<Rightarrow> level" where
  "explicit_level c = m_lvl c"

(* logs/lib/logs.cpp 185-189: context_base::effective_level *)
definition effective_level :: "context_base \<Rightarrow> level" where
  "effective_level c = (if m_lvl c \<noteq> level_unset then m_lvl c else m_inherited_level c)"

section \<open>The list of all contexts\<close>

text \<open>\<open>dlink m prv xs nxt\<close>: the contexts \<open>xs\<close> are linked one after the other in both
  directions, the first one's predecessor is \<open>prv\<close>, the last one's successor is \<open>nxt\<close>.\<close>

fun hdp :: "nat list \<Rightarrow> ptr \<Rightarrow> ptr" where
  "hdp [] nxt = nxt"
| "hdp (a # xs) nxt = Some a"

fun lastp :: "ptr \<Rightarrow> nat list \<Rightarrow> ptr" where
  "lastp prv [] = prv"
| "lastp prv (a # xs) = lastp (Some a) xs"

fun dlink :: "store \<Rightarrow> ptr \<Rightarrow> nat list \<Rightarrow> ptr \<Rightarrow> bool" where
  "dlink m prv [] nxt \<longleftrightarrow> True"
| "dlink m prv (a # xs) nxt \<longleftrightarrow> (\<exists>c. m a = Some c \<and> m_prev c = prv \<and> m_next c = hdp xs nxt) \<and>
     dlink m (Some a) xs nxt"

lemma hdp_append [simp]: "hdp (xs @ ys) nxt = hdp xs (hdp ys nxt)"
  by (cases xs) auto

lemma lastp_append [simp]: "lastp prv (xs @ ys) = lastp (lastp prv xs) ys"
  by (induction xs arbitrary: prv) auto

lemma dlink_append [simp]:
  "dlink m prv (xs @ ys) nxt \<longleftrightarrow> dlink m prv xs (hdp ys nxt) \<and> dlink m (lastp prv xs) ys nxt"
  by (induction xs arbitrary: prv) auto

lemma dlink_upd [simp]: "a \<notin> set xs \<Longrightarrow> dlink (m(a := v)) prv xs nxt = dlink m prv xs nxt"
  by (induction xs arbitrary: prv) auto

lemma dlink_dom: "dlink m prv xs nxt \<Longrightarrow> set xs \<subseteq> dom m"
  by (induction xs arbitrary: prv) auto

text \<open>A well-formed list of contexts from the root.\<close>

definition linked :: "store \<Rightarrow> nat list \<Rightarrow> bool" where
  "linked m xs \<longleftrightarrow> distinct xs \<and> hdp xs None = Some root_context \<and> dlink m None xs None"

text \<open>Everything about a context but its place in the list.\<close>

definition payload :: "store \<Rightarrow> nat \<rightharpoonup> context_base" where
  "payload m = (\<lambda>a. map_option (\<lambda>c. c\<lparr>m_next := None, m_prev := None\<rparr>) (m a))"

lemma payload_eq_iff:
  "map_option (\<lambda>c. c\<lparr>m_next := None, m_prev := None\<rparr>) x = map_option (\<lambda>c. c\<lparr>m_next := None, m_prev := None\<rparr>) y
   \<Longrightarrow> map_option m_parent x = map_option m_parent y"
  by (cases x; cases y) (auto dest: arg_cong [of _ _ m_parent])

definition parent_of :: "store \<Rightarrow> nat \<Rightarrow> ptr" where
  "parent_of m a = (case m a of None \<Rightarrow> None | Some c \<Rightarrow> m_parent c)"

lemma payload_parent: "payload m = payload m' \<Longrightarrow> parent_of m = parent_of m'"
proof
  fix a assume "payload m = payload m'"
  then have "payload m a = payload m' a" by simp
  then have "map_option m_parent (m a) = map_option m_parent (m' a)"
    unfolding payload_def by (rule payload_eq_iff)
  then show "parent_of m a = parent_of m' a"
    by (cases "m a"; cases "m' a") (auto simp: parent_of_def)
qed

lemma payload_upd [simp]:
  "m a = Some c \<Longrightarrow> payload (m(a \<mapsto> c\<lparr>m_next := n\<rparr>)) = payload m"
  "m a = Some c \<Longrightarrow> payload (m(a \<mapsto> c\<lparr>m_prev := n\<rparr>)) = payload m"
  by (auto simp: payload_def fun_eq_iff)

section \<open>Linking and unlinking\<close>

text \<open>Taking a context out of the list, as the destructor and the reordering do it.\<close>

(* logs/lib/logs.cpp 177-178: context_base::~context_base, unlinking *)
definition unlink :: "store \<Rightarrow> nat \<Rightarrow> store result" where
  "unlink m a =
     rbind (get_ctx m (Some a)) (\<lambda>c.
     rbind (set_next m (m_prev c) (m_next c)) (\<lambda>m1.
     rbind (get_ctx m1 (Some a)) (\<lambda>c1.
     if m_next c1 \<noteq> None then set_prev m1 (m_next c1) (m_prev c1) else Inr m1)))"

text \<open>Putting a live context \<open>a\<close> behind \<open>p\<close>: the constructor tests for a successor.\<close>

(* logs/lib/logs.cpp 142-155: context_base::context_base, linking *)
definition link_behind :: "store \<Rightarrow> nat \<Rightarrow> nat \<Rightarrow> store result" where
  "link_behind m p a =
     rbind (get_ctx m (Some p)) (\<lambda>pc.
     rbind (set_next m (Some a) (m_next pc)) (\<lambda>m1.
     rbind (set_next m1 (Some p) (Some a)) (\<lambda>m2.
     rbind (get_ctx m2 (Some a)) (\<lambda>c.
     rbind (if m_next c \<noteq> None then set_prev m2 (m_next c) (Some a) else Inr m2) (\<lambda>m3.
     set_prev m3 (Some a) (Some p))))))"

lemma set_next_Some [simp]:
  "m a = Some c \<Longrightarrow> set_next m (Some a) n = Inr (m(a \<mapsto> c\<lparr>m_next := n\<rparr>))"
  by (simp add: set_next_def)

lemma set_prev_Some [simp]:
  "m a = Some c \<Longrightarrow> set_prev m (Some a) n = Inr (m(a \<mapsto> c\<lparr>m_prev := n\<rparr>))"
  by (simp add: set_prev_def)

lemma hdp_None [simp]: "hdp xs None = None \<longleftrightarrow> xs = []"
  by (cases xs) auto

lemma dlink_set_next_last:
  assumes "dlink m prv (xs @ [x]) nxt" and "distinct (xs @ [x])" and "m x = Some c"
  shows "dlink (m(x \<mapsto> c\<lparr>m_next := n\<rparr>)) prv (xs @ [x]) n"
  using assms by auto

lemma dlink_set_prev_hd:
  assumes "dlink m prv (y # ys) nxt" and "y \<notin> set ys" and "m y = Some c"
  shows "dlink (m(y \<mapsto> c\<lparr>m_prev := p\<rparr>)) p (y # ys) nxt"
  using assms by auto

lemma unlink_dlink:
  assumes "dlink m None (xs @ [x] @ a # ys) None" and "distinct (xs @ [x] @ a # ys)"
  shows "\<exists>m'. unlink m a = Inr m' \<and> dlink m' None (xs @ [x] @ ys) None \<and> payload m' = payload m \<and> m' a = m a"
proof -
  from assms(1) obtain cx ca where c: "m x = Some cx" "m a = Some ca" "m_prev ca = Some x"
    "m_next ca = hdp ys None" by auto
  have ne: "x \<noteq> a" using assms(2) by auto
  let ?m1 = "m(x \<mapsto> cx\<lparr>m_next := hdp ys None\<rparr>)"
  have "dlink m None (xs @ [x]) (Some a)" using assms(1) by simp
  then have l1: "dlink ?m1 None (xs @ [x]) (hdp ys None)"
    by (rule dlink_set_next_last) (use assms(2) c in auto)
  have l2: "dlink ?m1 (Some a) ys None" using assms by simp
  show ?thesis
  proof (cases ys)
    case Nil
    then have "unlink m a = Inr ?m1" using c ne by (simp add: unlink_def)
    then show ?thesis using l1 Nil c ne by auto
  next
    case (Cons y ys')
    then obtain cy where cy: "m y = Some cy" "?m1 y = Some cy" "y \<notin> set (xs @ [x])" "y \<noteq> a" "y \<notin> set ys'"
      using assms by auto
    let ?m2 = "?m1(y \<mapsto> cy\<lparr>m_prev := Some x\<rparr>)"
    have "unlink m a = Inr ?m2" using c ne Cons cy by (simp add: unlink_def)
    moreover have "dlink ?m2 (Some x) ys None"
      unfolding Cons by (rule dlink_set_prev_hd [of _ "Some a"]) (use l2 Cons cy in simp_all)
    moreover have "dlink ?m2 None (xs @ [x]) (hdp ys None)" using l1 cy(3) by simp
    moreover have "payload ?m2 = payload m" using c(1) cy(2) by simp
    ultimately show ?thesis using cy ne by auto
  qed
qed

text \<open>The store after a context was put behind \<open>p\<close>, in whatever order the assignments are done.\<close>

definition placed :: "store \<Rightarrow> nat \<Rightarrow> nat \<Rightarrow> nat list \<Rightarrow> store" where
  "placed m p a ys = (case ys of [] \<Rightarrow> m | y # _ \<Rightarrow> m(y \<mapsto> (the (m y))\<lparr>m_prev := Some a\<rparr>))
      (p \<mapsto> (the (m p))\<lparr>m_next := Some a\<rparr>, a \<mapsto> (the (m a))\<lparr>m_next := hdp ys None, m_prev := Some p\<rparr>)"

lemma placed_dlink:
  assumes "dlink m None (xs @ p # ys) None" and "distinct (xs @ p # ys)" and "a \<notin> set (xs @ p # ys)"
    and "a \<in> dom m"
  shows "dlink (placed m p a ys) None (xs @ p # a # ys) None"
proof (cases ys)
  case Nil
  then show ?thesis using assms by (auto simp: placed_def)
next
  case (Cons y ys')
  then show ?thesis using assms by (auto simp: placed_def)
qed

lemma placed_payload:
  assumes "dlink m None (xs @ p # ys) None" and "distinct (xs @ p # ys)" and "a \<notin> set (xs @ p # ys)"
    and "a \<in> dom m"
  shows "payload (placed m p a ys) = payload m"
  using assms by (cases ys) (auto simp: placed_def payload_def fun_eq_iff)

lemma link_behind_placed:
  assumes "dlink m None (xs @ p # ys) None" and "distinct (xs @ p # ys)" and "a \<notin> set (xs @ p # ys)"
    and "a \<in> dom m"
  shows "link_behind m p a = Inr (placed m p a ys)"
proof (cases ys)
  case Nil
  then show ?thesis using assms by (auto simp: placed_def link_behind_def fun_upd_twist)
next
  case (Cons y ys')
  then show ?thesis using assms by (auto simp: placed_def link_behind_def fun_upd_twist)
qed

section \<open>Consistency checks\<close>

(* logs/lib/contextutils.hpp 84-93: contains_loops *)
partial_function (option) contains_loops :: "store \<Rightarrow> ptr \<Rightarrow> nat set \<Rightarrow> bool result option" where
  "contains_loops m p processed = (case p of
     None \<Rightarrow> Some (Inr False)
   | Some a \<Rightarrow> if a \<in> processed then Some (Inr True) else (case m a of
       None \<Rightarrow> Some (Inl Undefined)
     | Some c \<Rightarrow> contains_loops m (m_next c) (insert a processed)))"

declare contains_loops.simps [code]

text \<open>\<open>i->next() && i->next()->prev() != i\<close>, and the same the other way round.\<close>

definition link_broken :: "store \<Rightarrow> nat \<Rightarrow> ptr \<Rightarrow> (context_base \<Rightarrow> ptr) \<Rightarrow> bool result" where
  "link_broken m a q back_link =
     (if q = None then Inr False else rbind (get_ctx m q) (\<lambda>c. Inr (back_link c \<noteq> Some a)))"

(* logs/lib/contextutils.hpp 95-102: contains_broken_links *)
partial_function (option) contains_broken_links :: "store \<Rightarrow> ptr \<Rightarrow> bool result option" where
  "contains_broken_links m p = (case p of
     None \<Rightarrow> Some (Inr False)
   | Some a \<Rightarrow> (case m a of
       None \<Rightarrow> Some (Inl Undefined)
     | Some c \<Rightarrow> (case link_broken m a (m_next c) m_prev of
         Inl e \<Rightarrow> Some (Inl e)
       | Inr v \<Rightarrow> if v then Some (Inr False) else (case link_broken m a (m_prev c) m_next of
           Inl e \<Rightarrow> Some (Inl e)
         | Inr w \<Rightarrow> if w then Some (Inr False) else contains_broken_links m (m_next c)))))"

declare contains_broken_links.simps [code]

(* logs/lib/contextutils.hpp 104-107: is_valid_tree *)
definition is_valid_tree :: "store \<Rightarrow> ptr \<Rightarrow> bool result option" where
  "is_valid_tree m root = obind (contains_loops m root {}) (\<lambda>l.
     if l then Some (Inr False)
     else obind (contains_broken_links m root) (\<lambda>b. Some (Inr (\<not> b))))"

text \<open>\<open>assert(is_valid_tree(&root_context()))\<close>: not evaluated in a release build.\<close>

definition assert_valid_tree :: "build \<Rightarrow> store \<Rightarrow> unit result option" where
  "assert_valid_tree b m = (case b of
     Release \<Rightarrow> Some (Inr ())
   | Debug \<Rightarrow> obind (is_valid_tree m (Some root_context)) (\<lambda>v. Some (cassert b v)))"

lemma contains_loops_dlink:
  "dlink m prv xs None \<Longrightarrow> distinct xs \<Longrightarrow> set xs \<inter> P = {} \<Longrightarrow>
    contains_loops m (hdp xs None) P = Some (Inr False)"
proof (induction xs arbitrary: prv P)
  case Nil
  then show ?case by (simp add: contains_loops.simps)
next
  case (Cons a xs)
  then obtain c where c: "m a = Some c" "m_next c = hdp xs None" "dlink m (Some a) xs None" by auto
  with Cons.IH [OF c(3), of "insert a P"] Cons.prems(2,3) show ?case
    by (simp add: contains_loops.simps [of m "Some a"])
qed

lemma link_broken_dlink:
  "m a = Some c \<Longrightarrow> back_link c = Some b \<Longrightarrow> link_broken m b (Some a) back_link = Inr False"
  by (simp add: link_broken_def)

lemma link_broken_None [simp]: "link_broken m a None bl = Inr False"
  by (simp add: link_broken_def)

lemma contains_broken_links_dlink:
  assumes "dlink m prv xs None" and "\<And>q. prv = Some q \<Longrightarrow> \<exists>c. m q = Some c \<and> m_next c = hdp xs None"
  shows "contains_broken_links m (hdp xs None) = Some (Inr False)"
  using assms
proof (induction xs arbitrary: prv)
  case Nil
  then show ?case by (simp add: contains_broken_links.simps)
next
  case (Cons a xs)
  then obtain c where c: "m a = Some c" "m_prev c = prv" "m_next c = hdp xs None"
    "dlink m (Some a) xs None" by auto
  then have rest: "contains_broken_links m (hdp xs None) = Some (Inr False)"
    by (intro Cons.IH [of "Some a"]) auto
  have "link_broken m a (m_next c) m_prev = Inr False" using c by (cases xs) (auto simp: link_broken_def)
  moreover have "link_broken m a (m_prev c) m_next = Inr False"
    using c(2) Cons.prems(2) by (cases prv) (auto simp: link_broken_def)
  ultimately show ?case using c rest by (simp add: contains_broken_links.simps [of m "Some a"])
qed

lemma is_valid_tree_linked:
  assumes "linked m xs"
  shows "is_valid_tree m (Some root_context) = Some (Inr True)"
proof -
  have "contains_loops m (Some root_context) {} = Some (Inr False)"
    using contains_loops_dlink [of m None xs "{}"] assms by (simp add: linked_def)
  moreover have "contains_broken_links m (Some root_context) = Some (Inr False)"
    using contains_broken_links_dlink [of m None xs] assms by (simp add: linked_def)
  ultimately show ?thesis by (simp add: is_valid_tree_def)
qed

lemma assert_valid_tree_linked: "linked m xs \<Longrightarrow> assert_valid_tree b m = Some (Inr ())"
  by (cases b) (simp_all add: assert_valid_tree_def is_valid_tree_linked)

lemma contains_broken_links_False:
  assumes "contains_broken_links m p = Some r"
  shows "r \<noteq> Inr True"
  by (rule contains_broken_links.raw_induct [where P = "\<lambda>m p r. r \<noteq> Inr True", OF _ assms])
    (auto split: option.splits sum.splits if_splits)

section \<open>Construction and destruction\<close>

(* logs/lib/logs.cpp 149-153: context_base::context_base, linking before the contexts are organized *)
definition link_first :: "store \<Rightarrow> nat \<Rightarrow> store result" where
  "link_first m a =
     rbind (get_ctx m (Some root_context)) (\<lambda>rc.
     rbind (set_next m (Some a) (m_next rc)) (\<lambda>m1.
     rbind (set_prev m1 (Some a) (Some root_context)) (\<lambda>m2.
     rbind (set_next m2 (Some root_context) (Some a)) (\<lambda>m3.
     rbind (get_ctx m3 (Some a)) (\<lambda>c.
     if m_next c \<noteq> None then set_prev m3 (m_next c) (Some a) else Inr m3)))))"

(* logs/lib/logs.cpp 137-156: context_base::context_base(parent, name) *)
definition ctx_ctor :: "build \<Rightarrow> nat \<Rightarrow> string \<Rightarrow> nat \<Rightarrow> logs \<Rightarrow> logs result option" where
  "ctx_ctor b parent name this L =
     obind (Some (cassert b (this \<noteq> root_context))) (\<lambda>_.
     let c = \<lparr>m_parent = Some parent, m_next = None, m_prev = None, m_lvl = level_unset,
           m_inherited_level = level_unset, m_name = name\<rparr>;
         m = (contexts L)(this \<mapsto> c) in
     if g_organized L then
       Some (rbind (link_behind m parent this) (\<lambda>m1.
         rbind (get_ctx m1 (Some parent)) (\<lambda>pc.
         rbind (get_ctx m1 (Some this)) (\<lambda>c1.
         Inr (L\<lparr>contexts := m1(this \<mapsto> c1\<lparr>m_inherited_level := effective_level pc\<rparr>)\<rparr>)))))
     else
       obind (assert_valid_tree b m) (\<lambda>_.
       obind (Some (link_first m this)) (\<lambda>m1.
       obind (assert_valid_tree b m1) (\<lambda>_. Some (Inr (L\<lparr>contexts := m1\<rparr>))))))"

(* logs/lib/logs.cpp 134-135: context_base::context_base(name) *)
definition ctx_ctor_root :: "build \<Rightarrow> string \<Rightarrow> nat \<Rightarrow> logs \<Rightarrow> logs result option" where
  "ctx_ctor_root b name this L = ctx_ctor b root_context name this L"

text \<open>A \<open>context\<close> keeps its name, or the object the name is a view of, beside the base.\<close>

(* logs/include/upp/logs.hpp 127-129: context(const context_base&, T) *)
definition context_ctor :: "('t \<Rightarrow> string) \<Rightarrow> build \<Rightarrow> nat \<Rightarrow> 't \<Rightarrow> nat \<Rightarrow> logs \<Rightarrow> logs result option" where
  "context_ctor to_view b parent name this L = ctx_ctor b parent (to_view name) this L"

(* logs/include/upp/logs.hpp 123-125: context(T) *)
definition context_ctor_root :: "('t \<Rightarrow> string) \<Rightarrow> build \<Rightarrow> 't \<Rightarrow> nat \<Rightarrow> logs \<Rightarrow> logs result option" where
  "context_ctor_root to_view b name this L = ctx_ctor_root b (to_view name) this L"

text \<open>The two specialisations keep no name of their own.\<close>

(* logs/include/upp/logs.hpp 138-146: context<strlit> *)
definition context_ctor_strlit :: "build \<Rightarrow> nat \<Rightarrow> string \<Rightarrow> nat \<Rightarrow> logs \<Rightarrow> logs result option" where
  "context_ctor_strlit b parent name this L = ctx_ctor b parent (strlit_view name) this L"

(* logs/include/upp/logs.hpp 132-136: context<std::string_view> *)
definition context_ctor_view :: "build \<Rightarrow> nat \<Rightarrow> string \<Rightarrow> nat \<Rightarrow> logs \<Rightarrow> logs result option" where
  "context_ctor_view = ctx_ctor"

text \<open>The library's own contexts.  Both are constants of a header, so each translation unit that includes
  it has objects of its own.\<close>

(* logs/include/upp/logs.hpp 164-164: upp_context *)
definition upp_context :: "build \<Rightarrow> nat \<Rightarrow> logs \<Rightarrow> logs result option" where
  "upp_context b this L = context_ctor (\<lambda>s. s) b root_context ''upp'' this L"

(* codec/lib/logger.hpp 7-7: LOGGER *)
definition codec_logger :: "build \<Rightarrow> nat \<Rightarrow> nat \<Rightarrow> logs \<Rightarrow> logs result option" where
  "codec_logger b upp_ctx this L = context_ctor (\<lambda>s. s) b upp_ctx ''codec'' this L"

(* logs/lib/logs.cpp 173-175: context_base::~context_base, clearing the children's parent *)
partial_function (option) clear_parents :: "nat \<Rightarrow> ptr \<Rightarrow> store \<Rightarrow> store result option" where
  "clear_parents this p m = (case p of
     None \<Rightarrow> Some (Inr m)
   | Some a \<Rightarrow> (case m a of
       None \<Rightarrow> Some (Inl Undefined)
     | Some c \<Rightarrow> clear_parents this (m_next c)
         (if m_parent c = Some this then m(a \<mapsto> c\<lparr>m_parent := None\<rparr>) else m)))"

declare clear_parents.simps [code]

(* logs/lib/logs.cpp 161-179: context_base::~context_base *)
definition ctx_dtor :: "build \<Rightarrow> nat \<Rightarrow> logs \<Rightarrow> logs result option" where
  "ctx_dtor b this L =
     obind (Some (get_ctx (contexts L) (Some this))) (\<lambda>c.
     if m_prev c = None then
       Some (rbind (cassert b (this = root_context)) (\<lambda>_. Inr (L\<lparr>contexts := (contexts L)(this := None)\<rparr>)))
     else
       obind (if b = Debug then clear_parents this (Some root_context) (contexts L)
              else Some (Inr (contexts L))) (\<lambda>m.
       obind (Some (unlink m this)) (\<lambda>m1. Some (Inr (L\<lparr>contexts := m1(this := None)\<rparr>)))))"

text \<open>Where the constructor puts a new context.\<close>

fun insert_behind :: "nat \<Rightarrow> nat \<Rightarrow> nat list \<Rightarrow> nat list" where
  "insert_behind p a [] = []"
| "insert_behind p a (x # xs) = (if x = p then x # a # xs else x # insert_behind p a xs)"

lemma insert_behind_split: "p \<notin> set xs \<Longrightarrow> insert_behind p a (xs @ p # ys) = xs @ p # a # ys"
  by (induction xs) auto

lemma link_first_placed:
  assumes "dlink m None (root_context # ys) None" and "distinct (root_context # ys)"
    and "a \<notin> set (root_context # ys)" and "a \<in> dom m"
  shows "link_first m a = Inr (placed m root_context a ys)"
proof (cases ys)
  case Nil
  then show ?thesis using assms by (auto simp: placed_def link_first_def fun_upd_twist)
next
  case (Cons y ys')
  then show ?thesis using assms by (auto simp: placed_def link_first_def fun_upd_twist)
qed

lemma linked_dom: "linked m xs \<Longrightarrow> set xs \<subseteq> dom m"
  using dlink_dom unfolding linked_def by blast

lemma linked_upd_other: "a \<notin> set xs \<Longrightarrow> linked (m(a := v)) xs = linked m xs"
  by (simp add: linked_def)

lemma linked_split:
  assumes "linked m xs" and "p \<in> set xs"
  obtains A B where "xs = A @ p # B" "p \<notin> set A"
  using assms(2) by (auto dest: split_list_first)

lemma linked_placed:
  assumes "linked m (A @ p # B)" and "a \<notin> set (A @ p # B)" and "a \<in> dom m"
  shows "linked (placed m p a B) (A @ p # a # B)"
  using assms placed_dlink [of m A p B a] by (cases A) (auto simp: linked_def)

lemma payload_fun:
  assumes "payload m = payload m'" and "m a = Some c"
  obtains c' where "m' a = Some c'" "m_parent c' = m_parent c" "m_lvl c' = m_lvl c"
    "m_inherited_level c' = m_inherited_level c" "m_name c' = m_name c"
proof -
  have "payload m' a = payload m a" using assms(1) by simp
  with assms(2) obtain c' where c': "m' a = Some c'"
    "c'\<lparr>m_next := None, m_prev := None\<rparr> = c\<lparr>m_next := None, m_prev := None\<rparr>"
    by (auto simp: payload_def)
  then show thesis using that [OF c'(1)] by (cases c; cases c') simp
qed

lemma payload_inherited:
  "payload (m(a \<mapsto> c)) b = (if a = b then Some (c\<lparr>m_next := None, m_prev := None\<rparr>) else payload m b)"
  by (simp add: payload_def)

lemma dlink_same_links:
  assumes "dlink m prv xs nxt"
    and "\<And>a c. a \<in> set xs \<Longrightarrow> m a = Some c \<Longrightarrow> \<exists>c'. m' a = Some c' \<and> m_next c' = m_next c \<and> m_prev c' = m_prev c"
  shows "dlink m' prv xs nxt"
  using assms by (induction xs arbitrary: prv) fastforce+

lemma linked_same_links:
  assumes "linked m xs"
    and "\<And>a c. a \<in> set xs \<Longrightarrow> m a = Some c \<Longrightarrow> \<exists>c'. m' a = Some c' \<and> m_next c' = m_next c \<and> m_prev c' = m_prev c"
  shows "linked m' xs"
  using assms dlink_same_links [of m None xs None m'] by (auto simp: linked_def)

lemma ctx_ctor_spec:
  assumes "linked (contexts L) xs" and "this \<notin> dom (contexts L)" and "parent \<in> set xs"
  shows "\<exists>L' c. ctx_ctor b parent name this L = Some (Inr L') \<and> g_organized L' = g_organized L \<and>
    linked (contexts L') (insert_behind (if g_organized L then parent else root_context) this xs) \<and>
    contexts L' this = Some c \<and> m_parent c = Some parent \<and> m_name c = name \<and>
    effective_level c = (if g_organized L then effective_level (the (contexts L parent)) else level_unset) \<and>
    (\<forall>a. a \<noteq> this \<longrightarrow> payload (contexts L') a = payload (contexts L) a)"
proof -
  let ?p = "if g_organized L then parent else root_context"
  define c where "c = \<lparr>m_parent = Some parent, m_next = None, m_prev = None, m_lvl = level_unset,
    m_inherited_level = level_unset, m_name = name\<rparr>"
  define m where "m = (contexts L)(this \<mapsto> c)"
  have root: "root_context \<in> set xs" using assms(1) by (cases xs) (auto simp: linked_def)
  have dom: "set xs \<subseteq> dom (contexts L)" using assms(1) by (rule linked_dom)
  with assms(2) have new: "this \<notin> set xs" "this \<noteq> root_context" "this \<noteq> parent"
    using root assms(3) by auto
  have lm: "linked m xs" using assms(1) new by (simp add: m_def linked_upd_other)
  have "?p \<in> set xs" using root assms(3) by simp
  with lm obtain A B where xs: "xs = A @ ?p # B" "?p \<notin> set A" by (rule linked_split)
  have hyps: "dlink m None (A @ ?p # B) None" "distinct (A @ ?p # B)" "this \<notin> set (A @ ?p # B)" "this \<in> dom m"
    using lm xs new by (simp_all add: linked_def m_def)
  let ?m = "placed m ?p this B"
  have lm': "linked ?m (insert_behind ?p this xs)"
    using linked_placed [of m A ?p B this] lm xs hyps by (simp add: insert_behind_split)
  have pay: "payload ?m = payload m" by (rule placed_payload [OF hyps])
  then have pay': "a \<noteq> this \<Longrightarrow> payload ?m a = payload (contexts L) a" for a
    by (simp add: m_def payload_def)
  have mt: "m this = Some c" by (simp add: m_def)
  show ?thesis
  proof (cases "g_organized L")
    case True
    obtain pc where pc: "m parent = Some pc" "contexts L parent = Some pc"
      using dom assms(3) new by (auto simp: m_def)
    obtain c1 where c1: "?m this = Some c1" "m_parent c1 = Some parent" "m_lvl c1 = level_unset" "m_name c1 = name"
      by (rule payload_fun [OF pay [symmetric] mt]) (simp add: c_def)
    obtain pc1 where pc1: "?m parent = Some pc1" "effective_level pc1 = effective_level pc"
      by (rule payload_fun [OF pay [symmetric] pc(1)]) (simp add: effective_level_def)
    let ?m' = "?m(this \<mapsto> c1\<lparr>m_inherited_level := effective_level pc\<rparr>)"
    have "link_behind m parent this = Inr ?m" using link_behind_placed [OF hyps] True by simp
    then have "ctx_ctor b parent name this L = Some (Inr (L\<lparr>contexts := ?m'\<rparr>))"
      using True new pc1 c1 unfolding ctx_ctor_def by (simp add: m_def c_def)
    moreover have "linked ?m' (insert_behind ?p this xs)"
      by (rule linked_same_links [OF lm']) (use c1(1) in auto)
    moreover have "effective_level (c1\<lparr>m_inherited_level := effective_level pc\<rparr>) = effective_level pc"
      using c1(3) by (simp add: effective_level_def)
    moreover have "payload ?m' a = payload (contexts L) a" if "a \<noteq> this" for a
      using that pay' [OF that] by (simp add: payload_inherited)
    ultimately show ?thesis using True c1 pc(2)
      by (intro exI [of _ "L\<lparr>contexts := ?m'\<rparr>"]
          exI [of _ "c1\<lparr>m_inherited_level := effective_level pc\<rparr>"]) simp
  next
    case False
    have "A = []" using xs False lm by (cases A) (auto simp: linked_def)
    with hyps False have "link_first m this = Inr ?m" by (intro trans [OF link_first_placed]) auto
    moreover have "assert_valid_tree b m = Some (Inr ())" "assert_valid_tree b ?m = Some (Inr ())"
      using lm lm' by (blast intro: assert_valid_tree_linked)+
    ultimately have "ctx_ctor b parent name this L = Some (Inr (L\<lparr>contexts := ?m\<rparr>))"
      using False new unfolding ctx_ctor_def by (simp add: m_def [symmetric] c_def [symmetric])
    moreover obtain c1 where c1: "?m this = Some c1" "m_parent c1 = Some parent" "m_lvl c1 = level_unset"
      "m_inherited_level c1 = level_unset" "m_name c1 = name"
      by (rule payload_fun [OF pay [symmetric] mt]) (simp add: c_def)
    ultimately show ?thesis using False lm' pay' by (auto simp: effective_level_def)
  qed
qed

text \<open>C20. Constructing a context puts it into the list behind its parent, or behind the root while the
  contexts are not organized yet, and leaves every other context as it was; once they are organized it
  starts with its parent's effective level.  The checks of a debug build pass.\<close>

theorem ctx_ctor_links:
  assumes "linked (contexts L) xs" and "this \<notin> dom (contexts L)" and "parent \<in> set xs"
  shows "\<exists>L' c. ctx_ctor b parent name this L = Some (Inr L') \<and> g_organized L' = g_organized L \<and>
    linked (contexts L') (insert_behind (if g_organized L then parent else root_context) this xs) \<and>
    contexts L' this = Some c \<and> m_parent c = Some parent \<and> m_name c = name \<and>
    effective_level c = (if g_organized L then effective_level (the (contexts L parent)) else level_unset) \<and>
    (\<forall>a. a \<noteq> this \<longrightarrow> payload (contexts L') a = payload (contexts L) a)"
  using assms by (rule ctx_ctor_spec)

lemma logs_init_linked: "linked (contexts logs_init) [root_context]"
  by (simp add: linked_def logs_init_def root_ctx_def)

theorem ctx_ctor_links_witness:
  "\<exists>L. ctx_ctor Debug root_context ''app'' 7 logs_init = Some (Inr L) \<and>
    linked (contexts L) [root_context, 7]"
  using ctx_ctor_links [OF logs_init_linked, of 7 root_context Debug "''app''"]
  by (auto simp: logs_init_def root_context_def)

definition unparented :: "nat \<Rightarrow> context_base \<Rightarrow> context_base" where
  "unparented this c = (if m_parent c = Some this then c\<lparr>m_parent := None\<rparr> else c)"

lemma unparented_simps [simp]:
  "m_next (unparented this c) = m_next c" "m_prev (unparented this c) = m_prev c"
  "m_parent (unparented this c) \<noteq> Some this"
  by (simp_all add: unparented_def)

lemma clear_parents_dlink:
  assumes "dlink m prv xs None" and "distinct xs"
  shows "\<exists>m'. clear_parents this (hdp xs None) m = Some (Inr m') \<and>
    (\<forall>a. m' a = (if a \<in> set xs then map_option (unparented this) (m a) else m a))"
  using assms
proof (induction xs arbitrary: prv m)
  case Nil
  then show ?case by (simp add: clear_parents.simps)
next
  case (Cons a xs)
  then obtain c where c: "m a = Some c" "m_next c = hdp xs None" "dlink m (Some a) xs None" "a \<notin> set xs"
    "distinct xs" by auto
  let ?m = "m(a \<mapsto> unparented this c)"
  have "clear_parents this (hdp (a # xs) None) m = clear_parents this (hdp xs None) ?m"
    using c(1,2) by (simp add: clear_parents.simps [of this "Some a"] unparented_def fun_upd_idem)
  moreover have "dlink ?m (Some a) xs None" using c(3,4) by simp
  ultimately show ?case using Cons.IH [of ?m "Some a"] c by fastforce
qed

lemma payload_fun_at:
  assumes "payload m a = payload m' a" and "m a = Some c"
  obtains c' where "m' a = Some c'" "m_parent c' = m_parent c" "m_lvl c' = m_lvl c"
    "m_inherited_level c' = m_inherited_level c" "m_name c' = m_name c"
proof -
  obtain c' where c': "m' a = Some c'" "c\<lparr>m_next := None, m_prev := None\<rparr> = c'\<lparr>m_next := None, m_prev := None\<rparr>"
    using assms by (cases "m' a") (auto simp: payload_def)
  from arg_cong [OF c'(2), of m_parent] arg_cong [OF c'(2), of m_lvl]
    arg_cong [OF c'(2), of m_inherited_level] arg_cong [OF c'(2), of m_name]
  show thesis by (intro that [OF c'(1)]) simp_all
qed

text \<open>In a debug build the destructor clears the parent of its children.\<close>

abbreviation orphaned :: "build \<Rightarrow> nat \<Rightarrow> store \<Rightarrow> store" where
  "orphaned b this m \<equiv> (\<lambda>a. map_option (if b = Debug then unparented this else id) (m a))"

lemma orphaned_fields:
  "m_lvl ((if b = Debug then unparented this else id) c) = m_lvl c"
  "m_inherited_level ((if b = Debug then unparented this else id) c) = m_inherited_level c"
  "m_name ((if b = Debug then unparented this else id) c) = m_name c"
  "m_parent ((if b = Debug then unparented this else id) c) =
    (if b = Debug \<and> m_parent c = Some this then None else m_parent c)"
  by (auto simp: unparented_def)

lemma ctx_dtor_full:
  assumes "linked (contexts L) (A @ this # B)" and "this \<noteq> root_context"
  shows "\<exists>L'. ctx_dtor b this L = Some (Inr L') \<and> linked (contexts L') (A @ B) \<and>
    contexts L' this = None \<and>
    (\<forall>a \<in> set (A @ B). payload (contexts L') a = payload (orphaned b this (contexts L)) a) \<and>
    dom (contexts L') = dom (contexts L) - {this} \<and> g_organized L' = g_organized L"
proof -
  let ?m = "contexts L" and ?xs = "A @ this # B"
  obtain A' x where A: "A = A' @ [x]" using assms by (cases A rule: rev_cases) (auto simp: linked_def)
  have link: "dlink ?m None ?xs None" "distinct ?xs" "hdp ?xs None = Some root_context"
    using assms(1) by (simp_all add: linked_def)
  then obtain c where c: "?m this = Some c" "m_prev c \<noteq> None" using A by auto
  from clear_parents_dlink [OF link(1,2)] obtain m1 where
    m1: "clear_parents this (Some root_context) ?m = Some (Inr m1)"
    "\<And>a. m1 a = (if a \<in> set ?xs then map_option (unparented this) (?m a) else ?m a)"
    using link(3) by auto
  define m where "m = (if b = Debug then m1 else ?m)"
  have dm: "dlink m None ?xs None"
  proof (cases "b = Debug")
    case True
    show ?thesis by (rule dlink_same_links [OF link(1)]) (use True m1(2) in \<open>auto simp: m_def\<close>)
  qed (use link(1) in \<open>simp add: m_def\<close>)
  then have "dlink m None (A' @ [x] @ this # B) None" "distinct (A' @ [x] @ this # B)"
    using A link(2) by simp_all
  from unlink_dlink [OF this] obtain m' where
    m': "unlink m this = Inr m'" "dlink m' None (A @ B) None" "payload m' = payload m" using A by auto
  have "ctx_dtor b this L = Some (Inr (L\<lparr>contexts := m'(this := None)\<rparr>))"
    using c m1(1) m'(1) by (cases b) (auto simp: ctx_dtor_def m_def)
  moreover have "linked (m'(this := None)) (A @ B)"
    using m'(2) link(2,3) A by (auto simp: linked_def)
  moreover have "payload (m'(this := None)) a = payload (orphaned b this ?m) a" if "a \<in> set (A @ B)" for a
  proof -
    have "a \<noteq> this" using that link(2) by auto
    then have "payload (m'(this := None)) a = payload m' a" by (simp add: payload_def)
    also have "\<dots> = payload m a" using m'(3) by simp
    also have "\<dots> = payload (orphaned b this ?m) a"
      using that m1(2) [of a] by (auto simp: m_def payload_def option.map_id)
    finally show ?thesis .
  qed
  moreover have "dom (m'(this := None)) = dom ?m - {this}"
  proof (rule set_eqI)
    fix a
    have "m' a = None \<longleftrightarrow> m a = None"
      using fun_cong [OF m'(3), of a] by (cases "m' a"; cases "m a") (auto simp: payload_def)
    moreover have "m a = None \<longleftrightarrow> ?m a = None" using m1(2) [of a] by (simp add: m_def)
    ultimately show "a \<in> dom (m'(this := None)) \<longleftrightarrow> a \<in> dom ?m - {this}"
      by (simp add: domIff)
  qed
  ultimately show ?thesis by (intro exI [of _ "L\<lparr>contexts := m'(this := None)\<rparr>"]) simp
qed

lemma ctx_dtor_spec:
  assumes "linked (contexts L) (A @ this # B)" and "this \<noteq> root_context"
  shows "\<exists>L'. ctx_dtor b this L = Some (Inr L') \<and> linked (contexts L') (A @ B) \<and>
    contexts L' this = None \<and>
    (\<forall>a \<in> set (A @ B). payload (contexts L') a = payload (orphaned b this (contexts L)) a)"
  using ctx_dtor_full [OF assms, of b] by (elim exE conjE) (intro exI conjI, assumption+)

text \<open>C21. Destroying a context takes it out of the list and keeps the others in order; in a debug build no
  remaining context names it as its parent.\<close>

theorem ctx_dtor_unlinks:
  assumes "linked (contexts L) (A @ this # B)" and "this \<noteq> root_context"
  shows "\<exists>L'. ctx_dtor b this L = Some (Inr L') \<and> linked (contexts L') (A @ B) \<and>
    contexts L' this = None \<and>
    (b = Debug \<longrightarrow> (\<forall>a \<in> set (A @ B). parent_of (contexts L') a \<noteq> Some this))"
proof -
  from ctx_dtor_spec [OF assms, of b] obtain L' where L': "ctx_dtor b this L = Some (Inr L')"
      "linked (contexts L') (A @ B)" "contexts L' this = None"
    and pay: "\<And>a. a \<in> set (A @ B) \<Longrightarrow> payload (contexts L') a = payload (orphaned b this (contexts L)) a" by blast
  have "parent_of (contexts L') a \<noteq> Some this" if a: "b = Debug" "a \<in> set (A @ B)" for a
  proof (cases "contexts L' a")
    case (Some c)
    from payload_fun_at [OF pay [OF a(2)] Some] obtain c' where
      "orphaned b this (contexts L) a = Some c'" "m_parent c' = m_parent c" by blast
    then show ?thesis using a(1) Some by (auto simp: parent_of_def)
  qed (simp add: parent_of_def)
  then show ?thesis using L' by blast
qed

theorem ctx_dtor_unlinks_witness:
  "\<exists>L L'. ctx_ctor Debug root_context ''app'' 7 logs_init = Some (Inr L) \<and> ctx_dtor Debug 7 L = Some (Inr L') \<and>
    linked (contexts L') [root_context]"
proof -
  let ?rc = "root_ctx\<lparr>m_next := Some 7\<rparr>"
  let ?c = "\<lparr>m_parent = Some root_context, m_next = None, m_prev = Some root_context, m_lvl = level_unset,
    m_inherited_level = level_unset, m_name = ''app''\<rparr>"
  let ?L = "\<lparr>contexts = [root_context \<mapsto> ?rc, 7 \<mapsto> ?c], g_organized = False\<rparr>"
  have l: "linked (contexts ?L) [root_context, 7]"
    by (simp add: linked_def root_ctx_def root_context_def)
  have "linked ([root_context \<mapsto> root_ctx, 7 \<mapsto> ?c\<lparr>m_prev := None\<rparr>]) [root_context]"
    by (simp add: linked_def root_ctx_def root_context_def)
  then have "ctx_ctor Debug root_context ''app'' 7 logs_init = Some (Inr ?L)"
    using l by (simp add: ctx_ctor_def assert_valid_tree_linked logs_init_def link_first_def root_ctx_def
        root_context_def fun_upd_twist)
  moreover have "(7 :: nat) \<noteq> root_context" by (simp add: root_context_def)
  ultimately show ?thesis using ctx_dtor_unlinks [of ?L "[root_context]" 7 "[]" Debug] l by auto
qed

text \<open>The check for broken links never reports one: every path through \<open>contains_broken_links\<close>
  returns false, also for a list whose back links are wrong.\<close>

theorem broken_links_unreported:
  "contains_broken_links m p \<noteq> Some (Inr True) \<and>
   (\<exists>m. \<not> linked m [root_context, 7] \<and> contains_broken_links m (Some root_context) = Some (Inr False) \<and>
      is_valid_tree m (Some root_context) = Some (Inr True))"
proof
  show "contains_broken_links m p \<noteq> Some (Inr True)"
    using contains_broken_links_False by blast
  let ?m = "[root_context \<mapsto> root_ctx\<lparr>m_next := Some 7\<rparr>, 7 \<mapsto> root_ctx]"
  have "contains_broken_links ?m (Some root_context) = Some (Inr False)"
    by (simp add: contains_broken_links.simps [of _ "Some _"] link_broken_def root_ctx_def root_context_def)
  moreover from this have "is_valid_tree ?m (Some root_context) = Some (Inr True)"
    by (simp add: is_valid_tree_def contains_loops.simps root_ctx_def root_context_def)
  moreover have "\<not> linked ?m [root_context, 7]" by (simp add: linked_def root_ctx_def root_context_def)
  ultimately show "\<exists>m. \<not> linked m [root_context, 7] \<and>
      contains_broken_links m (Some root_context) = Some (Inr False) \<and>
      is_valid_tree m (Some root_context) = Some (Inr True)" by blast
qed

end
