(* ===== verification/Logs_Organize.thy ===== *)
theory Logs_Organize
  imports Logs_Context "HOL-Library.Multiset"
begin

text \<open>
  The reordering of \<open>logs/lib/contextutils.hpp\<close>: contexts that were constructed in any order are
  rearranged so that the descendants of each context follow it.  The loops move contexts inside the
  doubly linked list while they walk it.  The first part translates them, the second gives the
  list of contexts each of them leaves, the last the order that results.
\<close>

section \<open>The loops\<close>

(* logs/lib/contextutils.hpp 37-47: organize_next_child, moving a child behind its parent *)
definition relocate :: "build \<Rightarrow> store \<Rightarrow> nat \<Rightarrow> nat \<Rightarrow> store result" where
  "relocate b m parent cur =
     rbind (get_ctx m (Some cur)) (\<lambda>c.
     rbind (cassert b (m_prev c \<noteq> None)) (\<lambda>_.
     rbind (unlink m cur) (\<lambda>m1.
     rbind (get_ctx m1 (Some parent)) (\<lambda>pc.
     rbind (set_next m1 (Some cur) (m_next pc)) (\<lambda>m2.
     rbind (set_prev m2 (Some cur) (Some parent)) (\<lambda>m3.
     rbind (set_next m3 (Some parent) (Some cur)) (\<lambda>m4.
     rbind (get_ctx m4 (Some cur)) (\<lambda>c4.
     set_prev m4 (m_next c4) (Some cur)))))))))"

text \<open>The \<open>while (true)\<close> of \<open>organize_next_child\<close>, with the references \<open>pivot\<close> and \<open>cur\<close> as
  results.\<close>

partial_function (option) next_child_loop ::
    "build \<Rightarrow> nat \<Rightarrow> ptr \<Rightarrow> ptr \<Rightarrow> store \<Rightarrow> (ptr \<times> ptr \<times> store) result option" where
  "next_child_loop b parent pivot cur m = (case cur of
     None \<Rightarrow> Some (Inr (pivot, None, m))
   | Some a \<Rightarrow> (case get_ctx m cur of
       Inl e \<Rightarrow> Some (Inl e)
     | Inr c \<Rightarrow>
       if m_parent c = Some parent then (case get_ctx m (Some parent) of
           Inl e \<Rightarrow> Some (Inl e)
         | Inr pc \<Rightarrow>
           if m_next pc = cur then Some
             (rbind (cassert b (cur = pivot)) (\<lambda>_.
              rbind (get_ctx m pivot) (\<lambda>v. Inr (m_next v, m_next v, m))))
           else (case relocate b m parent a of
               Inl e \<Rightarrow> Some (Inl e)
             | Inr m' \<Rightarrow> next_child_loop b parent pivot (m_next c) m'))
       else next_child_loop b parent pivot (m_next c) m))"

declare next_child_loop.simps [code]

(* logs/lib/contextutils.hpp 21-52: organize_next_child *)
definition organize_next_child ::
    "build \<Rightarrow> ptr \<Rightarrow> ptr \<Rightarrow> ptr \<Rightarrow> store \<Rightarrow> (ptr \<times> ptr \<times> store) result option" where
  "organize_next_child b parent pivot cur m =
     obind (Some (rbind (cassert b (parent \<noteq> None)) (\<lambda>_.
       rbind (cassert b (pivot \<noteq> None)) (\<lambda>_. cassert b (cur \<noteq> None))))) (\<lambda>_.
     case parent of
       None \<Rightarrow> Some (Inl Undefined)
     | Some p \<Rightarrow> next_child_loop b p pivot cur m)"

(* logs/lib/contextutils.hpp 62-70: organize_children *)
partial_function (option) organize_children_loop ::
    "build \<Rightarrow> ptr \<Rightarrow> ptr \<Rightarrow> ptr \<Rightarrow> store \<Rightarrow> (ptr \<times> store) result option" where
  "organize_children_loop b parent pivot cur m = (case organize_next_child b parent pivot cur m of
     None \<Rightarrow> None
   | Some r \<Rightarrow> (case r of
       Inl e \<Rightarrow> Some (Inl e)
     | Inr s \<Rightarrow> if fst (snd s) = None then Some (Inr (fst s, snd (snd s)))
         else organize_children_loop b parent (fst s) (fst (snd s)) (snd (snd s))))"

declare organize_children_loop.simps [code]

definition organize_children :: "build \<Rightarrow> ptr \<Rightarrow> ptr \<Rightarrow> store \<Rightarrow> (ptr \<times> store) result option" where
  "organize_children b parent pivot m = organize_children_loop b parent pivot pivot m"

partial_function (option) organize_loop :: "build \<Rightarrow> ptr \<Rightarrow> ptr \<Rightarrow> store \<Rightarrow> store result option" where
  "organize_loop b parent pivot m =
     (if pivot = None \<or> parent = None then Some (Inr m)
      else (case organize_children b parent pivot m of
        None \<Rightarrow> None
      | Some r \<Rightarrow> (case r of
          Inl e \<Rightarrow> Some (Inl e)
        | Inr s \<Rightarrow> (case get_ctx (snd s) parent of
            Inl e \<Rightarrow> Some (Inl e)
          | Inr pc \<Rightarrow> organize_loop b (m_next pc) (fst s) (snd s)))))"

declare organize_loop.simps [code]

(* logs/lib/contextutils.hpp 72-82: organize *)
definition organize_from :: "build \<Rightarrow> ptr \<Rightarrow> store \<Rightarrow> store result option" where
  "organize_from b root m =
     obind (Some (cassert b (root \<noteq> None))) (\<lambda>_.
     obind (Some (get_ctx m root)) (\<lambda>rc. organize_loop b root (m_next rc) m))"

section \<open>The list each loop leaves\<close>

text \<open>A run that returns with the result described, or, in a debug build only, stops at an
  assertion.\<close>

definition returns :: "build \<Rightarrow> 'a result option \<Rightarrow> ('a \<Rightarrow> bool) \<Rightarrow> bool" where
  "returns b r P \<longleftrightarrow> (b = Debug \<and> r = Some (Inl Assertion)) \<or> (\<exists>x. r = Some (Inr x) \<and> P x)"

lemma returnsI: "r = Some (Inr x) \<Longrightarrow> P x \<Longrightarrow> returns b r P"
  by (simp add: returns_def)

lemma returns_Release: "returns Release r P \<Longrightarrow> \<exists>x. r = Some (Inr x) \<and> P x"
  by (simp add: returns_def)

lemma returns_mono: "returns b r P \<Longrightarrow> (\<And>x. P x \<Longrightarrow> Q x) \<Longrightarrow> returns b r Q"
  by (auto simp: returns_def)

text \<open>Two contiguous parts of the list: the contexts \<open>xs\<close>, nothing else in it.\<close>

definition chain :: "store \<Rightarrow> nat list \<Rightarrow> bool" where
  "chain m xs \<longleftrightarrow> distinct xs \<and> dlink m None xs None"

abbreviation child :: "(nat \<Rightarrow> ptr) \<Rightarrow> nat \<Rightarrow> nat \<Rightarrow> bool" where
  "child par p x \<equiv> par x = Some p"

text \<open>What moving the children of \<open>p\<close> does to the contexts behind \<open>p\<close>.\<close>

definition place :: "(nat \<Rightarrow> ptr) \<Rightarrow> nat \<Rightarrow> nat list \<Rightarrow> nat list" where
  "place par p E = (case E of [] \<Rightarrow> [] | e # E' \<Rightarrow>
     rev (filter (child par p) E') @ [x \<leftarrow> [e]. child par p x] @ [x \<leftarrow> E. \<not> child par p x])"

lemma relocate_chain:
  assumes "chain m (A @ p # B @ c # D)" and "B \<noteq> []"
  shows "\<exists>m'. relocate b m p c = Inr m' \<and> chain m' (A @ p # c # B @ D) \<and> payload m' = payload m"
proof -
  obtain X x where X: "A @ p # B = X @ [x]" by (cases "A @ p # B" rule: rev_cases) auto
  have eq: "A @ p # B @ Y = X @ [x] @ Y" for Y using arg_cong [OF X, of "\<lambda>l. l @ Y"] by simp
  have d: "dlink m None (X @ [x] @ c # D) None" "distinct (X @ [x] @ c # D)"
    using assms(1) unfolding chain_def eq by blast+
  from unlink_dlink [OF d] obtain m1 where
    m1: "unlink m c = Inr m1" "dlink m1 None (A @ p # B @ D) None" "payload m1 = payload m" "m1 c = m c"
    unfolding eq by blast
  have dist: "distinct (A @ p # B @ D)" "c \<notin> set (A @ p # B @ D)" using assms(1) by (auto simp: chain_def)
  from d(1) obtain cc where cc: "m c = Some cc" "m_prev cc \<noteq> None" by auto
  obtain b1 B' where B: "B = b1 # B'" using assms(2) by (cases B) auto
  from m1(2) B obtain pc bc where pc: "m1 p = Some pc" "m_next pc = Some b1" "m1 b1 = Some bc" by auto
  have "c \<noteq> p" "c \<noteq> b1" "b1 \<noteq> p" using dist B by auto
  then have "relocate b m p c = Inr (placed m1 p c (B @ D))"
    using m1(1,4) cc pc B by (auto simp: relocate_def placed_def fun_upd_twist)
  moreover have "c \<in> dom m1" using m1(4) cc by auto
  then have "dlink (placed m1 p c (B @ D)) None (A @ p # c # B @ D) None"
    "payload (placed m1 p c (B @ D)) = payload m1"
    using placed_dlink [of m1 A p "B @ D" c] placed_payload [of m1 A p "B @ D" c] m1(2) dist by blast+
  ultimately show ?thesis using m1(3) dist by (auto simp: chain_def)
qed

lemma next_child_loop_None [simp]: "next_child_loop b p pivot None m = Some (Inr (pivot, None, m))"
  by (simp add: next_child_loop.simps)

lemma chain_tail: "chain m (A @ c # D) \<Longrightarrow>
    \<exists>cc. m c = Some cc \<and> m_next cc = hdp D None \<and> m_prev cc = lastp None A"
  by (auto simp: chain_def)

text \<open>Contexts that are not children are walked over.\<close>

lemma next_child_loop_skip:
  assumes "chain m (X @ Z @ W)" and "\<And>z. z \<in> set Z \<Longrightarrow> \<not> child (parent_of m) p z"
  shows "next_child_loop b p pivot (hdp (Z @ W) None) m = next_child_loop b p pivot (hdp W None) m"
  using assms
proof (induction Z arbitrary: X)
  case Nil
  then show ?case by simp
next
  case (Cons z Z)
  then obtain c where c: "m z = Some c" "m_next c = hdp (Z @ W) None"
    using chain_tail [of m X z "Z @ W"] by auto
  have "m_parent c \<noteq> Some p" using Cons.prems(2) [of z] c(1) by (simp add: parent_of_def)
  then have "next_child_loop b p pivot (hdp ((z # Z) @ W) None) m =
      next_child_loop b p pivot (hdp (Z @ W) None) m"
    using c by (simp add: next_child_loop.simps [of b p pivot "Some z"])
  also have "\<dots> = next_child_loop b p pivot (hdp W None) m"
    using Cons.IH [of "X @ [z]"] Cons.prems by simp
  finally show ?case .
qed

text \<open>Once something stands between \<open>p\<close> and \<open>cur\<close>, the loop runs to the end of the list and moves
  every child it meets.\<close>

lemma next_child_loop_tail:
  assumes "chain m (A @ p # B @ D)" and "B \<noteq> []"
  shows "\<exists>m'. next_child_loop b p pivot (hdp D None) m = Some (Inr (pivot, None, m')) \<and>
    chain m' (A @ p # rev (filter (child (parent_of m) p) D) @ B @ [x \<leftarrow> D. \<not> child (parent_of m) p x]) \<and>
    payload m' = payload m"
  using assms
proof (induction D arbitrary: B m)
  case Nil
  then show ?case by simp
next
  case (Cons c D)
  obtain cc where cc: "m c = Some cc" "m_next cc = hdp D None"
    using chain_tail [of m "A @ p # B" c D] Cons.prems(1) by auto
  show ?case
  proof (cases "child (parent_of m) p c")
    case True
    obtain pc where pc: "m p = Some pc" "m_next pc = hdp B None"
      using chain_tail [of m A p "B @ c # D"] Cons.prems by (cases B) auto
    have "m_next pc \<noteq> Some c" using pc(2) Cons.prems by (cases B) (auto simp: chain_def)
    moreover from relocate_chain [OF Cons.prems] obtain m1 where
      m1: "relocate b m p c = Inr m1" "chain m1 (A @ p # (c # B) @ D)" "payload m1 = payload m" by auto
    ultimately have "next_child_loop b p pivot (hdp (c # D) None) m = next_child_loop b p pivot (hdp D None) m1"
      using True cc pc by (simp add: next_child_loop.simps [of b p pivot "Some c"] parent_of_def)
    with Cons.IH [OF m1(2)] m1(3) True payload_parent [OF m1(3)] show ?thesis by simp
  next
    case False
    then have "next_child_loop b p pivot (hdp (c # D) None) m = next_child_loop b p pivot (hdp D None) m"
      using cc by (simp add: next_child_loop.simps [of b p pivot "Some c"] parent_of_def)
    with Cons.IH [of m "B @ [c]"] Cons.prems False show ?thesis by simp
  qed
qed

section \<open>One parent\<close>

lemma place_Nil [simp]: "place par p [] = []"
  by (simp add: place_def)

lemma place_nochild: "\<not> child par p e \<Longrightarrow>
    place par p (e # E) = rev (filter (child par p) E) @ e # [x \<leftarrow> E. \<not> child par p x]"
  by (simp add: place_def)

lemma place_child: "child par p e \<Longrightarrow>
    place par p (e # E) = rev (filter (child par p) E) @ e # [x \<leftarrow> E. \<not> child par p x]"
  by (simp add: place_def)

lemma place_later:
  assumes "\<And>x. x \<in> set E1 \<Longrightarrow> \<not> child par p x" and "E1 \<noteq> []"
  shows "place par p (E1 @ D) = rev (filter (child par p) D) @ E1 @ [x \<leftarrow> D. \<not> child par p x]"
proof -
  obtain e E' where E1: "E1 = e # E'" using assms(2) by (cases E1) auto
  have "filter (child par p) E' = []" "[x \<leftarrow> E'. \<not> child par p x] = E'" "\<not> child par p e"
    using assms(1) E1 by (auto simp: filter_empty_conv intro!: filter_True)
  then show ?thesis using E1 by (simp add: place_nochild)
qed

lemma mset_place [simp]: "mset (place par p E) = mset E"
proof (cases E)
  case (Cons e E')
  have "mset (filter (child par p) E) + mset [x \<leftarrow> E. \<not> child par p x] = mset E"
    by (simp flip: multiset_partition)
  then show ?thesis using Cons by (auto simp: place_def add_ac)
qed (simp add: place_def)

lemma set_place [simp]: "set (place par p E) = set E"
  by (metis mset_place set_mset_mset)

lemma length_place [simp]: "length (place par p E) = length E"
  by (metis mset_place size_mset)

lemma split_unique:
  assumes "U @ y # V = X @ y # Y" and "distinct (X @ y # Y)"
  shows "U = X \<and> V = Y"
proof -
  have "distinct (U @ y # V)" using assms by simp
  then have "y \<notin> set U" "y \<notin> set V" by auto
  with append_Cons_eq_iff [OF this, of X Y] assms(1) show ?thesis by blast
qed

text \<open>The pivot keeps its guarantee: what stands before it was there before, or is a child just
  moved.\<close>

lemma pivot_split:
  assumes "distinct (A @ p # E)" and "A @ p # E = X @ y # Y"
  shows "\<exists>X' Y'. A @ p # place par p E = X' @ y # Y' \<and>
    (\<forall>x \<in> set X'. x \<in> set (A @ [p]) \<union> set X \<or> child par p x)"
proof -
  let ?F = "[x \<leftarrow> E. \<not> child par p x]"
  define K where "K = (case E of [] \<Rightarrow> [] | e # E' \<Rightarrow> rev (filter (child par p) E') @ [x \<leftarrow> [e]. child par p x])"
  have pl: "place par p E = K @ ?F" by (simp add: place_def K_def split: list.split)
  have K: "set K = {x \<in> set E. child par p x}" by (cases E) (auto simp: K_def)
  have "y \<in> set (A @ p # E)" using assms(2) by simp
  then consider "y \<in> set (A @ [p])" | "y \<in> set K" | "y \<in> set E" "\<not> child par p y" using K by auto
  then show ?thesis
  proof cases
    case 1
    then obtain U V where UV: "A @ [p] = U @ y # V" by (meson split_list)
    then have "A @ p # place par p E = U @ y # (V @ place par p E)"
      by (metis append.assoc append_Cons append_Nil)
    moreover have "set U \<subseteq> set (A @ [p])" unfolding UV by auto
    ultimately show ?thesis by blast
  next
    case 2
    then obtain K1 K2 where "K = K1 @ y # K2" by (meson split_list)
    with pl K show ?thesis by (intro exI [of _ "A @ p # K1"] exI [of _ "K2 @ ?F"]) auto
  next
    case 3
    then obtain E1 E2 where E: "E = E1 @ y # E2" by (meson split_list)
    have "(A @ p # E1) @ y # E2 = X @ y # Y" using assms(2) E by simp
    then have "A @ p # E1 = X \<and> E2 = Y"
      by (rule split_unique) (use assms(1) in \<open>simp flip: assms(2)\<close>)
    then have "set E1 \<subseteq> set X" by auto
    with pl 3 E K show ?thesis
      by (intro exI [of _ "A @ p # K @ [x \<leftarrow> E1. \<not> child par p x]"]
          exI [of _ "[x \<leftarrow> E2. \<not> child par p x]"]) auto
  qed
qed

text \<open>A pass that finds no child directly behind \<open>p\<close> moves all of them and ends.\<close>

lemma pass_nochild:
  assumes "chain m (A @ p # e # E)" and "A @ p # e # E = X @ y # Y"
    and "\<And>x. x \<in> set (A @ [p, e]) \<union> set X \<Longrightarrow> \<not> child (parent_of m) p x"
  shows "\<exists>m'. next_child_loop b p (Some y) (Some y) m = Some (Inr (Some y, None, m')) \<and>
    chain m' (A @ p # place (parent_of m) p (e # E)) \<and> payload m' = payload m"
proof -
  let ?ch = "child (parent_of m) p"
  have y: "hdp (y # Y) None = Some y" by simp
  have split: "(y \<in> set (A @ [p]) \<and> (\<exists>V. y # Y = V @ e # E \<and> A @ [p] = X @ V)) \<or>
      (\<exists>E1. X = A @ p # E1 \<and> e # E = E1 @ y # Y)"
  proof (cases "y \<in> set (A @ [p])")
    case True
    then obtain U V where UV: "A @ [p] = U @ y # V" by (meson split_list)
    have "U @ y # (V @ e # E) = (A @ [p]) @ e # E" unfolding UV by simp
    also have "\<dots> = X @ y # Y" using assms(2) by simp
    finally have "U = X \<and> V @ e # E = Y"
      by (rule split_unique) (use assms(1) in \<open>simp add: chain_def flip: assms(2)\<close>)
    then have "U = X" "V @ e # E = Y" by simp_all
    then show ?thesis using True UV by (intro disjI1) auto
  next
    case False
    with assms(2) have "y \<in> set (e # E)" by (metis Un_iff append_Cons append_Nil append.assoc in_set_conv_decomp set_append)
    then obtain E1 E2 where E: "e # E = E1 @ y # E2" by (meson split_list)
    then have "(A @ p # E1) @ y # E2 = X @ y # Y" using assms(2) by simp
    then have "A @ p # E1 = X \<and> E2 = Y"
      by (rule split_unique) (use assms(1) in \<open>simp add: chain_def flip: assms(2)\<close>)
    then show ?thesis using E by auto
  qed
  have direct: ?thesis if "next_child_loop b p (Some y) (Some y) m = next_child_loop b p (Some y) (hdp E None) m"
    using next_child_loop_tail [of m A p "[e]" E b "Some y"] assms(1,3) that by (simp add: place_nochild)
  from split show ?thesis
  proof (elim disjE exE conjE)
    fix V assume V: "y # Y = V @ e # E" "A @ [p] = X @ V"
    have "next_child_loop b p (Some y) (hdp ((V @ [e]) @ E) None) m = next_child_loop b p (Some y) (hdp E None) m"
    proof (rule next_child_loop_skip [of _ X])
      show "chain m (X @ (V @ [e]) @ E)" using assms(1,2) V(1) by simp
      show "\<not> ?ch z" if "z \<in> set (V @ [e])" for z
        using that assms(3) [of z] arg_cong [OF V(2), of set] by auto
    qed
    then show ?thesis using V(1) y by (intro direct) simp
  next
    fix E1 assume E1: "X = A @ p # E1" "e # E = E1 @ y # Y"
    show ?thesis
    proof (cases E1)
      case Nil
      have "next_child_loop b p (Some y) (hdp ([e] @ E) None) m = next_child_loop b p (Some y) (hdp E None) m"
        by (rule next_child_loop_skip [of _ "A @ [p]"]) (use assms(1,3) in auto)
      then show ?thesis using Nil E1 by (intro direct) simp
    next
      case (Cons e1 E1')
      have "place (parent_of m) p (e # E) =
          rev (filter ?ch (y # Y)) @ E1 @ [x \<leftarrow> y # Y. \<not> ?ch x]"
        unfolding E1(2) by (rule place_later) (use assms(3) E1(1) Cons in auto)
      then show ?thesis
        using next_child_loop_tail [of m A p E1 "y # Y" b "Some y"] assms(1) E1(2) Cons by simp
    qed
  qed
qed

text \<open>What \<open>organize_children\<close> does for one parent, whichever position the pivot has.\<close>

abbreviation moved :: "store \<Rightarrow> nat list \<Rightarrow> nat \<Rightarrow> nat list \<Rightarrow> nat list \<Rightarrow> ptr \<times> store \<Rightarrow> bool" where
  "moved m A p E X s \<equiv> (let N = A @ p # place (parent_of m) p E in
     chain (snd s) N \<and> payload (snd s) = payload m \<and>
     (\<exists>X' Y'. N = X' @ Y' \<and> fst s = hdp Y' None \<and>
        (\<forall>x \<in> set X'. x \<in> set (A @ [p]) \<union> set X \<or> child (parent_of m) p x)))"

lemma organize_next_child_Some:
  "organize_next_child b (Some p) (Some y) (Some c) m = next_child_loop b p (Some y) (Some c) m"
  by (simp add: organize_next_child_def)

lemma children_last_pass:
  assumes "chain m (A @ p # E)" and "A @ p # E = X @ y # Y"
    and "next_child_loop b p (Some y) (Some y) m = Some (Inr (Some y, None, m'))"
    and "chain m' (A @ p # place (parent_of m) p E)" and "payload m' = payload m"
  shows "returns b (organize_children_loop b (Some p) (Some y) (Some y) m) (moved m A p E X)"
proof (rule returnsI)
  show "organize_children_loop b (Some p) (Some y) (Some y) m = Some (Inr (Some y, m'))"
    using assms(3) by (simp add: organize_children_loop.simps [of b "Some p"] organize_next_child_Some)
  have "distinct (A @ p # E)" using assms(1) by (simp add: chain_def)
  from pivot_split [OF this assms(2)] obtain X' Y' where
    "A @ p # place (parent_of m) p E = X' @ y # Y'"
    "\<forall>x \<in> set X'. x \<in> set (A @ [p]) \<union> set X \<or> child (parent_of m) p x" by blast
  then show "moved m A p E X (Some y, m')" using assms(4,5)
    by (simp only: Let_def fst_conv snd_conv) (metis hdp.simps(2))
qed

lemma children_first_in_place:
  assumes "chain m (A @ p # e # E)" and "child (parent_of m) p e"
  shows "returns b (organize_children_loop b (Some p) (Some e) (Some e) m) (moved m A p (e # E) (A @ [p]))"
proof -
  from chain_tail [of m A p "e # E"] assms(1) obtain pc where pc: "m p = Some pc" "m_next pc = Some e" by auto
  from chain_tail [of m "A @ [p]" e E] assms(1) obtain c where c: "m e = Some c" "m_next c = hdp E None" by auto
  have first: "next_child_loop b p (Some e) (Some e) m = Some (Inr (hdp E None, hdp E None, m))"
    using pc c assms(2) by (simp add: next_child_loop.simps [of b p _ "Some e"] parent_of_def)
  show ?thesis
  proof (cases E)
    case Nil
    have "organize_children_loop b (Some p) (Some e) (Some e) m = Some (Inr (None, m))"
      using first Nil by (simp add: organize_children_loop.simps [of b "Some p"] organize_next_child_Some)
    moreover have "moved m A p (e # E) (A @ [p]) (None, m)"
    proof -
      have pl: "A @ p # place (parent_of m) p (e # E) = A @ [p, e]" using assms(2) Nil by (simp add: place_child)
      have "A @ [p, e] = (A @ [p, e]) @ []" "\<forall>x \<in> set (A @ [p, e]). x \<in> set (A @ [p]) \<or> child (parent_of m) p x"
        using assms(2) by simp_all
      then show ?thesis unfolding Let_def fst_conv snd_conv pl using assms(1) Nil
        by (intro conjI exI [of _ "A @ [p, e]"] exI [of _ "[]"]) simp_all
    qed
    ultimately show ?thesis by (rule returnsI)
  next
    case (Cons y Y)
    have "organize_children_loop b (Some p) (Some e) (Some e) m =
        organize_children_loop b (Some p) (Some y) (Some y) m"
      using first Cons by (simp add: organize_children_loop.simps [of b "Some p" "Some e"] organize_next_child_Some)
    moreover from next_child_loop_tail [of m A p "[e]" E b "Some y"] assms obtain m' where
      "next_child_loop b p (Some y) (Some y) m = Some (Inr (Some y, None, m'))"
      "chain m' (A @ p # place (parent_of m) p (e # E))" "payload m' = payload m"
      using Cons by (auto simp: place_child)
    ultimately have "returns b (organize_children_loop b (Some p) (Some e) (Some e) m)
        (moved m A p (e # E) (A @ [p, e]))"
      using children_last_pass [of m A p "e # E" "A @ [p, e]" y Y b m'] assms(1) Cons by simp
    then show ?thesis
    proof (rule returns_mono)
      fix s assume "moved m A p (e # E) (A @ [p, e]) s"
      then show "moved m A p (e # E) (A @ [p]) s" using assms(2) by (auto simp: Let_def)
    qed
  qed
qed

lemma children_in_place:
  assumes "chain m (A @ p # e # E)" and "child (parent_of m) p e" and "A @ [p] = X @ Z"
    and "\<And>x. x \<in> set (A @ [p]) \<Longrightarrow> \<not> child (parent_of m) p x"
    and "Z @ [e] = y # W"
  shows "returns b (organize_children_loop b (Some p) (Some y) (Some y) m) (moved m A p (e # E) (A @ [p]))"
  using assms(3,5)
proof (induction Z arbitrary: X y W)
  case Nil
  then show ?case using children_first_in_place [OF assms(1,2)] by simp
next
  case (Cons z Z)
  from chain_tail [of m A p "e # E"] assms(1) obtain pc where pc: "m p = Some pc" "m_next pc = Some e" by auto
  have eq: "A @ p # e # E = X @ z # (Z @ e # E)"
    using arg_cong [OF Cons.prems(1), of "\<lambda>l. l @ e # E"] by simp
  from chain_tail [of m X z "Z @ e # E"] assms(1) obtain c where
    c: "m z = Some c" "m_next c = hdp (Z @ e # E) None" unfolding eq by auto
  obtain y' W' where y': "Z @ [e] = y' # W'" by (cases "Z @ [e]") auto
  then have nx: "m_next c = Some y'" using c(2) by (cases Z) auto
  have "next_child_loop b p (Some z) (hdp ((z # Z) @ e # E) None) m =
      next_child_loop b p (Some z) (hdp (e # E) None) m"
  proof (rule next_child_loop_skip [of _ X])
    show "chain m (X @ (z # Z) @ e # E)" using assms(1) eq by simp
    show "\<not> child (parent_of m) p x" if "x \<in> set (z # Z)" for x
      using that assms(4) [of x] arg_cong [OF Cons.prems(1), of set] by auto
  qed
  also obtain ce where "m e = Some ce" "m_parent ce = Some p"
    using assms(2) by (auto simp: parent_of_def split: option.splits)
  then have "next_child_loop b p (Some z) (hdp (e # E) None) m =
      Some (rbind (cassert b (e = z)) (\<lambda>_. Inr (Some y', Some y', m)))"
    using pc c nx by (simp add: next_child_loop.simps [of b p _ "Some e"])
  finally have first: "next_child_loop b p (Some z) (Some z) m =
      Some (rbind (cassert b (e = z)) (\<lambda>_. Inr (Some y', Some y', m)))" by simp
  have "e \<noteq> z" using assms(1) unfolding eq by (auto simp: chain_def)
  have "y = z" using Cons.prems(2) by simp
  show ?case
  proof (cases b)
    case Debug
    then show ?thesis using first \<open>e \<noteq> z\<close> \<open>y = z\<close>
      by (simp add: returns_def organize_children_loop.simps [of Debug "Some p"] organize_next_child_Some)
  next
    case Release
    have "returns b (organize_children_loop b (Some p) (Some y') (Some y') m) (moved m A p (e # E) (A @ [p]))"
      using Cons.prems(1) y' by (intro Cons.IH [of "X @ [z]"]) simp_all
    moreover have "organize_children_loop b (Some p) (Some y) (Some y) m =
        organize_children_loop b (Some p) (Some y') (Some y') m"
      using first Release \<open>y = z\<close>
      by (simp add: organize_children_loop.simps [of Release "Some p" "Some z"] organize_next_child_Some)
    ultimately show ?thesis by simp
  qed
qed

lemma organize_children_returns:
  assumes "chain m (A @ p # E)" and "A @ p # E = X @ y # Y"
    and "\<And>x. x \<in> set (A @ [p]) \<union> set X \<Longrightarrow> \<not> child (parent_of m) p x"
  shows "returns b (organize_children b (Some p) (Some y) m) (moved m A p E X)"
proof (cases E)
  case Nil
  have "next_child_loop b p (Some y) (hdp (y # Y) None) m = next_child_loop b p (Some y) (hdp [] None) m"
    using next_child_loop_skip [of m X "y # Y" "[]" p b "Some y"] assms Nil by (metis Un_iff append_Nil2 set_append)
  then show ?thesis unfolding organize_children_def
    by (intro children_last_pass [OF assms(1,2)]) (use assms(1) Nil in simp_all)
next
  case (Cons e E')
  show ?thesis
  proof (cases "child (parent_of m) p e")
    case True
    have "e \<notin> set X" using True assms(3) [of e] by auto
    have "\<exists>Z W. A @ [p] = X @ Z \<and> Z @ [e] = y # W"
    proof -
      have "(A @ [p]) @ e # E' = X @ y # Y" using assms(2) Cons by simp
      then consider Z where "A @ [p] = X @ Z" "Z @ e # E' = y # Y" | Z where "(A @ [p]) @ Z = X" "e # E' = Z @ y # Y"
        unfolding append_eq_append_conv2 [of "A @ [p]"] by blast
      then show ?thesis
      proof cases
        case 1
        then show ?thesis by (cases Z) auto
      next
        case 2
        then have "Z = []" using \<open>e \<notin> set X\<close> by (cases Z) auto
        with 2 show ?thesis by auto
      qed
    qed
    then obtain Z W where ZW: "A @ [p] = X @ Z" "Z @ [e] = y # W" by blast
    have "returns b (organize_children_loop b (Some p) (Some y) (Some y) m) (moved m A p E (A @ [p]))"
      unfolding Cons by (rule children_in_place [OF _ True ZW(1) _ ZW(2)]) (use assms(1,3) Cons in auto)
    then show ?thesis unfolding organize_children_def
      by (rule returns_mono) (auto simp: Let_def)
  next
    case False
    with pass_nochild [of m A p e E' X y Y b] assms Cons obtain m' where
      "next_child_loop b p (Some y) (Some y) m = Some (Inr (Some y, None, m'))"
      "chain m' (A @ p # place (parent_of m) p E)" "payload m' = payload m" by auto
    then show ?thesis unfolding organize_children_def by (rule children_last_pass [OF assms(1,2)])
  qed
qed

section \<open>All parents\<close>

text \<open>The order that results: \<open>forest par p xs\<close> says that \<open>xs\<close> lists the children of \<open>p\<close>, each
  followed by its own descendants.\<close>

inductive forest :: "(nat \<Rightarrow> ptr) \<Rightarrow> nat \<Rightarrow> nat list \<Rightarrow> bool" for par where
  forest_Nil: "forest par p []"
| forest_Cons: "par c = Some p \<Longrightarrow> forest par c xs \<Longrightarrow> forest par p ys \<Longrightarrow> forest par p (c # xs @ ys)"

inductive_cases forest_ConsE: "forest par p (c # xs)"

fun trees :: "(nat \<Rightarrow> ptr) \<Rightarrow> nat list \<Rightarrow> nat list \<Rightarrow> bool" where
  "trees par [] xs \<longleftrightarrow> xs = []"
| "trees par (s # S) xs \<longleftrightarrow> (\<exists>f ys. xs = s # f @ ys \<and> forest par s f \<and> trees par S ys)"

lemma trees_append:
  "trees par (S @ T) xs \<longleftrightarrow> (\<exists>ys zs. xs = ys @ zs \<and> trees par S ys \<and> trees par T zs)"
proof (induction S arbitrary: xs)
  case Nil
  then show ?case by simp
next
  case (Cons s S)
  have "trees par ((s # S) @ T) xs \<longleftrightarrow>
      (\<exists>f ys zs. xs = s # f @ ys @ zs \<and> forest par s f \<and> trees par S ys \<and> trees par T zs)"
    by (auto simp: Cons.IH)
  moreover have "(\<exists>ys zs. xs = ys @ zs \<and> trees par (s # S) ys \<and> trees par T zs) \<longleftrightarrow>
      (\<exists>f ys zs. xs = s # f @ ys @ zs \<and> forest par s f \<and> trees par S ys \<and> trees par T zs)"
    unfolding trees.simps by (metis append.assoc append_Cons)
  ultimately show ?case by simp
qed

lemma trees_forest: "trees par S xs \<Longrightarrow> (\<And>s. s \<in> set S \<Longrightarrow> par s = Some p) \<Longrightarrow> forest par p xs"
  by (induction S arbitrary: xs) (auto intro: forest.intros)

text \<open>Processing each context in turn, on the list alone.\<close>

function settle :: "(nat \<Rightarrow> ptr) \<Rightarrow> nat list \<Rightarrow> nat list" where
  "settle par [] = []"
| "settle par (p # E) = p # settle par (place par p E)"
  by pat_completeness auto
termination by (relation "measure (\<lambda>(par, E). length E)") auto

text \<open>A stage of the walk: \<open>S\<close> are contexts whose parent has been processed, \<open>R\<close> the others, each of
  them below some context of \<open>S\<close>.  \<open>rank\<close> decreases from a context to its parent, so that there
  is no cycle of parents.\<close>

definition stage :: "(nat \<Rightarrow> ptr) \<Rightarrow> (nat \<Rightarrow> nat) \<Rightarrow> nat list \<Rightarrow> nat list \<Rightarrow> bool" where
  "stage par rank S R \<longleftrightarrow> distinct (S @ R) \<and>
     (\<forall>x \<in> set S. \<forall>y \<in> set (S @ R). par x \<noteq> Some y) \<and>
     (\<forall>x \<in> set R. \<exists>y \<in> set (S @ R). par x = Some y \<and> rank y < rank x)"

lemma stage_empty:
  assumes "stage par rank [] R"
  shows "R = []"
proof (rule ccontr)
  assume "R \<noteq> []"
  then have ne: "set R \<noteq> {}" by simp
  obtain x where x: "x \<in> set R" "\<And>z. z \<in> set R \<Longrightarrow> rank x \<le> rank z"
    using ex_min_if_finite [of "rank ` set R"] ne by (metis arg_min_least arg_min_if_finite(1) finite_set)
  with assms obtain y where "y \<in> set R" "rank y < rank x" by (auto simp: stage_def)
  with x(2) [of y] show False by simp
qed

lemma stage_step:
  assumes "stage par rank (s # S) R"
  shows "\<exists>K. place par s (S @ R) = K @ S @ [x \<leftarrow> R. par x \<noteq> Some s] \<and> (\<forall>k \<in> set K. par k = Some s) \<and>
    stage par rank (K @ S) [x \<leftarrow> R. par x \<noteq> Some s]"
proof -
  define K where "K = (case S @ R of [] \<Rightarrow> [] | e # E' \<Rightarrow>
    rev (filter (child par s) E') @ [x \<leftarrow> [e]. child par s x])"
  have S: "[x \<leftarrow> S. par x \<noteq> Some s] = S" using assms by (auto simp: stage_def intro: filter_True)
  have "place par s (S @ R) = K @ [x \<leftarrow> S @ R. par x \<noteq> Some s]"
    unfolding place_def K_def by (cases "S @ R") simp_all
  then have pl: "place par s (S @ R) = K @ S @ [x \<leftarrow> R. par x \<noteq> Some s]" by (simp add: S)
  have K: "set K = {x \<in> set (S @ R). par x = Some s}"
    unfolding K_def by (cases "S @ R") auto
  have "mset (K @ S @ [x \<leftarrow> R. par x \<noteq> Some s]) = mset (S @ R)" using mset_place pl by metis
  then have perm: "mset (K @ S @ [x \<leftarrow> R. par x \<noteq> Some s]) = mset (S @ R)" .
  have "distinct (S @ R)" using assms by (simp add: stage_def)
  with mset_eq_imp_distinct_iff [OF perm] have d: "distinct (K @ S @ [x \<leftarrow> R. par x \<noteq> Some s])" by blast
  have sub: "y \<in> set (K @ S @ [x \<leftarrow> R. par x \<noteq> Some s]) \<longleftrightarrow> y \<in> set (S @ R)" for y
    using mset_eq_setD [OF perm] by blast
  have top: "par x \<noteq> Some y" if "x \<in> set (K @ S)" "y \<in> set (S @ R)" for x y
  proof (cases "x \<in> set S")
    case True
    then show ?thesis using that(2) assms by (auto simp: stage_def)
  next
    case False
    then have "par x = Some s" using that(1) K by auto
    moreover have "s \<noteq> y" using that(2) assms by (auto simp: stage_def)
    ultimately show ?thesis by simp
  qed
  have low: "\<exists>y \<in> set (S @ R). par x = Some y \<and> rank y < rank x" if "x \<in> set [x \<leftarrow> R. par x \<noteq> Some s]" for x
  proof -
    from that have "x \<in> set R" "par x \<noteq> Some s" by auto
    with assms show ?thesis by (auto simp: stage_def)
  qed
  show ?thesis
  proof (intro exI conjI)
    show "stage par rank (K @ S) [x \<leftarrow> R. par x \<noteq> Some s]"
      unfolding stage_def using d sub top low by (simp only: append_assoc) blast
  qed (use pl K in auto)
qed

lemma settle_trees: "stage par rank S R \<Longrightarrow> trees par S (settle par (S @ R))"
proof (induction "length (S @ R)" arbitrary: S R)
  case 0
  then show ?case by simp
next
  case (Suc n)
  show ?case
  proof (cases S)
    case Nil
    with Suc.prems Suc.hyps(2) stage_empty show ?thesis by fastforce
  next
    case (Cons s S')
    from stage_step [OF Suc.prems [unfolded Cons]] obtain K where
      K: "place par s (S' @ R) = K @ S' @ [x \<leftarrow> R. par x \<noteq> Some s]" "\<forall>k \<in> set K. par k = Some s"
      "stage par rank (K @ S') [x \<leftarrow> R. par x \<noteq> Some s]" by blast
    have "n = length ((K @ S') @ [x \<leftarrow> R. par x \<noteq> Some s])"
      using Suc.hyps(2) Cons arg_cong [OF K(1), of length] by simp
    from Suc.hyps(1) [OF this K(3)] have "trees par (K @ S') (settle par (place par s (S' @ R)))"
      using K(1) by simp
    then obtain f ys where "settle par (place par s (S' @ R)) = f @ ys" "trees par K f" "trees par S' ys"
      by (auto simp: trees_append)
    moreover have "forest par s f" using \<open>trees par K f\<close> K(2) by (blast intro: trees_forest)
    ultimately have "settle par (S @ R) = s # f @ ys" "forest par s f" "trees par S' ys" using Cons by simp_all
    then show ?thesis unfolding Cons trees.simps by blast
  qed
qed

lemma mset_settle [simp]: "mset (settle par E) = mset E"
  by (induction par E rule: settle.induct) simp_all

lemma settle_done:
  "(\<And>x y. x \<in> set E \<Longrightarrow> y \<in> set E \<Longrightarrow> par x \<noteq> Some y) \<Longrightarrow> settle par E = E"
proof (induction "length E" arbitrary: E)
  case 0
  then show ?case by simp
next
  case (Suc n)
  then obtain p E' where E: "E = p # E'" by (cases E) auto
  have "place par p E' = E'"
  proof (cases E')
    case (Cons e D)
    have "filter (child par p) D = []" "[x \<leftarrow> D. \<not> child par p x] = D" "\<not> child par p e"
      using Suc.prems E Cons by (auto simp: filter_empty_conv intro: filter_True)
    then show ?thesis using Cons by (simp add: place_nochild)
  qed simp
  moreover have "settle par E' = E'" using Suc E by (intro Suc.hyps(1)) auto
  ultimately show ?case using E by simp
qed

lemma organize_loop_returns:
  assumes "chain m (A @ S @ R)" and "stage (parent_of m) rank S R"
    and "A @ S @ R = X @ Y"
    and "\<And>x y. x \<in> set A \<union> set X \<Longrightarrow> y \<in> set (S @ R) \<Longrightarrow> parent_of m x \<noteq> Some y"
  shows "returns b (organize_loop b (hdp (S @ R) None) (hdp Y None) m)
    (\<lambda>m'. chain m' (A @ settle (parent_of m) (S @ R)) \<and> payload m' = payload m)"
  using assms
proof (induction "length (S @ R)" arbitrary: A S R X Y m)
  case 0
  then show ?case by (intro returnsI [of _ m]) (simp_all add: organize_loop.simps)
next
  case (Suc n)
  show ?case
  proof (cases Y)
    case Nil
    have "settle (parent_of m) (S @ R) = S @ R"
    proof (rule settle_done)
      fix x y assume "x \<in> set (S @ R)" "y \<in> set (S @ R)"
      moreover from this have "x \<in> set X" using arg_cong [OF Suc.prems(3), of set] Nil by auto
      ultimately show "parent_of m x \<noteq> Some y" using Suc.prems(4) by blast
    qed
    then show ?thesis using Suc.prems(1) Nil
      by (intro returnsI [of _ m]) (simp_all add: organize_loop.simps)
  next
    case (Cons y Y')
    have "S \<noteq> []" using stage_empty Suc.prems(2) Suc.hyps(2) by fastforce
    then obtain s S' where S: "S = s # S'" by (cases S) auto
    let ?E = "S' @ R" and ?par = "parent_of m"
    from stage_step [OF Suc.prems(2) [unfolded S]] obtain K where
      K: "place ?par s ?E = K @ S' @ [x \<leftarrow> R. ?par x \<noteq> Some s]" "\<forall>k \<in> set K. ?par k = Some s"
      "stage ?par rank (K @ S') [x \<leftarrow> R. ?par x \<noteq> Some s]" by blast
    have st: "\<And>x y. x \<in> set S \<Longrightarrow> y \<in> set (S @ R) \<Longrightarrow> ?par x \<noteq> Some y" "distinct (S @ R)"
      using Suc.prems(2) by (auto simp: stage_def)
    have notchild: "\<not> child ?par s x" if "x \<in> set (A @ [s]) \<union> set X" for x
      using that Suc.prems(4) [of x s] st(1) [of s s] S by auto
    have step: "returns b (organize_children b (Some s) (Some y) m) (moved m A s ?E X)"
      using Suc.prems(1,3) S Cons notchild by (intro organize_children_returns) simp_all
    then consider (stop) "b = Debug" "organize_children b (Some s) (Some y) m = Some (Inl Assertion)"
      | (go) r where "organize_children b (Some s) (Some y) m = Some (Inr r)" "moved m A s ?E X r"
      unfolding returns_def by blast
    then show ?thesis
    proof cases
      case stop
      then show ?thesis using S Cons by (simp add: returns_def organize_loop.simps [of Debug "Some s"])
    next
      case go
      define N where "N = place ?par s ?E"
      from go(2) obtain X' Z where N: "chain (snd r) (A @ s # N)" "payload (snd r) = payload m"
        "A @ s # N = X' @ Z" "fst r = hdp Z None"
        "\<forall>x \<in> set X'. x \<in> set (A @ [s]) \<union> set X \<or> child ?par s x"
        unfolding Let_def N_def by blast
      from chain_tail [OF N(1)] obtain c where c: "snd r s = Some c" "m_next c = hdp N None" by auto
      have par: "parent_of (snd r) = ?par" using payload_parent [OF N(2)] .
      have loop: "organize_loop b (hdp (S @ R) None) (hdp Y None) m = organize_loop b (hdp N None) (fst r) (snd r)"
        using go(1) S Cons c by (simp add: organize_loop.simps [of b "Some s"])
      have Nset: "set N = set ?E" by (simp add: N_def)
      have "n = length ((K @ S') @ [x \<leftarrow> R. ?par x \<noteq> Some s])"
        using Suc.hyps(2) S arg_cong [OF K(1), of length] by simp
      note IH = Suc.hyps(1) [OF this, of "snd r" "A @ [s]" X' Z, unfolded append_assoc,
          folded K(1), folded N_def]
      have "returns b (organize_loop b (hdp N None) (hdp Z None) (snd r))
          (\<lambda>m'. chain m' (A @ [s] @ settle (parent_of (snd r)) N) \<and> payload m' = payload (snd r))"
      proof (rule IH)
        show "chain (snd r) (A @ [s] @ N)" "A @ [s] @ N = X' @ Z" using N(1,3) by simp_all
        show "stage (parent_of (snd r)) rank (K @ S') [x \<leftarrow> R. ?par x \<noteq> Some s]" using K(3) par by simp
        show "parent_of (snd r) x \<noteq> Some y" if "x \<in> set (A @ [s]) \<union> set X'" "y \<in> set N" for x y
        proof -
          have y: "y \<in> set (S @ R)" "y \<noteq> s" using that(2) Nset S st(2) by auto
          from that(1) N(5) consider "x \<in> set A \<union> set X" | "x = s" | "?par x = Some s" by auto
          then show ?thesis
            using Suc.prems(4) [of x y] st(1) [of s y] S y par by cases auto
        qed
      qed
      then show ?thesis unfolding loop N(4) [symmetric]
        by (rule returns_mono) (use S N(2) par in \<open>simp add: N_def\<close>)
    qed
  qed
qed

lemma organize_from_returns:
  assumes "linked m (root_context # xs)" and "parent_of m root_context = None"
    and "\<And>x. x \<in> set xs \<Longrightarrow> \<exists>y \<in> set (root_context # xs). parent_of m x = Some y \<and> rank y < (rank x :: nat)"
  shows "returns b (organize_from b (Some root_context) m)
    (\<lambda>m'. \<exists>ys. linked m' (root_context # ys) \<and> mset ys = mset xs \<and> forest (parent_of m) root_context ys \<and>
       payload m' = payload m)"
proof -
  let ?par = "parent_of m"
  have ch: "chain m ([] @ [root_context] @ xs)" and d: "distinct (root_context # xs)"
    using assms(1) by (simp_all add: linked_def chain_def)
  have st: "stage ?par rank [root_context] xs" using assms d by (auto simp: stage_def)
  obtain rc where rc: "m root_context = Some rc" "m_next rc = hdp xs None"
    using assms(1) by (auto simp: linked_def)
  have loop: "organize_from b (Some root_context) m = organize_loop b (hdp ([root_context] @ xs) None) (hdp xs None) m"
    using rc by (simp add: organize_from_def)
  have "returns b (organize_from b (Some root_context) m)
      (\<lambda>m'. chain m' ([] @ settle ?par ([root_context] @ xs)) \<and> payload m' = payload m)"
    unfolding loop by (rule organize_loop_returns [OF ch st, of "[root_context]"]) (use assms(2) in auto)
  moreover obtain ys where ys: "settle ?par ([root_context] @ xs) = root_context # ys" by simp
  moreover have "forest ?par root_context ys"
    using settle_trees [OF st] ys by auto
  moreover have "mset ys = mset xs" using mset_settle [of ?par "[root_context] @ xs"] unfolding ys by simp
  ultimately show ?thesis by (auto elim!: returns_mono simp: chain_def linked_def)
qed

text \<open>C2. In a release build, contexts constructed in any order end up organized: whatever the list order, \<open>organize\<close>
  returns, keeps the list doubly linked and every context's data, and leaves each context followed by
  its own descendants.  The contexts must form a tree below the root.\<close>

theorem organize_orders:
  assumes "linked m (root_context # xs)" and "parent_of m root_context = None"
    and "\<And>x. x \<in> set xs \<Longrightarrow> \<exists>y \<in> set (root_context # xs). parent_of m x = Some y \<and> rank y < (rank x :: nat)"
  shows "\<exists>m' ys. organize_from Release (Some root_context) m = Some (Inr m') \<and>
    linked m' (root_context # ys) \<and> mset ys = mset xs \<and> forest (parent_of m) root_context ys \<and>
    payload m' = payload m"
  using returns_Release [OF organize_from_returns [OF assms]] by blast

theorem organize_orders_witness:
  "\<exists>m m' ys. organize_from Release (Some root_context) m = Some (Inr m') \<and>
    linked m [root_context, 2, 1] \<and> linked m' (root_context # ys) \<and> mset ys = mset [2, 1]"
proof -
  let ?m = "[root_context \<mapsto> root_ctx\<lparr>m_next := Some 2\<rparr>,
    2 \<mapsto> root_ctx\<lparr>m_parent := Some 1, m_next := Some 1, m_prev := Some root_context\<rparr>,
    1 \<mapsto> root_ctx\<lparr>m_parent := Some root_context, m_prev := Some 2\<rparr>]"
  have l: "linked ?m (root_context # [2, 1])" by (simp add: linked_def root_ctx_def root_context_def)
  have "parent_of ?m root_context = None" by (simp add: parent_of_def root_ctx_def root_context_def)
  from organize_orders [OF l this, of "\<lambda>x. x"] l show ?thesis
    by (fastforce simp: parent_of_def root_ctx_def root_context_def)
qed

text \<open>Four contexts in the order \<open>a\<close>, \<open>b\<close>, a child of \<open>b\<close>, a child of \<open>a\<close>.\<close>

definition construct_four :: "build \<Rightarrow> logs result option" where
  "construct_four b =
     obind (ctx_ctor b root_context ''a'' 1 logs_init) (\<lambda>L.
     obind (ctx_ctor b root_context ''b'' 2 L) (\<lambda>L.
     obind (ctx_ctor b 2 ''ba'' 3 L) (\<lambda>L. ctx_ctor b 1 ''ab'' 4 L)))"

text \<open>The successor of each context, in the order of the addresses.\<close>

definition organized_nexts :: "build \<Rightarrow> (ptr option list) result option" where
  "organized_nexts b =
     obind (construct_four b) (\<lambda>L.
     obind (organize_from b (Some root_context) (contexts L)) (\<lambda>m.
     Some (Inr (map (\<lambda>a. map_option m_next (m a)) [root_context, 1, 2, 3, 4]))))"

text \<open>The assertion in \<open>organize_next_child\<close> that a context in place must be the pivot is wrong: for
  these four contexts, whose list is well formed, a debug build stops at it, while a release build
  arrives at the order root, a, ab, b, ba.\<close>

theorem organize_assertion_too_strong:
  "organized_nexts Debug = Some (Inl Assertion) \<and>
   organized_nexts Release = Some (Inr [Some (Some 1), Some (Some 4), Some (Some 3), Some None, Some (Some 2)])"
  by code_simp

end
