(* ===== verification/Logs_Levels.thy ===== *)
theory Logs_Levels
  imports Logs_Organize
begin

text \<open>
  Log levels in \<open>logs/lib/logs.cpp\<close>: \<open>set_level\<close> stores a level, makes sure the contexts are
  organized and passes the level on to the descendants, using the order of the list to find them;
  \<open>UPP_LOG\<close> compares the effective level.
\<close>

section \<open>Operations\<close>

partial_function (option) next_sibling_loop :: "store \<Rightarrow> ptr \<Rightarrow> ptr \<Rightarrow> ptr result option" where
  "next_sibling_loop m parent i = (case i of
     None \<Rightarrow> Some (Inr None)
   | Some a \<Rightarrow> (case m a of
       None \<Rightarrow> Some (Inl Undefined)
     | Some c \<Rightarrow> if m_parent c = parent then Some (Inr i) else next_sibling_loop m parent (m_next c)))"

declare next_sibling_loop.simps [code]

(* logs/lib/logs.cpp 85-92: find_next_sibling *)
definition find_next_sibling :: "store \<Rightarrow> nat \<Rightarrow> ptr result option" where
  "find_next_sibling m a = obind (Some (get_ctx m (Some a))) (\<lambda>c.
     next_sibling_loop m (m_parent c) (m_next c))"

(* logs/lib/logs.cpp 94-98: organize *)
definition organize :: "build \<Rightarrow> logs \<Rightarrow> logs result option" where
  "organize b L =
     obind (Some (cassert b (\<not> g_organized L))) (\<lambda>_.
     obind (organize_from b (Some root_context) (contexts L)) (\<lambda>m.
     Some (Inr (L\<lparr>contexts := m, g_organized := True\<rparr>))))"

(* logs/lib/logs.cpp 100-104: ensure_organized *)
definition ensure_organized :: "build \<Rightarrow> logs \<Rightarrow> logs result option" where
  "ensure_organized b L =
     (if g_organized L then Some (Inr L)
      else obind (organize b L) (\<lambda>L'.
        obind (assert_valid_tree b (contexts L')) (\<lambda>_. Some (Inr L'))))"

text \<open>The function and the \<open>while\<close> loop inside it, which call each other.\<close>

datatype sync_call = Sync nat | Children nat ptr

(* logs/lib/logs.cpp 106-121: sync_inherited_log_levels *)
partial_function (option) sync_run :: "store \<Rightarrow> sync_call \<Rightarrow> level \<Rightarrow> (ptr \<times> store) result option" where
  "sync_run m call lvl = (case call of
     Sync branch \<Rightarrow> (case m branch of
       None \<Rightarrow> Some (Inl Undefined)
     | Some c \<Rightarrow>
       if explicit_level c \<noteq> level_unset
       then obind (find_next_sibling m branch) (\<lambda>p. Some (Inr (p, m)))
       else (case m_next c of
           None \<Rightarrow> Some (Inr (None, m(branch \<mapsto> c\<lparr>m_inherited_level := lvl\<rparr>)))
         | Some i \<Rightarrow> (case (m(branch \<mapsto> c\<lparr>m_inherited_level := lvl\<rparr>)) i of
             None \<Rightarrow> Some (Inl Undefined)
           | Some ic \<Rightarrow>
             if m_parent ic = m_parent c
             then sync_run (m(branch \<mapsto> c\<lparr>m_inherited_level := lvl\<rparr>)) (Sync i) lvl
             else sync_run (m(branch \<mapsto> c\<lparr>m_inherited_level := lvl\<rparr>)) (Children branch (Some i)) lvl)))
   | Children branch i \<Rightarrow> (case i of
       None \<Rightarrow> Some (Inr (None, m))
     | Some a \<Rightarrow> (case m a of
         None \<Rightarrow> Some (Inl Undefined)
       | Some c \<Rightarrow>
         if m_parent c = Some branch
         then Option.bind (sync_run m (Sync a) lvl) (\<lambda>r. case r of
             Inl e \<Rightarrow> Some (Inl e)
           | Inr s \<Rightarrow> sync_run (snd s) (Children branch (fst s)) lvl)
         else Some (Inr (i, m)))))"

declare sync_run.simps [code]

partial_function (option) set_level_loop :: "store \<Rightarrow> nat \<Rightarrow> ptr \<Rightarrow> level \<Rightarrow> store result option" where
  "set_level_loop m this i lvl = (case i of
     None \<Rightarrow> Some (Inr m)
   | Some a \<Rightarrow> (case m a of
       None \<Rightarrow> Some (Inl Undefined)
     | Some c \<Rightarrow>
       if m_parent c = Some this then
         (case obind (sync_run m (Sync a) lvl) (\<lambda>s.
             obind (find_next_sibling (snd s) a) (\<lambda>n. Some (Inr (n, snd s)))) of
           None \<Rightarrow> None
         | Some r \<Rightarrow> (case r of
             Inl e \<Rightarrow> Some (Inl e)
           | Inr s \<Rightarrow> set_level_loop (snd s) this (fst s) lvl))
       else Some (Inr m)))"

declare set_level_loop.simps [code]

(* logs/lib/logs.cpp 191-201: context_base::set_level *)
definition set_level :: "build \<Rightarrow> nat \<Rightarrow> level \<Rightarrow> logs \<Rightarrow> logs result option" where
  "set_level b this new_lvl L =
     obind (Some (get_ctx (contexts L) (Some this))) (\<lambda>c.
     obind (ensure_organized b (L\<lparr>contexts := (contexts L)(this \<mapsto> c\<lparr>m_lvl := new_lvl\<rparr>)\<rparr>)) (\<lambda>L1.
     obind (Some (get_ctx (contexts L1) (Some this))) (\<lambda>c1.
     obind (set_level_loop (contexts L1) this (m_next c1)
        (if m_lvl c1 \<noteq> level_unset then m_lvl c1 else m_inherited_level c1)) (\<lambda>m.
     Some (Inr (L1\<lparr>contexts := m\<rparr>))))))"

(* logs/include/upp/logs.hpp 189-189: UPP_LOG, the test *)
definition logs_at :: "logs \<Rightarrow> nat \<Rightarrow> level \<Rightarrow> bool result" where
  "logs_at L ctx lvl = rbind (get_ctx (contexts L) (Some ctx)) (\<lambda>c. Inr (effective_level c \<le> lvl))"

section \<open>Passing a level on\<close>

text \<open>The store in which the contexts of a set have the inherited level \<open>lvl\<close>.\<close>

definition inherit :: "store \<Rightarrow> nat set \<Rightarrow> level \<Rightarrow> store" where
  "inherit m A lvl = (\<lambda>a. if a \<in> A then map_option (\<lambda>c. c\<lparr>m_inherited_level := lvl\<rparr>) (m a) else m a)"

lemma inherit_inherit [simp]: "inherit (inherit m A lvl) B lvl = inherit m (A \<union> B) lvl"
  by (auto simp: inherit_def fun_eq_iff option.map_comp o_def split: if_splits intro!: option.map_cong0)

lemma inherit_empty [simp]: "inherit m {} lvl = m"
  by (simp add: inherit_def)

lemma inherit_one: "m a = Some c \<Longrightarrow> m(a \<mapsto> c\<lparr>m_inherited_level := lvl\<rparr>) = inherit m {a} lvl"
  by (auto simp: inherit_def fun_eq_iff)

lemma set_inherited_level_inherit:
  "m a \<noteq> None \<Longrightarrow> set_inherited_level m (Some a) lvl = Inr (inherit m {a} lvl)"
  by (auto simp: set_inherited_level_def inherit_one)

lemma inherit_Some:
  assumes "m a = Some c"
  obtains c' where "inherit m A lvl a = Some c'" "m_next c' = m_next c" "m_prev c' = m_prev c"
    "m_parent c' = m_parent c" "m_lvl c' = m_lvl c"
  using assms that by (cases "a \<in> A") (auto simp: inherit_def)

lemma parent_of_inherit [simp]: "parent_of (inherit m A lvl) = parent_of m"
  by (auto simp: parent_of_def inherit_def fun_eq_iff split: option.splits)

definition lvl_of :: "store \<Rightarrow> nat \<Rightarrow> level" where
  "lvl_of m a = (case m a of None \<Rightarrow> level_unset | Some c \<Rightarrow> m_lvl c)"

lemma lvl_of_inherit [simp]: "lvl_of (inherit m A lvl) = lvl_of m"
  by (auto simp: lvl_of_def inherit_def fun_eq_iff split: option.splits)

lemma dlink_inherit [simp]: "dlink (inherit m A lvl) prv xs nxt \<longleftrightarrow> dlink m prv xs nxt"
proof (induction xs arbitrary: prv)
  case (Cons a xs)
  have "(\<exists>c. inherit m A lvl a = Some c \<and> m_prev c = prv \<and> m_next c = hdp xs nxt) \<longleftrightarrow>
      (\<exists>c. m a = Some c \<and> m_prev c = prv \<and> m_next c = hdp xs nxt)"
    by (cases "m a") (auto simp: inherit_def)
  then show ?case using Cons by simp
qed simp

text \<open>A context of the list and the one behind it.\<close>

lemma dlink_at:
  assumes "dlink m prv (c # R) None"
  obtains cc where "m c = Some cc" "m_next cc = hdp R None" "parent_of m c = m_parent cc" "lvl_of m c = m_lvl cc"
  using assms that by (auto simp: parent_of_def lvl_of_def)

text \<open>Nothing that follows belongs to a subtree.\<close>

definition outside :: "(nat \<Rightarrow> ptr) \<Rightarrow> nat set \<Rightarrow> nat list \<Rightarrow> bool" where
  "outside par A R \<longleftrightarrow> (\<forall>x \<in> set R. \<forall>a \<in> A. par x \<noteq> Some a)"

lemma outside_hd: "outside par A (r # R) \<Longrightarrow> a \<in> A \<Longrightarrow> par r \<noteq> Some a"
  by (simp add: outside_def)

lemma forest_parents: "forest par p xs \<Longrightarrow> x \<in> set xs \<Longrightarrow> \<exists>y \<in> insert p (set xs). par x = Some y"
  by (induction arbitrary: x rule: forest.induct) auto

lemma forest_outside:
  assumes "forest par p ys" and "insert p (set ys) \<inter> A = {}"
  shows "outside par A ys"
  using forest_parents [OF assms(1)] assms(2) unfolding outside_def by fastforce

lemma outside_append [simp]: "outside par A (xs @ ys) \<longleftrightarrow> outside par A xs \<and> outside par A ys"
  by (auto simp: outside_def)

lemma outside_Cons [simp]: "outside par A (x # R) \<longleftrightarrow> (\<forall>a \<in> A. par x \<noteq> Some a) \<and> outside par A R"
  by (auto simp: outside_def)

lemma outside_mono: "outside par A R \<Longrightarrow> B \<subseteq> A \<Longrightarrow> outside par B R"
  by (auto simp: outside_def)

definition ready :: "store \<Rightarrow> ptr \<Rightarrow> nat \<Rightarrow> nat list \<Rightarrow> nat list \<Rightarrow> bool" where
  "ready m prv p zs R \<longleftrightarrow> dlink m prv (zs @ R) None \<and> distinct (p # zs) \<and>
     outside (parent_of m) (insert p (set zs)) R"

lemma ready_inherit [simp]: "ready (inherit m A lvl) prv p zs R \<longleftrightarrow> ready m prv p zs R"
  by (simp add: ready_def)

lemma ready_suffix: "ready m prv p (xs @ zs) R \<Longrightarrow> ready m (lastp prv xs) p zs R"
  by (auto simp: ready_def intro: outside_mono)

section \<open>The next sibling\<close>

lemma next_sibling_loop_skip:
  assumes "dlink m prv (Z @ W) None" and "\<And>z. z \<in> set Z \<Longrightarrow> parent_of m z \<noteq> par"
  shows "next_sibling_loop m par (hdp (Z @ W) None) = next_sibling_loop m par (hdp W None)"
  using assms
proof (induction Z arbitrary: prv)
  case Nil
  then show ?case by simp
next
  case (Cons z Z)
  then obtain c where c: "m z = Some c" "m_next c = hdp (Z @ W) None" by auto
  have "m_parent c \<noteq> par" using Cons.prems(2) [of z] c(1) by (simp add: parent_of_def)
  with c have "next_sibling_loop m par (hdp ((z # Z) @ W) None) = next_sibling_loop m par (hdp (Z @ W) None)"
    by (simp add: next_sibling_loop.simps [of m par "Some z"])
  with Cons show ?case by auto
qed

lemma find_next_sibling_forest:
  assumes "ready m prv p (c # sub @ ys) R" and "parent_of m c = Some p"
    and "forest (parent_of m) c sub" and "forest (parent_of m) p ys"
  shows "find_next_sibling m c = Some (Inr (hdp ys None))"
proof -
  have dl: "dlink m prv (c # sub @ ys @ R) None" and dist: "distinct (p # c # sub @ ys)"
    and out: "\<forall>x \<in> set R. parent_of m x \<noteq> Some p"
    using assms(1) by (auto simp: ready_def outside_def)
  obtain cc where cc: "m c = Some cc" "m_next cc = hdp (sub @ ys @ R) None" "m_parent cc = Some p"
    using dl assms(2) by (auto simp: parent_of_def)
  have sub: "\<And>z. z \<in> set sub \<Longrightarrow> parent_of m z \<noteq> Some p"
    using forest_parents [OF assms(3)] dist by fastforce
  have "find_next_sibling m c = next_sibling_loop m (Some p) (hdp (sub @ ys @ R) None)"
    using cc by (simp add: find_next_sibling_def)
  also have "\<dots> = next_sibling_loop m (Some p) (hdp (ys @ R) None)"
    by (rule next_sibling_loop_skip [of m "Some c"]) (use dl sub in auto)
  also have "\<dots> = Some (Inr (hdp ys None))"
  proof (cases ys)
    case Nil
    have "next_sibling_loop m (Some p) (hdp (R @ []) None) = next_sibling_loop m (Some p) (hdp [] None)"
      by (rule next_sibling_loop_skip [of m "lastp (Some c) sub"]) (use dl Nil out in auto)
    then show ?thesis using Nil by (simp add: next_sibling_loop.simps)
  next
    case (Cons y ys')
    then have "parent_of m y = Some p" using assms(4) by (auto elim: forest_ConsE)
    moreover obtain cy where "m y = Some cy" using dl Cons by auto
    ultimately show ?thesis using Cons by (simp add: next_sibling_loop.simps parent_of_def)
  qed
  finally show ?thesis .
qed

section \<open>The contexts a level reaches\<close>

text \<open>The contexts below one as trees, in the order of the list; a node tells whether the context has a
  level of its own.\<close>

datatype ctree = CNode nat bool "ctree list"

fun own :: "ctree \<Rightarrow> bool" where
  "own (CNode c e cs) \<longleftrightarrow> e"

fun preorder :: "ctree \<Rightarrow> nat list" where
  "preorder (CNode c e cs) = c # concat (map preorder cs)"

abbreviation walk :: "ctree list \<Rightarrow> nat list" where
  "walk ts \<equiv> concat (map preorder ts)"

lemma preorder_Cons [simp]: "preorder t \<noteq> []"
  by (cases t) simp

lemma walk_Nil [simp]: "walk ts = [] \<longleftrightarrow> ts = []"
  by (cases ts) simp_all

fun fits :: "(nat \<Rightarrow> ptr) \<Rightarrow> (nat \<Rightarrow> bool) \<Rightarrow> nat \<Rightarrow> ctree \<Rightarrow> bool" where
  "fits par ex p (CNode c e cs) \<longleftrightarrow> par c = Some p \<and> e = ex c \<and> (\<forall>t \<in> set cs. fits par ex c t)"

abbreviation all_fit :: "(nat \<Rightarrow> ptr) \<Rightarrow> (nat \<Rightarrow> bool) \<Rightarrow> nat \<Rightarrow> ctree list \<Rightarrow> bool" where
  "all_fit par ex p ts \<equiv> \<forall>t \<in> set ts. fits par ex p t"

text \<open>The reference for \<open>sync_inherited_log_levels\<close> on some siblings: the contexts reached, and whether the
  walk stops early.  It stops at a last sibling with a level of its own.\<close>

fun visit :: "ctree list \<Rightarrow> nat list \<times> bool" where
  "visit [] = ([], False)"
| "visit (CNode c e cs # ts) =
     (if e then (if ts = [] then ([], True) else visit ts)
      else case visit cs of (A, stopped) \<Rightarrow>
        if stopped then (c # A, True)
        else case visit ts of (B, stopped') \<Rightarrow> (c # A @ B, stopped'))"

text \<open>The reference for \<open>set_level\<close>, which walks below each child of its own, whatever happened below
  the others; and what it is meant to reach: every context without a level of its own on the way.\<close>

fun told1 :: "ctree \<Rightarrow> nat list" where
  "told1 (CNode c e cs) = (if e then [] else c # fst (visit cs))"

abbreviation told :: "ctree list \<Rightarrow> nat list" where
  "told ts \<equiv> concat (map told1 ts)"

fun free :: "ctree \<Rightarrow> nat list" where
  "free (CNode c e cs) = (if e then [] else c # concat (map free cs))"

text \<open>No context below has a level of its own and is the last child of its parent.\<close>

fun last_free :: "ctree \<Rightarrow> bool" where
  "last_free (CNode c e cs) \<longleftrightarrow> (cs \<noteq> [] \<longrightarrow> \<not> own (last cs)) \<and> (\<forall>t \<in> set cs. last_free t)"

lemma visit_Cons:
  "visit (CNode c e cs # ts) =
    (if e then if ts = [] then ([], True) else visit ts
     else if snd (visit cs) then (c # fst (visit cs), True)
     else (c # fst (visit cs) @ fst (visit ts), snd (visit ts)))"
  by (simp add: split_beta)

declare visit.simps(2) [simp del]

lemma visit_free:
  "(ts \<noteq> [] \<longrightarrow> \<not> own (last ts)) \<Longrightarrow> \<forall>t \<in> set ts. last_free t \<Longrightarrow> visit ts = (concat (map free ts), False)"
  by (induction ts rule: visit.induct) (auto simp: visit_Cons split: if_splits)

lemma told_free: "\<forall>t \<in> set ts. last_free t \<Longrightarrow> told ts = concat (map free ts)"
proof (induction ts)
  case (Cons t ts)
  then show ?case by (cases t) (simp add: visit_free)
qed simp

lemma free_all: "(\<And>x. x \<in> set (preorder t) \<Longrightarrow> \<not> ex x) \<Longrightarrow> fits par ex p t \<Longrightarrow> free t = preorder t \<and> last_free t"
proof (induction t arbitrary: p)
  case (CNode c e cs)
  have "free t = preorder t \<and> last_free t \<and> \<not> own t" if t: "t \<in> set cs" for t
  proof -
    have "free t = preorder t \<and> last_free t" by (rule CNode.IH [OF t, of c]) (use CNode.prems t in auto)
    moreover have "\<not> own t" using CNode.prems t by (cases t) force
    ultimately show ?thesis by blast
  qed
  moreover from this have "map free cs = map preorder cs" by (intro map_cong) simp_all
  then have "concat (map free cs) = walk cs" by (rule arg_cong)
  ultimately show ?case using CNode.prems by auto
qed

lemma fits_cong: "fits par ex p t \<Longrightarrow> (\<And>x. x \<in> set (preorder t) \<Longrightarrow> ex' x = ex x) \<Longrightarrow> fits par ex' p t"
  by (induction t arbitrary: p) auto

lemma all_fit_cong: "all_fit par ex p ts \<Longrightarrow> (\<And>x. x \<in> set (walk ts) \<Longrightarrow> ex' x = ex x) \<Longrightarrow> all_fit par ex' p ts"
proof
  fix t assume "all_fit par ex p ts" and h: "\<And>x. x \<in> set (walk ts) \<Longrightarrow> ex' x = ex x" and t: "t \<in> set ts"
  then have "fits par ex p t" by blast
  then show "fits par ex' p t" by (rule fits_cong) (use h t in auto)
qed

lemma forest_trees: "forest par p xs \<Longrightarrow> \<exists>ts. xs = walk ts \<and> all_fit par ex p ts"
proof (induction rule: forest.induct)
  case (forest_Nil p)
  then show ?case by (intro exI [of _ "[]"]) simp
next
  case (forest_Cons c p xs ys)
  then obtain cs ts where "xs = walk cs" "all_fit par ex c cs" "ys = walk ts" "all_fit par ex p ts" by blast
  then show ?case using forest_Cons.hyps(1) by (intro exI [of _ "CNode c (ex c) cs # ts"]) simp
qed

lemma ctrees_forest: "all_fit par ex p ts \<Longrightarrow> forest par p (walk ts)"
proof (induction "length (walk ts)" arbitrary: p ts rule: less_induct)
  case less
  show ?case
  proof (cases ts)
    case Nil
    then show ?thesis by (simp add: forest_Nil)
  next
    case (Cons t ts')
    obtain c e cs where t: "t = CNode c e cs" by (cases t)
    have "forest par c (walk cs)" "forest par p (walk ts')" by (rule less.hyps; use less.prems Cons t in simp)+
    then show ?thesis using less.prems Cons t by (auto intro: forest_Cons)
  qed
qed

text \<open>The list determines the trees.\<close>

lemma walk_root: "all_fit par ex p ts \<Longrightarrow> ts \<noteq> [] \<Longrightarrow> par (hd (walk ts)) = Some p"
  by (cases ts; cases "hd ts") auto

lemma walk_split_le:
  assumes "all_fit par ex c cs" and "all_fit par ex p ts'" and "p \<notin> insert c (set (walk cs))"
    and "walk cs = X @ z" and "z @ Y = walk ts'"
  shows "z = []"
proof (rule ccontr)
  assume "z \<noteq> []"
  then have "hd z = hd (walk ts')" "walk ts' \<noteq> []" unfolding assms(5) [symmetric] by simp_all
  then have "hd z = hd (walk ts')" "ts' \<noteq> []" by auto
  then have "par (hd z) = Some p" using walk_root [OF assms(2)] by simp
  moreover have "hd z \<in> set (walk cs)" using \<open>z \<noteq> []\<close> assms(4) by (metis Un_iff hd_in_set set_append)
  with forest_parents [OF ctrees_forest [OF assms(1)]] have
    "\<exists>y \<in> insert c (set (walk cs)). par (hd z) = Some y" by blast
  ultimately show False using assms(3) by auto
qed

lemma trees_unique:
  "all_fit par ex p ts \<Longrightarrow> all_fit par ex p ts' \<Longrightarrow> walk ts = walk ts' \<Longrightarrow> distinct (p # walk ts) \<Longrightarrow> ts = ts'"
proof (induction "length (walk ts)" arbitrary: p ts ts' rule: less_induct)
  case less
  show ?case
  proof (cases ts)
    case Nil
    then have "walk ts' = []" using less.prems(3) by simp
    then show ?thesis using Nil by (simp only: walk_Nil)
  next
    case (Cons t us)
    then have "ts' \<noteq> []" using less.prems(3) by (cases t) auto
    then obtain t' us' where ts': "ts' = t' # us'" by (cases ts') auto
    obtain c e cs where t: "t = CNode c e cs" by (cases t)
    obtain c' e' cs' where t': "t' = CNode c' e' cs'" by (cases t')
    have c: "c' = c" and rest: "walk cs @ walk us = walk cs' @ walk us'"
      using less.prems(3) Cons ts' t t' by simp_all
    have fits: "all_fit par ex c cs" "all_fit par ex c cs'" "all_fit par ex p us" "all_fit par ex p us'" "e = ex c" "e' = ex c"
      using less.prems(1,2) Cons ts' t t' c by auto
    have dist: "distinct (p # c # walk cs @ walk us)" using less.prems(4) Cons t by simp
    then have dist': "distinct (p # c # walk cs' @ walk us')" unfolding rest .
    have new: "p \<notin> insert c (set (walk cs))" "p \<notin> insert c (set (walk cs'))" using dist dist' by auto
    from rest consider z where "walk cs = walk cs' @ z" "z @ walk us = walk us'"
      | z where "walk cs' = walk cs @ z" "z @ walk us' = walk us"
      unfolding append_eq_append_conv2 by metis
    then have "walk cs = walk cs' \<and> walk us = walk us'"
    proof cases
      case 1
      then have "z = []" by (intro walk_split_le [OF fits(1,4) new(1)])
      then show ?thesis using 1 by simp
    next
      case 2
      then have "z = []" by (intro walk_split_le [OF fits(2,3) new(2)])
      then show ?thesis using 2 by simp
    qed
    then have "cs = cs'" "us = us'"
      using less.hyps [of cs c cs'] less.hyps [of us p us'] fits dist Cons t by simp_all
    then show ?thesis using Cons ts' t t' c fits(5,6) by simp
  qed
qed

text \<open>A last sibling with a level of its own ends the walk, and with it that of the siblings of its parent.\<close>

lemma visit_stops: "snd (visit (ds @ [CNode g True es]))"
proof (induction ds)
  case (Cons d ds)
  then show ?case by (cases d) (simp add: visit_Cons)
qed (simp add: visit_Cons)

lemma visit_before:
  "snd (visit qs) \<Longrightarrow> set (fst (visit (ss @ CNode q False qs # rs))) \<subseteq> set (fst (visit ss)) \<union> insert q (set (fst (visit qs)))"
proof (induction ss)
  case (Cons t ss)
  then show ?case by (cases t) (auto simp: visit_Cons)
qed (simp add: visit_Cons)

lemma sync_run_children_end:
  assumes "dlink m prv R None" and "\<And>r R'. R = r # R' \<Longrightarrow> parent_of m r \<noteq> Some p"
  shows "sync_run m (Children p (hdp R None)) lvl = Some (Inr (hdp R None, m))"
proof (cases R)
  case Nil
  then show ?thesis by (simp add: sync_run.simps)
next
  case (Cons r R')
  with assms obtain c where "m r = Some c" "m_parent c \<noteq> Some p" by (auto simp: parent_of_def)
  then show ?thesis using Cons by (simp add: sync_run.simps)
qed

lemma sync_run_unset:
  assumes "m c = Some cc" and "m_lvl cc = level_unset" and "m_next cc = Some i"
    and "inherit m {c} lvl i = Some ic"
  shows "sync_run m (Sync c) lvl = sync_run (inherit m {c} lvl)
    (if m_parent ic = m_parent cc then Sync i else Children c (Some i)) lvl"
  using assms by (simp add: sync_run.simps [of m "Sync c"] explicit_level_def inherit_one)


abbreviation has_own :: "store \<Rightarrow> nat \<Rightarrow> bool" where
  "has_own m \<equiv> \<lambda>x. lvl_of m x \<noteq> level_unset"

text \<open>What one call on some siblings returns: it has reached some of the contexts of the reference, those
  of the first sibling among them, and leaves the rest for the next call unless it stops.\<close>

definition sync_result ::
    "store \<Rightarrow> nat list \<Rightarrow> level \<Rightarrow> ctree list \<Rightarrow> (ptr \<times> store) result option \<Rightarrow> bool" where
  "sync_result m R lvl ts r \<longleftrightarrow> (\<exists>q A. r = Some (Inr (q, inherit m A lvl)) \<and>
     set (told1 (hd ts)) \<subseteq> A \<and> A \<subseteq> set (told ts) \<and>
     ((snd (visit ts) \<and> q = None \<and> A = set (fst (visit ts))) \<or>
      (\<exists>ts1 ts2. ts = ts1 @ ts2 \<and> ts1 \<noteq> [] \<and> q = hdp (walk ts2 @ R) None \<and>
         set (fst (visit ts)) = A \<union> set (fst (visit ts2)) \<and> snd (visit ts) = snd (visit ts2))))"

lemma sync_result_stop:
  "r = Some (Inr (None, inherit m (set (fst (visit ts))) lvl)) \<Longrightarrow> snd (visit ts) \<Longrightarrow>
    set (told1 (hd ts)) \<subseteq> set (fst (visit ts)) \<Longrightarrow> set (fst (visit ts)) \<subseteq> set (told ts) \<Longrightarrow>
    sync_result m R lvl ts r"
  unfolding sync_result_def by blast

lemma sync_result_rest:
  "r = Some (Inr (hdp (walk ts @ R) None, inherit m A lvl)) \<Longrightarrow>
    set (told1 t) \<subseteq> A \<Longrightarrow> A \<subseteq> set (told (t # ts)) \<Longrightarrow>
    set (fst (visit (t # ts))) = A \<union> set (fst (visit ts)) \<Longrightarrow> snd (visit (t # ts)) = snd (visit ts) \<Longrightarrow>
    sync_result m R lvl (t # ts) r"
  unfolding sync_result_def
  by (intro exI [of _ "hdp (walk ts @ R) None"] exI [of _ A] conjI disjI2 exI [of _ "[t]"] exI [of _ ts])
    (simp_all del: hdp_append)

lemma sync_result_leaf:
  assumes "sync_result (inherit m {c} lvl) R lvl ts r" and "ts \<noteq> []"
  shows "sync_result m R lvl (CNode c False [] # ts) r"
proof -
  from assms(1) obtain q A where q: "r = Some (Inr (q, inherit m ({c} \<union> A) lvl))" "A \<subseteq> set (told ts)"
    "(snd (visit ts) \<and> q = None \<and> A = set (fst (visit ts))) \<or>
     (\<exists>ts1 ts2. ts = ts1 @ ts2 \<and> ts1 \<noteq> [] \<and> q = hdp (walk ts2 @ R) None \<and>
        set (fst (visit ts)) = A \<union> set (fst (visit ts2)) \<and> snd (visit ts) = snd (visit ts2))"
    unfolding sync_result_def inherit_inherit by blast
  have v: "visit (CNode c False [] # ts) = (c # fst (visit ts), snd (visit ts))" by (simp add: visit_Cons)
  from q(3) show ?thesis
  proof (elim disjE conjE exE)
    assume "snd (visit ts)" "q = None" "A = set (fst (visit ts))"
    then show ?thesis using q(1,2) v by (intro sync_result_stop) auto
  next
    fix ts1 ts2
    assume h: "ts = ts1 @ ts2" "ts1 \<noteq> []" "q = hdp (walk ts2 @ R) None"
      "set (fst (visit ts)) = A \<union> set (fst (visit ts2))" "snd (visit ts) = snd (visit ts2)"
    have "CNode c False [] # ts = (CNode c False [] # ts1) @ ts2" "CNode c False [] # ts1 \<noteq> []" using h(1) by simp_all
    moreover have "set (fst (visit (CNode c False [] # ts))) = ({c} \<union> A) \<union> set (fst (visit ts2))"
      "snd (visit (CNode c False [] # ts)) = snd (visit ts2)" using v h(4,5) by simp_all
    moreover have "set (told1 (hd (CNode c False [] # ts))) \<subseteq> {c} \<union> A" "{c} \<union> A \<subseteq> set (told (CNode c False [] # ts))"
      using q(2) by auto
    ultimately show ?thesis unfolding sync_result_def using q(1) h(3) by blast
  qed
qed

lemma visit_told: "set (fst (visit ts)) \<subseteq> set (told ts)"
proof (induction "length (walk ts)" arbitrary: ts rule: less_induct)
  case less
  show ?case
  proof (cases ts)
    case (Cons t ts')
    obtain c e cs where t: "t = CNode c e cs" by (cases t)
    have "set (fst (visit ts')) \<subseteq> set (told ts')" by (rule less) (simp add: Cons t)
    then show ?thesis by (auto simp: Cons t visit_Cons)
  qed simp
qed

lemma told1_walk: "set (told1 t) \<subseteq> set (preorder t)"
proof (induction t)
  case (CNode c e cs)
  then have "set (told cs) \<subseteq> set (walk cs)" by auto
  with visit_told [of cs] show ?case by (simp add: subset_iff)
qed

lemma told_walk: "set (told ts) \<subseteq> set (walk ts)"
  using told1_walk by (induction ts) auto

text \<open>What stands behind a context that ends the walk is not reached.\<close>

lemma told_skips:
  assumes "distinct (walk ts)" and "CNode p False (ss @ CNode q False (ds @ [CNode g True es]) # rs) \<in> set ts"
  shows "set (walk rs) \<inter> set (told ts) = {}"
proof -
  let ?qs = "ds @ [CNode g True es]"
  let ?t = "CNode p False (ss @ CNode q False ?qs # rs)"
  obtain T1 T2 where T: "ts = T1 @ ?t # T2" using assms(2) by (meson split_list)
  have dist: "distinct (walk T1 @ preorder ?t @ walk T2)" using assms(1) unfolding T by simp
  have "set (fst (visit (ss @ CNode q False ?qs # rs))) \<subseteq> set (walk ss) \<union> insert q (set (walk ?qs))"
    using visit_before [OF visit_stops, of ss q ds g es rs] visit_told [of ss] visit_told [of ?qs]
      told_walk [of ss] told_walk [of ?qs] by blast
  then have "set (told1 ?t) \<subseteq> insert p (set (walk ss) \<union> insert q (set (walk ?qs)))" by auto
  moreover have "set (walk rs) \<inter> insert p (set (walk ss) \<union> insert q (set (walk ?qs))) = {}"
    using dist by auto
  moreover have "set (walk rs) \<inter> (set (walk T1) \<union> set (walk T2)) = {}" using dist by auto
  moreover have "set (told ts) = set (told T1) \<union> set (told1 ?t) \<union> set (told T2)" unfolding T by auto
  ultimately show ?thesis using told_walk [of T1] told_walk [of T2] by blast
qed

lemma ready_kids:
  assumes "ready m prv p (walk (CNode c e cs # ts)) R" and "all_fit (parent_of m) ex p (CNode c e cs # ts)"
  shows "ready m (Some c) c (walk cs) (walk ts @ R)" and "ready m (lastp (Some c) (walk cs)) p (walk ts) R"
proof -
  let ?par = "parent_of m"
  have dl: "dlink m (Some c) (walk cs @ walk ts @ R) None" and dist: "distinct (p # c # walk cs @ walk ts)"
    and out: "outside ?par (insert p (set (c # walk cs @ walk ts))) R"
    using assms(1) by (auto simp: ready_def)
  have "forest ?par p (walk ts)" using assms(2) by (intro ctrees_forest [where ex = ex]) simp
  then have "outside ?par (insert c (set (walk cs))) (walk ts)" by (rule forest_outside) (use dist in auto)
  then show "ready m (Some c) c (walk cs) (walk ts @ R)"
    unfolding ready_def using dl dist out by (auto intro: outside_mono)
  have "ready m prv p ((c # walk cs) @ walk ts) R" using assms(1) by simp
  from ready_suffix [OF this] show "ready m (lastp (Some c) (walk cs)) p (walk ts) R" by simp
qed

lemma ready_node:
  assumes "ready m prv p (walk (CNode c e cs # ts)) R" and "all_fit (parent_of m) (has_own m) p (CNode c e cs # ts)"
  obtains cc where "m c = Some cc" "m_next cc = hdp (walk cs @ walk ts @ R) None" "m_parent cc = Some p"
    "m_lvl cc \<noteq> level_unset \<longleftrightarrow> e"
proof -
  from assms(1) obtain cc where "m c = Some cc" "m_next cc = hdp (walk cs @ walk ts @ R) None" by (auto simp: ready_def)
  then show thesis using assms(2) by (intro that [of cc]) (auto simp: parent_of_def lvl_of_def)
qed

lemma sync_run_own:
  assumes "ready m prv p (walk (CNode c True cs # ts)) R" and "all_fit (parent_of m) (has_own m) p (CNode c True cs # ts)"
  shows "sync_result m R lvl (CNode c True cs # ts) (sync_run m (Sync c) lvl)"
proof -
  from assms obtain cc where cc: "m c = Some cc" "m_lvl cc \<noteq> level_unset" by (rule ready_node) simp
  have "find_next_sibling m c = Some (Inr (hdp (walk ts) None))"
    by (rule find_next_sibling_forest [of m prv p c "walk cs" "walk ts" R])
      (use assms in \<open>auto intro: ctrees_forest\<close>)
  then have run: "sync_run m (Sync c) lvl = Some (Inr (hdp (walk ts) None, m))"
    using cc by (simp add: sync_run.simps [of m "Sync c"] explicit_level_def)
  show ?thesis
  proof (cases ts)
    case Nil
    then show ?thesis using run by (intro sync_result_stop) (simp_all add: visit_Cons)
  next
    case (Cons t ts')
    then have "hdp (walk ts) None = hdp (walk ts @ R) None" by (cases t) simp
    then show ?thesis using run Cons by (intro sync_result_rest [of _ _ _ _ "{}"]) (simp_all add: visit_Cons del: hdp_append)
  qed
qed

lemma sync_children_result:
  assumes "all_fit (parent_of m) (has_own m) p ts" and "ready m prv p (walk ts) R"
  shows "(\<forall>c e cs ts'. ts = CNode c e cs # ts' \<longrightarrow> sync_result m R lvl ts (sync_run m (Sync c) lvl)) \<and>
    sync_run m (Children p (hdp (walk ts @ R) None)) lvl =
      Some (Inr (if snd (visit ts) then None else hdp R None, inherit m (set (fst (visit ts))) lvl))"
  using assms
proof (induction "length (walk ts)" arbitrary: m prv p ts R rule: less_induct)
  case less
  let ?par = "parent_of m"
  have sync: "sync_result m R lvl ts (sync_run m (Sync c) lvl)" if ts: "ts = CNode c e cs # ts'" for c e cs ts'
  proof (cases e)
    case True
    then show ?thesis using sync_run_own [of m prv p c cs ts' R lvl] less.prems ts by simp
  next
    case False
    let ?m = "inherit m {c} lvl"
    note rd = less.prems(2) [unfolded ts]
    note fit = less.prems(1) [unfolded ts]
    from rd fit obtain cc where cc: "m c = Some cc" "m_next cc = hdp (walk cs @ walk ts' @ R) None" "m_parent cc = Some p"
      "m_lvl cc = level_unset" by (rule ready_node) (use False in simp)
    have kids: "ready ?m (Some c) c (walk cs) (walk ts' @ R)" "ready ?m (lastp (Some c) (walk cs)) p (walk ts') R"
      using ready_kids [OF rd fit] by (simp_all only: ready_inherit)
    have fit': "all_fit (parent_of ?m) (has_own ?m) c cs" "all_fit (parent_of ?m) (has_own ?m) p ts'" using fit by simp_all
    have len: "length (walk cs) < length (walk ts)" "length (walk ts') < length (walk ts)" using ts by simp_all
    note IH = less.hyps [OF len(1) fit'(1) kids(1)] less.hyps [OF len(2) fit'(2) kids(2)]
    let ?T = "walk cs @ walk ts' @ R"
    show ?thesis
    proof (cases ?T)
      case Nil
      then have "sync_run m (Sync c) lvl = Some (Inr (hdp (walk [] @ R) None, inherit m {c} lvl))"
        using cc by (simp add: sync_run.simps [of m "Sync c"] explicit_level_def inherit_one)
      moreover have "ts = [CNode c False []]" using ts False Nil by simp
      ultimately show ?thesis by (auto intro!: sync_result_rest simp: visit_Cons)
    next
      case (Cons i T)
      have "dlink ?m (Some c) ?T None" using kids(1) by (simp add: ready_def)
      then obtain ic where ic: "?m i = Some ic" "m_parent ic = ?par i"
        using dlink_at [of ?m "Some c" i T] unfolding Cons by (metis parent_of_inherit)
      have step: "sync_run m (Sync c) lvl = sync_run ?m (if ?par i = Some p then Sync i else Children c (Some i)) lvl"
        using sync_run_unset [OF cc(1,4) _ ic(1)] cc(2,3) Cons ic(2) by simp
      show ?thesis
      proof (cases "cs = [] \<and> ts' \<noteq> []")
        case True
        then obtain e' cs' ts'' where ts': "ts' = CNode i e' cs' # ts''" using Cons
          by (cases ts' rule: visit.cases) auto
        then have "?par i = Some p" using fit by simp
        then have "sync_result ?m R lvl ts' (sync_run m (Sync c) lvl)" using IH(2) step ts' by simp
        from sync_result_leaf [OF this] True show ?thesis using ts False by simp
      next
        case other: False
        have "?par i \<noteq> Some p"
        proof (cases cs rule: visit.cases)
          case 1
          with other Cons have "R = i # T" by simp
          then show ?thesis using rd by (auto simp: ready_def outside_def)
        next
          case (2 k e' ks cs')
          then have "?par i = Some c" using fit Cons by simp
          then show ?thesis using rd by (auto simp: ready_def)
        qed
        then have run: "sync_run m (Sync c) lvl = Some (Inr (if snd (visit cs) then None else hdp (walk ts' @ R) None,
            inherit m ({c} \<union> set (fst (visit cs))) lvl))"
          using step IH(1) Cons by (simp del: hdp_append)
        show ?thesis
        proof (cases "snd (visit cs)")
          case True
          then show ?thesis using run ts False by (intro sync_result_stop) (auto simp: visit_Cons)
        next
          case go: False
          show ?thesis unfolding ts
            by (rule sync_result_rest [where A = "{c} \<union> set (fst (visit cs))"])
              (use run go False in \<open>auto simp: visit_Cons simp del: hdp_append\<close>)
        qed
      qed
    qed
  qed
  moreover have "sync_run m (Children p (hdp (walk ts @ R) None)) lvl =
      Some (Inr (if snd (visit ts) then None else hdp R None, inherit m (set (fst (visit ts))) lvl))"
  proof (cases ts rule: visit.cases)
    case 1
    have "sync_run m (Children p (hdp R None)) lvl = Some (Inr (hdp R None, m))"
      by (rule sync_run_children_end [of m prv]) (use less.prems(2) 1 in \<open>auto simp: ready_def outside_def\<close>)
    then show ?thesis using 1 by simp
  next
    case (2 c e cs ts')
    from sync [OF 2] obtain q A where q: "sync_run m (Sync c) lvl = Some (Inr (q, inherit m A lvl))"
      "(snd (visit ts) \<and> q = None \<and> A = set (fst (visit ts))) \<or>
       (\<exists>ts1 ts2. ts = ts1 @ ts2 \<and> ts1 \<noteq> [] \<and> q = hdp (walk ts2 @ R) None \<and>
         set (fst (visit ts)) = A \<union> set (fst (visit ts2)) \<and> snd (visit ts) = snd (visit ts2))"
      unfolding sync_result_def by blast
    obtain cc where "m c = Some cc" "m_parent cc = Some p"
      using ready_node [of m prv p c e cs ts' R] less.prems 2 by metis
    then have step: "sync_run m (Children p (hdp (walk ts @ R) None)) lvl = sync_run (inherit m A lvl) (Children p q) lvl"
      using q(1) 2 by (simp add: sync_run.simps [of m "Children p (Some c)"])
    from q(2) show ?thesis
    proof (elim disjE conjE exE)
      assume "snd (visit ts)" "q = None" "A = set (fst (visit ts))"
      then show ?thesis unfolding step by (simp add: sync_run.simps)
    next
      fix ts1 ts2
      assume h: "ts = ts1 @ ts2" "ts1 \<noteq> []" "q = hdp (walk ts2 @ R) None"
        "set (fst (visit ts)) = A \<union> set (fst (visit ts2))" "snd (visit ts) = snd (visit ts2)"
      let ?m = "inherit m A lvl"
      have "length (walk ts2) < length (walk ts)" using h(1,2) by simp
      moreover have "all_fit (parent_of ?m) (has_own ?m) p ts2" using less.prems(1) h(1) by simp
      moreover have "ready m (lastp prv (walk ts1)) p (walk ts2) R"
        by (rule ready_suffix) (use less.prems(2) h(1) in simp)
      then have "ready ?m (lastp prv (walk ts1)) p (walk ts2) R" by (simp only: ready_inherit)
      ultimately have "sync_run ?m (Children p (hdp (walk ts2 @ R) None)) lvl =
          Some (Inr (if snd (visit ts2) then None else hdp R None, inherit ?m (set (fst (visit ts2))) lvl))"
        using less.hyps by blast
      then show ?thesis unfolding step h(3-5) by (simp only: inherit_inherit)
    qed
  qed
  ultimately show ?case by blast
qed

lemma set_level_loop_trees:
  assumes "all_fit (parent_of m) (has_own m) p ts" and "ready m prv p (walk ts) R"
    and "i = hdp (walk ts @ R) None \<or> i = hdp (walk ts) None"
  shows "set_level_loop m p i lvl = Some (Inr (inherit m (set (told ts)) lvl))"
  using assms
proof (induction ts arbitrary: m prv i)
  case Nil
  show ?case
  proof (cases i)
    case (Some r)
    with Nil(3) obtain R' where "R = r # R'" by (cases R) auto
    moreover from this obtain c where "m r = Some c" "m_parent c \<noteq> Some p"
      using Nil(2) by (auto simp: ready_def outside_def parent_of_def)
    ultimately show ?thesis using Some by (simp add: set_level_loop.simps)
  qed (simp add: set_level_loop.simps)
next
  case (Cons t ts)
  obtain c e cs where t: "t = CNode c e cs" by (cases t)
  note fit = Cons.prems(1) [unfolded t] and rd = Cons.prems(2) [unfolded t]
  have i: "i = Some c" using Cons.prems(3) t by auto
  from sync_children_result [OF fit rd, of lvl] obtain q A where
    q: "sync_run m (Sync c) lvl = Some (Inr (q, inherit m A lvl))"
    and A: "set (told1 t) \<subseteq> A" "A \<subseteq> set (told (t # ts))"
    unfolding sync_result_def t by auto
  let ?m = "inherit m A lvl"
  obtain cc where cc: "m c = Some cc" "m_parent cc = Some p" by (rule ready_node [OF rd fit]) blast
  have sib: "find_next_sibling ?m c = Some (Inr (hdp (walk ts) None))"
  proof (rule find_next_sibling_forest [of ?m prv p c "walk cs" "walk ts" R])
    have "ready m prv p (c # walk cs @ walk ts) R" using rd by simp
    then show "ready ?m prv p (c # walk cs @ walk ts) R" by (simp only: ready_inherit)
    show "forest (parent_of ?m) c (walk cs)" "forest (parent_of ?m) p (walk ts)"
      using fit by (auto intro: ctrees_forest [where ex = "has_own m"])
  qed (use fit in simp)
  have "ready m (lastp (Some c) (walk cs)) p (walk ts) R" by (rule ready_kids [OF rd fit])
  then have rd': "ready ?m (lastp (Some c) (walk cs)) p (walk ts) R" by (simp only: ready_inherit)
  have fit': "all_fit (parent_of ?m) (has_own ?m) p ts" using fit by simp
  have "set_level_loop m p i lvl = set_level_loop ?m p (hdp (walk ts) None) lvl"
    using q sib cc i by (simp add: set_level_loop.simps [of m p "Some c"])
  also have "\<dots> = Some (Inr (inherit ?m (set (told ts)) lvl))" by (rule Cons.IH [OF fit' rd']) simp
  also have "A \<union> set (told ts) = set (told (t # ts))" using A by auto
  then have "inherit ?m (set (told ts)) lvl = inherit m (set (told (t # ts))) lvl" by (simp only: inherit_inherit)
  finally show ?case .
qed

end
