(* ===== verification/Logs_Set_Level.thy ===== *)
theory Logs_Set_Level
  imports Logs_Levels
begin

text \<open>
  What \<open>set_level\<close> does to an organized tree: the subtree of a context in the list, the effect of setting
  a level, also compared with the reference of the theory Logs_Levels, construction in an organized
  tree, and runs that leave inherited levels behind.
\<close>

section \<open>Descendants\<close>

inductive descendant :: "(nat \<Rightarrow> ptr) \<Rightarrow> nat \<Rightarrow> nat \<Rightarrow> bool" for par p where
  descendant_child: "par x = Some p \<Longrightarrow> descendant par p x"
| descendant_step: "descendant par p y \<Longrightarrow> par x = Some y \<Longrightarrow> descendant par p x"

lemma descendant_up: "descendant par c x \<Longrightarrow> par c = Some p \<Longrightarrow> descendant par p x"
  by (induction rule: descendant.induct) (auto intro: descendant.intros)

lemma forest_descendant: "forest par p xs \<Longrightarrow> x \<in> set xs \<Longrightarrow> descendant par p x"
  by (induction arbitrary: x rule: forest.induct) (auto intro: descendant_child descendant_up)

text \<open>Each context of an organized list is followed by its subtree, and nothing else in the list is
  below it.\<close>

lemma forest_split:
  assumes "forest par q xs" and "distinct (q # xs)" and "p \<in> set xs"
  shows "\<exists>U f V. xs = U @ p # f @ V \<and> forest par p f \<and> outside par (insert p (set f)) (U @ [p] @ V)"
  using assms
proof (induction rule: forest.induct)
  case (forest_Nil q)
  then show ?case by simp
next
  case (forest_Cons c q as bs)
  have dist: "distinct (q # c # as @ bs)" using forest_Cons.prems by simp
  consider "p = c" | "p \<in> set as" | "p \<in> set bs" using forest_Cons.prems by auto
  then show ?case
  proof cases
    case 1
    have "outside par (insert c (set as)) bs" by (rule forest_outside [OF forest_Cons.hyps(3)]) (use dist in auto)
    moreover have "outside par (insert c (set as)) [c]" using forest_Cons.hyps(1) dist by (auto simp: outside_def)
    ultimately have "c # as @ bs = [] @ p # as @ bs \<and> forest par p as \<and>
        outside par (insert p (set as)) ([] @ [p] @ bs)" using 1 forest_Cons.hyps(2) by simp
    then show ?thesis by blast
  next
    case 2
    have "distinct (c # as)" using dist by simp
    from forest_Cons.IH(1) [OF this 2] obtain U f V where
      U: "as = U @ p # f @ V" "forest par p f" "outside par (insert p (set f)) (U @ [p] @ V)" by blast
    have "outside par (insert p (set f)) bs" by (rule forest_outside [OF forest_Cons.hyps(3)]) (use dist U(1) in auto)
    moreover have "outside par (insert p (set f)) [c]" using forest_Cons.hyps(1) dist U(1) by (auto simp: outside_def)
    ultimately have "c # as @ bs = (c # U) @ p # f @ (V @ bs) \<and> forest par p f \<and>
        outside par (insert p (set f)) ((c # U) @ [p] @ (V @ bs))" using U by simp
    then show ?thesis by blast
  next
    case 3
    have "distinct (q # bs)" using dist by simp
    from forest_Cons.IH(2) [OF this 3] obtain U f V where
      U: "bs = U @ p # f @ V" "forest par p f" "outside par (insert p (set f)) (U @ [p] @ V)" by blast
    have "outside par (insert p (set f)) as" by (rule forest_outside [OF forest_Cons.hyps(2)]) (use dist U(1) in auto)
    moreover have "outside par (insert p (set f)) [c]" using forest_Cons.hyps(1) dist U(1) by (auto simp: outside_def)
    ultimately have "c # as @ bs = (c # as @ U) @ p # f @ V \<and> forest par p f \<and>
        outside par (insert p (set f)) ((c # as @ U) @ [p] @ V)" using U by simp
    then show ?thesis by blast
  qed
qed

lemma descendant_in_subtree:
  assumes "outside par (insert p (set f)) W" and "\<And>x y. par x = Some y \<Longrightarrow> x \<in> set f \<union> set W"
    and "descendant par p x"
  shows "x \<in> set f"
  using assms(3)
proof (induction rule: descendant.induct)
  case (descendant_child x)
  then show ?case using assms(1,2) by (auto simp: outside_def)
next
  case (descendant_step y x)
  then show ?case using assms(1,2) by (auto simp: outside_def)
qed

section \<open>Setting a level\<close>

text \<open>The state once the contexts are organized: all live contexts are in the list, in the order of
  the tree.\<close>

definition organized_logs :: "logs \<Rightarrow> nat list \<Rightarrow> bool" where
  "organized_logs L xs \<longleftrightarrow> g_organized L \<and> linked (contexts L) (root_context # xs) \<and>
     dom (contexts L) = set (root_context # xs) \<and> parent_of (contexts L) root_context = None \<and>
     forest (parent_of (contexts L)) root_context xs"

lemma organized_subtree:
  assumes "organized_logs L xs" and "this \<in> set (root_context # xs)"
  shows "\<exists>U f V. root_context # xs = U @ this # f @ V \<and> forest (parent_of (contexts L)) this f \<and>
    outside (parent_of (contexts L)) (insert this (set f)) (U @ [this] @ V)"
proof (cases "this = root_context")
  case True
  then have "root_context # xs = [] @ this # xs @ []" "forest (parent_of (contexts L)) this xs"
    "outside (parent_of (contexts L)) (insert this (set xs)) ([] @ [this] @ [])"
    using assms(1) by (simp_all add: organized_logs_def outside_def)
  then show ?thesis by blast
next
  case False
  have "distinct (root_context # xs)" using assms(1) by (simp add: organized_logs_def linked_def)
  moreover have "forest (parent_of (contexts L)) root_context xs" using assms(1) by (simp add: organized_logs_def)
  ultimately obtain U f V where U: "xs = U @ this # f @ V" "forest (parent_of (contexts L)) this f"
      "outside (parent_of (contexts L)) (insert this (set f)) (U @ [this] @ V)"
    using forest_split [of "parent_of (contexts L)" root_context xs this] assms(2) False by auto
  have "outside (parent_of (contexts L)) (insert this (set f)) [root_context]"
    using assms(1) by (simp add: organized_logs_def outside_def)
  then have "root_context # xs = (root_context # U) @ this # f @ V"
    "outside (parent_of (contexts L)) (insert this (set f)) ((root_context # U) @ [this] @ V)"
    using U by (simp_all add: outside_def)
  then show ?thesis using U(2) by blast
qed

lemma organized_subtree_set:
  assumes "organized_logs L xs" and "root_context # xs = U @ this # f @ V"
    and "forest (parent_of (contexts L)) this f"
    and "outside (parent_of (contexts L)) (insert this (set f)) (U @ [this] @ V)"
  shows "set f = {x. descendant (parent_of (contexts L)) this x}"
proof -
  have live: "x \<in> set f \<union> set (U @ [this] @ V)" if "parent_of (contexts L) x = Some y" for x y
  proof -
    have "x \<in> dom (contexts L)" using that by (auto simp: parent_of_def split: option.splits)
    then have "x \<in> set (root_context # xs)" using assms(1) by (simp add: organized_logs_def)
    then show ?thesis unfolding assms(2) by auto
  qed
  have "x \<in> set f" if "descendant (parent_of (contexts L)) this x" for x
    using assms(4) live that by (rule descendant_in_subtree)
  with forest_descendant [OF assms(3)] show ?thesis by blast
qed

text \<open>The contexts below one as trees, in the order of the list: they stand right behind it.\<close>

definition trees_below :: "logs \<Rightarrow> nat list \<Rightarrow> nat \<Rightarrow> ctree list \<Rightarrow> bool" where
  "trees_below L xs this ts \<longleftrightarrow> all_fit (parent_of (contexts L)) (has_own (contexts L)) this ts \<and>
     (\<exists>U V. root_context # xs = U @ this # walk ts @ V) \<and>
     set (walk ts) = {x. descendant (parent_of (contexts L)) this x}"

lemma distinct_suffix_eq:
  assumes "U @ x # f @ V = U' @ x # f' @ V'" and "distinct (U @ x # f @ V)" and "set f = set f'"
  shows "f = f'"
proof -
  have d: "distinct (U' @ x # f' @ V')" using assms(1,2) by simp
  have eq: "f @ V = f' @ V'" using split_unique [OF assms(1) d] by blast
  have "length f = length f'" using assms(2,3) d by (metis distinct.simps(2) distinct_append distinct_card)
  then show ?thesis using eq by simp
qed

lemma trees_below_unique:
  assumes "organized_logs L xs" and "trees_below L xs this ts" and "trees_below L xs this ts'"
  shows "ts = ts'"
proof -
  obtain U V where U: "root_context # xs = U @ this # walk ts @ V" using assms(2) by (auto simp: trees_below_def)
  obtain U' V' where U': "root_context # xs = U' @ this # walk ts' @ V'" using assms(3) by (auto simp: trees_below_def)
  have "distinct (root_context # xs)" using assms(1) by (simp add: organized_logs_def linked_def)
  then have d: "distinct (U @ this # walk ts @ V)" unfolding U .
  have eq: "U @ this # walk ts @ V = U' @ this # walk ts' @ V'" using U U' by simp
  have w: "walk ts = walk ts'"
    by (rule distinct_suffix_eq [OF eq d]) (use assms(2,3) in \<open>simp add: trees_below_def\<close>)
  show ?thesis
    by (rule trees_unique [OF _ _ w]) (use assms(2,3) d in \<open>auto simp: trees_below_def\<close>)
qed

lemma set_level_trees:
  assumes "organized_logs L xs" and "this \<in> set (root_context # xs)" and "contexts L this = Some c"
  shows "\<exists>ts. trees_below L xs this ts \<and> distinct (this # walk ts) \<and>
    set_level b this lvl L = Some (Inr (L\<lparr>contexts :=
      inherit ((contexts L)(this \<mapsto> c\<lparr>m_lvl := lvl\<rparr>)) (set (told ts))
        (if lvl \<noteq> level_unset then lvl else m_inherited_level c)\<rparr>))"
proof -
  let ?par = "parent_of (contexts L)" and ?m = "(contexts L)(this \<mapsto> c\<lparr>m_lvl := lvl\<rparr>)"
  let ?l = "if lvl \<noteq> level_unset then lvl else m_inherited_level c"
  from organized_subtree [OF assms(1,2)] obtain U f V where
    U: "root_context # xs = U @ this # f @ V" "forest ?par this f" "outside ?par (insert this (set f)) (U @ [this] @ V)"
    by blast
  note f = organized_subtree_set [OF assms(1) U]
  from forest_trees [OF U(2), of "has_own (contexts L)"] obtain ts where
    ts: "f = walk ts" "all_fit ?par (has_own (contexts L)) this ts" by blast
  have par: "parent_of ?m = ?par" using assms(3) by (auto simp: parent_of_def fun_eq_iff)
  have lk: "linked (contexts L) (U @ this # f @ V)" using assms(1) U(1) by (simp add: organized_logs_def)
  have "linked ?m (U @ this # f @ V)"
    by (rule linked_same_links [OF lk]) (use assms(3) in auto)
  then have dl: "dlink ?m (lastp None U) (this # f @ V) None" "distinct (this # f @ V)"
    by (simp_all add: linked_def)
  have rd: "ready ?m (Some this) this (walk ts) V"
    unfolding ready_def par using dl U(3) ts(1) by auto
  have "all_fit ?par (has_own ?m) this ts"
  proof (rule all_fit_cong [OF ts(2)])
    fix x assume "x \<in> set (walk ts)"
    then have "x \<noteq> this" using dl(2) ts(1) by auto
    then show "has_own ?m x = has_own (contexts L) x" by (simp add: lvl_of_def)
  qed
  then have "set_level_loop ?m this (hdp (f @ V) None) ?l = Some (Inr (inherit ?m (set (told ts)) ?l))"
    by (intro set_level_loop_trees [OF _ rd]) (simp_all add: par ts(1))
  moreover have "m_next c = hdp (f @ V) None" using dl(1) assms(3) by simp
  ultimately have "set_level b this lvl L = Some (Inr (L\<lparr>contexts := inherit ?m (set (told ts)) ?l\<rparr>))"
    using assms(1,3) by (cases "lvl = level_unset") (simp_all add: set_level_def ensure_organized_def organized_logs_def)
  moreover have "trees_below L xs this ts" unfolding trees_below_def
    using ts U(1) f by (intro conjI exI [of _ U] exI [of _ V]) simp_all
  moreover have "distinct (this # walk ts)" using dl(2) ts(1) by simp
  ultimately show ?thesis by blast
qed

lemma set_level_organized:
  assumes "organized_logs L xs" and "this \<in> set (root_context # xs)" and "lvl \<noteq> level_unset"
    and "\<And>x. descendant (parent_of (contexts L)) this x \<Longrightarrow> lvl_of (contexts L) x = level_unset"
    and "contexts L this = Some c"
  shows "set_level b this lvl L = Some (Inr (L\<lparr>contexts :=
    inherit ((contexts L)(this \<mapsto> c\<lparr>m_lvl := lvl\<rparr>)) {x. descendant (parent_of (contexts L)) this x} lvl\<rparr>))"
proof -
  from set_level_trees [OF assms(1,2,5), of b lvl] obtain ts where
    ts: "all_fit (parent_of (contexts L)) (has_own (contexts L)) this ts"
      "set (walk ts) = {x. descendant (parent_of (contexts L)) this x}"
      "set_level b this lvl L = Some (Inr (L\<lparr>contexts :=
        inherit ((contexts L)(this \<mapsto> c\<lparr>m_lvl := lvl\<rparr>)) (set (told ts)) lvl\<rparr>))"
    using assms(3) by (auto simp: trees_below_def)
  have "free t = preorder t \<and> last_free t" if "t \<in> set ts" for t
  proof (rule free_all [of _ "has_own (contexts L)" "parent_of (contexts L)" this])
    fix x assume "x \<in> set (preorder t)"
    then have "x \<in> set (walk ts)" using that by auto
    then show "\<not> has_own (contexts L) x" unfolding ts(2) using assms(4) by blast
  qed (use ts(1) that in blast)
  then have "told ts = walk ts" by (simp add: told_free cong: map_cong)
  then show ?thesis using ts(2,3) by simp
qed

text \<open>Setting a level on an organized tree gives it to the context and to all its descendants, as
  their effective level, and changes no other context, when no descendant has a level of its own.\<close>

theorem set_level_inherits:
  assumes "organized_logs L xs" and "this \<in> set (root_context # xs)" and "lvl \<noteq> level_unset"
    and "\<And>x. descendant (parent_of (contexts L)) this x \<Longrightarrow> lvl_of (contexts L) x = level_unset"
  shows "\<exists>L'. set_level b this lvl L = Some (Inr L') \<and>
    (\<forall>x. x = this \<or> descendant (parent_of (contexts L)) this x \<longrightarrow>
       (\<exists>c. contexts L' x = Some c \<and> effective_level c = lvl)) \<and>
    (\<forall>x. x \<noteq> this \<longrightarrow> \<not> descendant (parent_of (contexts L)) this x \<longrightarrow> contexts L' x = contexts L x)"
proof -
  let ?D = "{x. descendant (parent_of (contexts L)) this x}"
  have "this \<in> dom (contexts L)" using assms(1,2) by (simp add: organized_logs_def)
  then obtain c where c: "contexts L this = Some c" by blast
  have live: "\<exists>cx. contexts L x = Some cx" if "descendant (parent_of (contexts L)) this x" for x
    using that by (cases rule: descendant.cases) (auto simp: parent_of_def split: option.splits)
  have "\<exists>c'. inherit ((contexts L)(this \<mapsto> c\<lparr>m_lvl := lvl\<rparr>)) ?D lvl x = Some c' \<and> effective_level c' = lvl"
    if "x = this \<or> descendant (parent_of (contexts L)) this x" for x
  proof (cases "x = this")
    case True
    then show ?thesis using assms(3) by (auto simp: inherit_def effective_level_def)
  next
    case False
    with that live obtain cx where "contexts L x = Some cx" "descendant (parent_of (contexts L)) this x" by blast
    moreover from this have "m_lvl cx = level_unset" using assms(4) [of x] by (simp add: lvl_of_def)
    ultimately show ?thesis using False by (auto simp: inherit_def effective_level_def)
  qed
  moreover have "inherit ((contexts L)(this \<mapsto> c\<lparr>m_lvl := lvl\<rparr>)) ?D lvl x = contexts L x"
    if "x \<noteq> this" "\<not> descendant (parent_of (contexts L)) this x" for x
    using that by (simp add: inherit_def)
  ultimately show ?thesis using set_level_organized [OF assms c, of b] by simp
qed

theorem set_level_inherits_witness:
  "\<exists>L c. set_level Debug root_context level_warn (logs_init\<lparr>g_organized := True\<rparr>) = Some (Inr L) \<and>
    contexts L root_context = Some c \<and> effective_level c = level_warn"
proof -
  let ?L = "logs_init\<lparr>g_organized := True\<rparr>"
  have org: "organized_logs ?L []"
    by (auto simp: organized_logs_def logs_init_def linked_def root_ctx_def parent_of_def intro: forest.intros)
  have none: "\<not> descendant (parent_of (contexts ?L)) root_context x" for x
  proof
    assume "descendant (parent_of (contexts ?L)) root_context x"
    then show False
      by cases (auto simp: parent_of_def logs_init_def root_ctx_def split: if_splits option.splits)
  qed
  from set_level_inherits [OF org, of root_context level_warn Debug] none show ?thesis by auto
qed

text \<open>C4. What setting a level reaches on an organized tree, whatever levels the descendants have.  The contexts
  below the one whose level is set stand right behind it in the list, each in front of its own, and this makes trees
  of them in one way only (\<open>trees_below\<close>).  The inherited level of exactly the contexts that the reference \<open>told\<close> computes
  from these trees, and nothing else, changes.  When no context that has a level of its own is the last child of a
  descendant, these are all the contexts that no level of their own or of a context in between
  keeps from inheriting.\<close>

theorem set_level_reference:
  assumes "organized_logs L xs" and "this \<in> set (root_context # xs)" and "contexts L this = Some c"
  shows "\<exists>ts. trees_below L xs this ts \<and> (\<forall>ts'. trees_below L xs this ts' \<longrightarrow> ts' = ts) \<and> distinct (this # walk ts) \<and>
    set_level b this lvl L = Some (Inr (L\<lparr>contexts :=
      inherit ((contexts L)(this \<mapsto> c\<lparr>m_lvl := lvl\<rparr>)) (set (told ts))
        (if lvl \<noteq> level_unset then lvl else m_inherited_level c)\<rparr>)) \<and>
    ((\<forall>t \<in> set ts. last_free t) \<longrightarrow> told ts = concat (map free ts))"
proof -
  from set_level_trees [OF assms, of b lvl] obtain ts where
    "trees_below L xs this ts" "distinct (this # walk ts)"
    "set_level b this lvl L = Some (Inr (L\<lparr>contexts :=
      inherit ((contexts L)(this \<mapsto> c\<lparr>m_lvl := lvl\<rparr>)) (set (told ts))
        (if lvl \<noteq> level_unset then lvl else m_inherited_level c)\<rparr>))" by blast
  moreover have "(\<forall>t \<in> set ts. last_free t) \<longrightarrow> told ts = concat (map free ts)" using told_free by blast
  ultimately show ?thesis using trees_below_unique [OF assms(1)] by blast
qed

text \<open>A context 11 whose last child 12 has a level, in front of a sibling 13.\<close>

definition own_last_child :: logs where
  "own_last_child = \<lparr>contexts =
     [root_context \<mapsto> root_ctx\<lparr>m_next := Some 11\<rparr>,
      11 \<mapsto> root_ctx\<lparr>m_parent := Some root_context, m_prev := Some root_context, m_next := Some 12\<rparr>,
      12 \<mapsto> root_ctx\<lparr>m_parent := Some 11, m_prev := Some 11, m_next := Some 13, m_lvl := level_error\<rparr>,
      13 \<mapsto> root_ctx\<lparr>m_parent := Some root_context, m_prev := Some 12\<rparr>], g_organized = True\<rparr>"

lemma own_last_child_organized: "organized_logs own_last_child [11, 12, 13]"
proof -
  let ?par = "parent_of (contexts own_last_child)"
  have par: "?par 11 = Some root_context" "?par 12 = Some 11" "?par 13 = Some root_context" "?par root_context = None"
    by (simp_all add: own_last_child_def parent_of_def root_context_def root_ctx_def)
  note step = forest_Cons [of ?par]
  have f: "forest ?par 11 [12]" "forest ?par root_context [13]"
    using step [of 12 11 "[]" "[]"] step [of 13 root_context "[]" "[]"] par by (simp_all add: forest_Nil)
  have "forest ?par root_context [11, 12, 13]" using step [OF par(1) f] by simp
  then show ?thesis using par
    by (auto simp: organized_logs_def own_last_child_def linked_def root_context_def root_ctx_def)
qed

theorem set_level_reference_witness:
  "\<exists>c ts. trees_below own_last_child [11, 12, 13] root_context ts \<and>
    set_level Debug root_context level_warn own_last_child = Some (Inr (own_last_child\<lparr>contexts :=
      inherit ((contexts own_last_child)(root_context \<mapsto> c\<lparr>m_lvl := level_warn\<rparr>)) (set (told ts)) level_warn\<rparr>))"
proof -
  have "root_context \<in> set (root_context # [11, 12, 13])" by simp
  moreover have "contexts own_last_child root_context = Some (root_ctx\<lparr>m_next := Some 11\<rparr>)"
    by (simp add: own_last_child_def root_context_def)
  ultimately have "\<exists>ts. trees_below own_last_child [11, 12, 13] root_context ts \<and>
      set_level Debug root_context level_warn own_last_child = Some (Inr (own_last_child\<lparr>contexts :=
        inherit ((contexts own_last_child)(root_context \<mapsto> root_ctx\<lparr>m_next := Some 11\<rparr>\<lparr>m_lvl := level_warn\<rparr>))
          (set (told ts)) (if level_warn \<noteq> level_unset then level_warn else m_inherited_level (root_ctx\<lparr>m_next := Some 11\<rparr>))\<rparr>))"
    using set_level_reference [OF own_last_child_organized] by blast
  then show ?thesis by (simp only: level.distinct simp_thms if_True) blast
qed

section \<open>Staying organized\<close>

lemma forest_cong: "forest par p xs \<Longrightarrow> (\<And>x. x \<in> set xs \<Longrightarrow> par' x = par x) \<Longrightarrow> forest par' p xs"
  by (induction rule: forest.induct) (auto intro: forest.intros)

lemma insert_behind_append:
  "insert_behind p t (xs @ ys) = (if p \<in> set xs then insert_behind p t xs @ ys else xs @ insert_behind p t ys)"
  by (induction xs) auto

lemma forest_insert:
  assumes "forest par q xs" and "distinct (q # xs)" and "p \<in> set (q # xs)"
    and "par' t = Some p" and "\<And>x. x \<in> set xs \<Longrightarrow> par' x = par x"
  shows "forest par' q (if p = q then t # xs else insert_behind p t xs)"
  using assms
proof (induction rule: forest.induct)
  case (forest_Nil q)
  then show ?case using forest_Cons [of par' t q "[]" "[]"] by (auto intro: forest.forest_Nil)
next
  case (forest_Cons c q as bs)
  have old: "forest par' c as" "forest par' q bs" "par' c = Some q"
    using forest_Cons.hyps forest_Cons.prems(4) by (auto intro: forest_cong)
  consider "p = q" | "p \<noteq> q" "p \<in> set (c # as)" | "p \<in> set bs" "p \<noteq> q" "p \<notin> set (c # as)"
    using forest_Cons.prems(1,2) by auto
  then show ?case
  proof cases
    case 1
    have "forest par' q (c # as @ bs)" using old(3,1,2) by (rule forest.forest_Cons)
    then show ?thesis using forest.forest_Cons [of par' t q "[]" "c # as @ bs"] forest_Cons.prems(3) 1
      by (simp add: forest.forest_Nil)
  next
    case 2
    then have "forest par' c (if p = c then t # as else insert_behind p t as)"
      using forest_Cons.IH(1) forest_Cons.prems by auto
    from forest.forest_Cons [OF old(3) this old(2)] show ?thesis using 2 by (auto simp: insert_behind_append)
  next
    case 3
    then have "forest par' q (if p = q then t # bs else insert_behind p t bs)"
      using forest_Cons.IH(2) forest_Cons.prems by auto
    from forest.forest_Cons [OF old(3,1) this] show ?thesis using 3 by (auto simp: insert_behind_append)
  qed
qed

lemma set_insert_behind: "p \<in> set xs \<Longrightarrow> set (insert_behind p t xs) = insert t (set xs)"
  by (induction xs) auto

lemma payload_parent_at: "payload m a = payload m' a \<Longrightarrow> parent_of m a = parent_of m' a"
  using payload_eq_iff [of "m a" "m' a"]
  by (cases "m a"; cases "m' a") (auto simp: payload_def parent_of_def)

lemma payload_dom_at: "payload m a = payload m' a \<Longrightarrow> a \<in> dom m \<longleftrightarrow> a \<in> dom m'"
  by (cases "m a"; cases "m' a") (auto simp: payload_def)

text \<open>Once the contexts are organized, constructing another one keeps them organized: it is put right behind its
  parent, so every context is still followed by its descendants.\<close>

theorem ctx_ctor_stays_organized:
  assumes "organized_logs L xs" and "this \<notin> dom (contexts L)" and "parent \<in> set (root_context # xs)"
  shows "\<exists>L' ys. ctx_ctor b parent name this L = Some (Inr L') \<and> organized_logs L' ys \<and> set ys = insert this (set xs)"
proof -
  let ?par = "parent_of (contexts L)"
  have lk: "linked (contexts L) (root_context # xs)" and org: "g_organized L"
    and dom: "dom (contexts L) = set (root_context # xs)" and rp: "?par root_context = None"
    and fo: "forest ?par root_context xs"
    using assms(1) by (simp_all add: organized_logs_def)
  from ctx_ctor_spec [OF lk assms(2,3), of b name] org obtain L' c where
    L': "ctx_ctor b parent name this L = Some (Inr L')" "g_organized L'"
      "linked (contexts L') (insert_behind parent this (root_context # xs))"
      "contexts L' this = Some c" "m_parent c = Some parent"
      "\<And>a. a \<noteq> this \<Longrightarrow> payload (contexts L') a = payload (contexts L) a" by auto
  let ?ys = "if parent = root_context then this # xs else insert_behind parent this xs"
  have ins: "insert_behind parent this (root_context # xs) = root_context # ?ys" by simp
  have new: "this \<notin> set (root_context # xs)" using assms(2) dom by simp
  have par: "parent_of (contexts L') a = ?par a" if "a \<noteq> this" for a
    using L'(6) [OF that] by (rule payload_parent_at)
  have set: "set ?ys = insert this (set xs)" using assms(3) by (auto simp: set_insert_behind)
  have "forest (parent_of (contexts L')) root_context ?ys"
  proof (rule forest_insert [OF fo])
    show "distinct (root_context # xs)" using lk by (simp add: linked_def)
    show "parent_of (contexts L') this = Some parent" using L'(4,5) by (simp add: parent_of_def)
    fix x assume "x \<in> set xs"
    then show "parent_of (contexts L') x = ?par x" using new by (intro par) auto
  qed (rule assms(3))
  moreover have "dom (contexts L') = set (root_context # ?ys)"
  proof (rule set_eqI)
    fix a show "a \<in> dom (contexts L') \<longleftrightarrow> a \<in> set (root_context # ?ys)"
      using payload_dom_at [OF L'(6), of a] L'(4) dom set by (cases "a = this") auto
  qed
  moreover have "parent_of (contexts L') root_context = None" using par [of root_context] rp new by auto
  ultimately have "organized_logs L' ?ys" using L'(2,3) unfolding organized_logs_def ins by simp
  then show ?thesis using L'(1) set by blast
qed

theorem ctx_ctor_stays_organized_witness:
  "\<exists>L' ys. ctx_ctor Debug root_context ''app'' 7 (logs_init\<lparr>g_organized := True\<rparr>) = Some (Inr L') \<and>
    organized_logs L' ys \<and> set ys = {7}"
proof -
  have "organized_logs (logs_init\<lparr>g_organized := True\<rparr>) []"
    by (auto simp: organized_logs_def logs_init_def linked_def root_ctx_def parent_of_def intro: forest.intros)
  from ctx_ctor_stays_organized [OF this, of 7 root_context Debug "''app''"] show ?thesis
    by (simp add: logs_init_def root_context_def)
qed

section \<open>Where inherited levels go stale\<close>

text \<open>The effective level of each of some contexts after a run.\<close>

definition effective_levels :: "logs result option \<Rightarrow> nat list \<Rightarrow> (level list) result option" where
  "effective_levels r as = obind r (\<lambda>L. Some (Inr (map (\<lambda>a. effective_level (the (contexts L a))) as)))"

text \<open>A context 1 with a child 2 that has the children 4 and 3, in this order; 4 has a child 5 with a
  level of its own.  Context 3 keeps the level it had, although none of its ancestors has that level any more.\<close>

definition explicit_grandchild :: "build \<Rightarrow> logs result option" where
  "explicit_grandchild b =
     obind (set_level b root_context level_info logs_init) (\<lambda>L.
     obind (ctx_ctor b root_context ''p'' 1 L) (\<lambda>L.
     obind (ctx_ctor b 1 ''q'' 2 L) (\<lambda>L.
     obind (ctx_ctor b 2 ''c2'' 3 L) (\<lambda>L.
     obind (ctx_ctor b 2 ''c1'' 4 L) (\<lambda>L.
     obind (ctx_ctor b 4 ''g'' 5 L) (\<lambda>L.
     obind (set_level b 5 level_warn L) (set_level b 1 level_trace)))))))"

theorem explicit_grandchild_skips:
  "effective_levels (explicit_grandchild Debug) [1, 2, 4, 5, 3] =
     Some (Inr [level_trace, level_trace, level_trace, level_warn, level_info])"
  by code_simp

text \<open>C37. A context with a level of its own that is the last child of its parent ends the walk through the siblings
  of that parent as well.  Let \<open>p\<close> be a child of the context whose level is set, \<open>q\<close> a child of \<open>p\<close> and \<open>g\<close> the last
  child of \<open>q\<close>, with a level of its own: then no child of \<open>p\<close> behind \<open>q\<close>, and nothing below one, is told about the
  new level, although all of them without a level of their own should inherit it, unless one in between has a level.\<close>

theorem set_level_skips_siblings:
  assumes "organized_logs L xs" and "trees_below L xs this ts"
    and "CNode p False (ss @ CNode q False (ds @ [CNode g True es]) # rs) \<in> set ts"
  shows "\<exists>L'. set_level b this lvl L = Some (Inr L') \<and> (\<forall>x \<in> set (walk rs). contexts L' x = contexts L x) \<and>
    set (concat (map free rs)) \<subseteq> set (concat (map free ts))"
proof -
  have mem: "this \<in> set (root_context # xs)" using assms(2) unfolding trees_below_def by (metis in_set_conv_decomp)
  then obtain c where c: "contexts L this = Some c" using assms(1) unfolding organized_logs_def by blast
  from set_level_trees [OF assms(1) mem c, of b lvl] obtain ts' where ts': "trees_below L xs this ts'" "distinct (this # walk ts')"
    "set_level b this lvl L = Some (Inr (L\<lparr>contexts := inherit ((contexts L)(this \<mapsto> c\<lparr>m_lvl := lvl\<rparr>)) (set (told ts'))
        (if lvl \<noteq> level_unset then lvl else m_inherited_level c)\<rparr>))" by blast
  have "ts' = ts" by (rule trees_below_unique [OF assms(1) ts'(1) assms(2)])
  then have d: "distinct (this # walk ts)" and skip: "set (walk rs) \<inter> set (told ts') = {}"
    using told_skips [OF _ assms(3)] ts'(2) by auto
  have "set (preorder (CNode p False (ss @ CNode q False (ds @ [CNode g True es]) # rs))) \<subseteq> set (walk ts)"
    using UN_upper [OF assms(3), of "\<lambda>t. set (preorder t)"] by simp
  then have sub: "set (walk rs) \<subseteq> set (walk ts)" by simp
  have "set (free (CNode p False (ss @ CNode q False (ds @ [CNode g True es]) # rs))) \<subseteq> set (concat (map free ts))"
    using UN_upper [OF assms(3), of "\<lambda>t. set (free t)"] by simp
  then have free: "set (concat (map free rs)) \<subseteq> set (concat (map free ts))" by simp
  have "inherit ((contexts L)(this \<mapsto> c\<lparr>m_lvl := lvl\<rparr>)) (set (told ts')) l x = contexts L x" if "x \<in> set (walk rs)" for x l
  proof -
    have "x \<noteq> this" "x \<notin> set (told ts')" using that sub d skip by auto
    then show ?thesis by (simp add: inherit_def)
  qed
  then show ?thesis using ts'(3) free by auto
qed

text \<open>Context 11 has the children 12 and 14; 13, the only child of 12, has a level.\<close>

definition skipped_sibling :: logs where
  "skipped_sibling = \<lparr>contexts =
     [root_context \<mapsto> root_ctx\<lparr>m_next := Some 11\<rparr>,
      11 \<mapsto> root_ctx\<lparr>m_parent := Some root_context, m_prev := Some root_context, m_next := Some 12\<rparr>,
      12 \<mapsto> root_ctx\<lparr>m_parent := Some 11, m_prev := Some 11, m_next := Some 13\<rparr>,
      13 \<mapsto> root_ctx\<lparr>m_parent := Some 12, m_prev := Some 12, m_next := Some 14, m_lvl := level_error\<rparr>,
      14 \<mapsto> root_ctx\<lparr>m_parent := Some 11, m_prev := Some 13\<rparr>], g_organized = True\<rparr>"

lemma skipped_sibling_trees:
  "organized_logs skipped_sibling [11, 12, 13, 14] \<and>
   trees_below skipped_sibling [11, 12, 13, 14] root_context
     [CNode 11 False [CNode 12 False [CNode 13 True []], CNode 14 False []]]" (is "_ \<and> trees_below _ _ _ ?ts")
proof -
  let ?par = "parent_of (contexts skipped_sibling)"
  have par: "?par 11 = Some root_context" "?par 12 = Some 11" "?par 13 = Some 12" "?par 14 = Some 11" "?par root_context = None"
    by (simp_all add: skipped_sibling_def parent_of_def root_context_def root_ctx_def)
  have fit: "all_fit ?par (has_own (contexts skipped_sibling)) root_context ?ts"
    by (simp add: par) (simp add: skipped_sibling_def lvl_of_def root_context_def root_ctx_def)
  from ctrees_forest [OF fit] have fo: "forest ?par root_context [11, 12, 13, 14]" by simp
  then have org: "organized_logs skipped_sibling [11, 12, 13, 14]" using par(5)
    by (auto simp: organized_logs_def skipped_sibling_def linked_def root_context_def root_ctx_def)
  have eq: "root_context # [11, 12, 13, 14] = [] @ root_context # [11, 12, 13, 14] @ []" by simp
  have "set [11, 12, 13, 14] = {x. descendant ?par root_context x}"
    by (rule organized_subtree_set [OF org eq fo]) (simp add: outside_def par)
  then have "trees_below skipped_sibling [11, 12, 13, 14] root_context ?ts"
    unfolding trees_below_def using fit by (intro conjI exI [of _ "[]"]) auto
  with org show ?thesis ..
qed

theorem set_level_skips_siblings_witness:
  "\<exists>L'. set_level Debug root_context level_warn skipped_sibling = Some (Inr L') \<and>
    contexts L' 14 = contexts skipped_sibling 14"
proof -
  have t: "CNode 11 False ([] @ CNode 12 False ([] @ [CNode 13 True []]) # [CNode 14 False []]) \<in>
      set [CNode 11 False [CNode 12 False [CNode 13 True []], CNode 14 False []]]" by simp
  from set_level_skips_siblings [OF conjunct1 [OF skipped_sibling_trees] conjunct2 [OF skipped_sibling_trees] t,
      of Debug level_warn]
  show ?thesis by auto
qed

definition unset_after_change :: "build \<Rightarrow> logs result option" where
  "unset_after_change b =
     obind (set_level b root_context level_info logs_init) (\<lambda>L.
     obind (ctx_ctor b root_context ''p'' 1 L) (\<lambda>L.
     obind (set_level b 1 level_debug L) (\<lambda>L.
     obind (set_level b root_context level_error L) (set_level b 1 level_unset))))"

text \<open>Unsetting a level does not make the inherited level take effect when an ancestor's level
  changed meanwhile: a context with a level of its own is not told about the change, and falls back
  to the level its parent had before.\<close>

theorem unset_level_stale:
  "effective_levels (unset_after_change Debug) [root_context, 1] = Some (Inr [level_error, level_info])"
  by code_simp

text \<open>Two translation units that use the library have a context \<open>upp\<close> each, 1 and 2, and the second one the
  codec's logger, 3.  A level set on the first \<open>upp\<close> does not reach the contexts of the other unit.\<close>

definition two_units :: "build \<Rightarrow> logs result option" where
  "two_units b =
     obind (upp_context b 1 logs_init) (\<lambda>L.
     obind (upp_context b 2 L) (\<lambda>L.
     obind (codec_logger b 2 3 L) (\<lambda>L.
     obind (set_level b root_context level_info L) (set_level b 1 level_trace))))"

theorem upp_context_per_unit:
  "effective_levels (two_units Release) [1, 2, 3] = Some (Inr [level_trace, level_info, level_info])"
  by code_simp

end
