(* ===== verification/Ints.thy ===== *)
theory Ints
  imports Prelude
begin

text \<open>
  Integers and bit masks: \<open>core/include/upp/int.hpp\<close>, \<open>cast.hpp\<close> and \<open>bitmask.hpp\<close>.  An unsigned integer
  type of the program is a word type; \<open>int\<close> has 32 bits, the width of every platform the library
  builds for, and a shift of an \<open>int\<close> by 32 or more is undefined.
\<close>

section \<open>Integer helpers\<close>

text \<open>The expression \<open>1 << i\<close>.\<close>

definition shift_one :: "nat \<Rightarrow> 32 word result" where
  "shift_one i = (if i < 32 then Inr (push_bit i 1) else Inl Undefined)"

lemma shift_one_in [simp]: "i < 32 \<Longrightarrow> shift_one i = Inr (push_bit i 1)"
  by (simp add: shift_one_def)

lemma shift_one_out [simp]: "32 \<le> i \<Longrightarrow> shift_one i = Inl Undefined"
  by (simp add: shift_one_def)

text \<open>\<open>t & m\<close> for an unsigned \<open>t\<close> and an \<open>int\<close> \<open>m\<close>: the narrower operand is converted to the
  wider type.\<close>

definition and_nonzero :: "'a::len word \<Rightarrow> 32 word \<Rightarrow> bool" where
  "and_nonzero t m = (if LENGTH('a) \<le> 32 then (ucast t :: 32 word) AND m \<noteq> 0 else t AND scast m \<noteq> 0)"

(* core/include/upp/int.hpp 8-18: all_set *)
definition all_set :: "'a::len word" where
  "all_set = of_nat (2 ^ LENGTH('a) - 1)"

(* core/include/upp/int.hpp 20-32: count_set_bits *)
definition count_set_bits :: "'a::len word \<Rightarrow> nat result" where
  "count_set_bits t = rfold (\<lambda>i set_bits.
     rbind (shift_one i) (\<lambda>m. Inr (if and_nonzero t m then Suc set_bits else set_bits)))
     [0..<LENGTH('a)] 0"

lemma and_shift_nonzero: "(w AND push_bit i 1 \<noteq> 0) = (bit w i \<and> i < LENGTH('a))" for w :: "'a::len word"
proof -
  have "bit (w AND push_bit i 1) n \<longleftrightarrow> bit w i \<and> n = i" for n
    by (auto simp: bit_simps dest: bit_imp_le_length)
  then show ?thesis by (auto simp: bit_eq_iff dest: bit_imp_le_length)
qed

lemma and_nonzero_narrow:
  "LENGTH('a::len) \<le> 32 \<Longrightarrow> i < 32 \<Longrightarrow> and_nonzero (t :: 'a word) (push_bit i 1) = bit t i"
  unfolding and_nonzero_def if_P and_shift_nonzero
  by (auto simp: bit_ucast_iff dest: bit_imp_le_length)

lemmas and_nonzero_power = and_nonzero_narrow [unfolded push_bit_of_1]

lemma nonzero_bit: "w \<noteq> 0 \<longleftrightarrow> (\<exists>n. bit w n)" for w :: "'a::len word"
proof -
  have "w = 0 \<longleftrightarrow> (\<forall>n. \<not> bit w n)" by (auto simp: bit_eq_iff dest: bit_imp_le_length)
  then show ?thesis by blast
qed

lemma card_filter_Suc: "card {i. i < Suc n \<and> P i} = card {i. i < n \<and> P i} + of_bool (P n)"
proof (cases "P n")
  case True
  then have "{i. i < Suc n \<and> P i} = insert n {i. i < n \<and> P i}" by auto
  then show ?thesis using True by simp
next
  case False
  then have "{i. i < Suc n \<and> P i} = {i. i < n \<and> P i}" by (auto simp: less_Suc_eq)
  then show ?thesis using False by simp
qed

lemma count_set_bits_eq:
  "count_set_bits (t :: 'a::len word) =
     (if LENGTH('a) \<le> 32 then Inr (card {i. i < LENGTH('a) \<and> bit t i}) else Inl Undefined)"
proof (cases "LENGTH('a) \<le> 32")
  case True
  have "\<exists>s. count_set_bits t = Inr s \<and> s = card {i. i < LENGTH('a) \<and> bit t i}"
    unfolding count_set_bits_def
    by (rule rfold_upt_invariant [where P = "\<lambda>k s. s = card {i. i < k \<and> bit t i}"])
      (use True in \<open>auto simp: and_nonzero_power card_filter_Suc\<close>)
  then show ?thesis using True by simp
next
  case False
  have step: "\<exists>s. rfold (\<lambda>i set_bits.
     rbind (shift_one i) (\<lambda>m. Inr (if and_nonzero t m then Suc set_bits else set_bits))) [0..<32] 0 = Inr s \<and> True"
    by (rule rfold_upt_invariant [where P = "\<lambda>_ _. True"]) auto
  have "[0..<LENGTH('a)] = [0..<32] @ 32 # [33..<LENGTH('a)]"
    using False upt_add_eq_append [of 0 32 "LENGTH('a) - 32"] upt_conv_Cons [of 32 "LENGTH('a)"] by simp
  then show ?thesis using step False by (auto simp: count_set_bits_def rfold_append)
qed

text \<open>C38. \<open>count_set_bits\<close> is the number of one bits of integers of up to 32 bits; on wider types it
  shifts an \<open>int\<close> too far, which is undefined.\<close>

theorem count_set_bits_popcount:
  "count_set_bits (t :: 'a::len word) =
     (if LENGTH('a) \<le> 32 then Inr (card {i. i < LENGTH('a) \<and> bit t i}) else Inl Undefined)"
  by (rule count_set_bits_eq)

lemma bit_all_set: "bit (all_set :: 'a::len word) i = (i < LENGTH('a))"
proof -
  have "(of_nat (2 ^ LENGTH('a) - 1) :: 'a word) = mask LENGTH('a)"
    by (simp add: mask_eq_exp_minus_1)
  then show ?thesis by (simp add: all_set_def bit_simps)
qed

section \<open>Bit masks of enumerators\<close>

text \<open>An enumeration is described by its enumerators, in the order of their declaration, and the
  values they have in its underlying type.\<close>

(* core/include/upp/cast.hpp 8-11: underlying_cast *)
definition underlying_cast :: "('e \<Rightarrow> 'a::len word) \<Rightarrow> 'e \<Rightarrow> 'a word" where
  "underlying_cast value e = value e"

(* core/include/upp/cast.hpp 13-16: underlying_cast *)
definition underlying_uncast :: "('a::len word \<Rightarrow> 'e) \<Rightarrow> 'a word \<Rightarrow> 'e" where
  "underlying_uncast of_value e = of_value e"

text \<open>A span is its address and the number of its elements.  \<open>span_cast\<close> keeps the number, whatever the
  sizes of the two element types are.\<close>

record span =
  sp_data :: nat
  sp_size :: nat

(* core/include/upp/cast.hpp 29-36: span_cast *)
definition span_cast :: "span \<Rightarrow> span" where
  "span_cast s = \<lparr>sp_data = sp_data s, sp_size = sp_size s\<rparr>"

definition span_bytes :: "nat \<Rightarrow> span \<Rightarrow> nat set" where
  "span_bytes size_of s = {sp_data s ..< sp_data s + sp_size s * size_of}"

text \<open>The bytes are the same ones exactly for types of the same size; a larger type makes the span reach
  behind the data.\<close>

lemma span_cast_bytes:
  assumes "0 < sp_size s" and "0 < t" and "0 < u"
  shows "span_bytes t (span_cast s) \<subseteq> span_bytes u s \<longleftrightarrow> t \<le> u"
    and "span_bytes t (span_cast s) = span_bytes u s \<longleftrightarrow> t = u"
  using assms by (auto simp: span_bytes_def span_cast_def atLeastLessThan_subset_iff atLeastLessThan_eq_iff)

(* core/include/upp/bitmask.hpp 22-31: bitmask *)
record 'raw bitmask =
  m_v :: 'raw

(* core/include/upp/bitmask.hpp 32-32: bitmask(E) *)
definition bitmask_of :: "('e \<Rightarrow> 'a::len word) \<Rightarrow> 'e \<Rightarrow> 'a word bitmask" where
  "bitmask_of value e = \<lparr>m_v = underlying_cast value e\<rparr>"

(* core/include/upp/bitmask.hpp 31-31: bitmask() *)
definition bitmask_new :: "'a::len word bitmask" where
  "bitmask_new = \<lparr>m_v = 0\<rparr>"

(* core/include/upp/bitmask.hpp 34-34: bitmask::none *)
definition bm_none :: "'a::len word bitmask \<Rightarrow> bool" where
  "bm_none b = (m_v b = 0)"

(* core/include/upp/bitmask.hpp 36-41: bitmask::any *)
definition bm_any :: "'a::len word bitmask \<Rightarrow> bool" where
  "bm_any b = (\<not> bm_none b)"

text \<open>The loop of \<open>all\<close>: enumerators of several bits or of none are skipped.\<close>

(* core/include/upp/bitmask.hpp 43-79: bitmask::all *)
fun bm_all_loop :: "('e \<Rightarrow> 'a::len word) \<Rightarrow> 'a word bitmask \<Rightarrow> 'e list \<Rightarrow> bool result" where
  "bm_all_loop value b [] = Inr True"
| "bm_all_loop value b (e # es) =
     (let r = underlying_cast value e in
      rbind (count_set_bits r) (\<lambda>bitcount.
      if bitcount \<noteq> 1 then bm_all_loop value b es
      else if m_v b AND r = 0 then Inr False
      else bm_all_loop value b es))"

definition bm_all :: "'e list \<Rightarrow> ('e \<Rightarrow> 'a::len word) \<Rightarrow> 'a word bitmask \<Rightarrow> bool result" where
  "bm_all enums value b = bm_all_loop value b enums"

(* core/include/upp/bitmask.hpp 81-87: bitmask::operator| *)
definition bm_or :: "'a::len word bitmask \<Rightarrow> 'a word bitmask \<Rightarrow> 'a word bitmask" where
  "bm_or a b = \<lparr>m_v = m_v a OR m_v b\<rparr>"

(* core/include/upp/bitmask.hpp 89-95: bitmask::operator& *)
definition bm_and :: "'a::len word bitmask \<Rightarrow> 'a word bitmask \<Rightarrow> 'a word bitmask" where
  "bm_and a b = \<lparr>m_v = m_v a AND m_v b\<rparr>"

text \<open>\<open>bm | e1 | e2 | ...\<close>: the builder turns the first enumerator into a mask.\<close>

(* core/include/upp/bitmask.hpp 98-108: bitmask_builder *)
fun bm_build :: "('e \<Rightarrow> 'a::len word) \<Rightarrow> 'e list \<Rightarrow> 'a word bitmask" where
  "bm_build value [] = bitmask_new"
| "bm_build value (e # es) = foldl (\<lambda>b e. bm_or b (bitmask_of value e)) (bitmask_of value e) es"

lemma card_one_bit:
  assumes "card {i. i < LENGTH('a) \<and> bit r i} = 1"
  obtains n where "(r :: 'a::len word) = push_bit n 1" "n < LENGTH('a)"
proof -
  from assms obtain n where n: "{i. i < LENGTH('a) \<and> bit r i} = {n}" by (auto simp: card_1_singleton_iff)
  then have "n < LENGTH('a)" by auto
  moreover have "r = push_bit n 1"
  proof (rule bit_eqI)
    fix i show "bit r i \<longleftrightarrow> bit (push_bit n 1 :: 'a word) i"
      using n by (cases "i < LENGTH('a)") (auto simp: bit_simps dest: bit_imp_le_length)
  qed
  ultimately show thesis using that by blast
qed

definition single_bit :: "'a::len word \<Rightarrow> bool" where
  "single_bit r \<longleftrightarrow> (\<exists>n < LENGTH('a). r = push_bit n 1)"

lemma count_one_single_bit:
  "LENGTH('a::len) \<le> 32 \<Longrightarrow> count_set_bits (r :: 'a word) = Inr k \<Longrightarrow> k = 1 \<longleftrightarrow> single_bit r"
proof -
  assume "LENGTH('a) \<le> 32" and "count_set_bits r = Inr k"
  then have k: "k = card {i. i < LENGTH('a) \<and> bit r i}" by (simp add: count_set_bits_eq)
  show ?thesis
  proof
    assume "k = 1"
    with k show "single_bit r" unfolding single_bit_def by (metis card_one_bit)
  next
    assume "single_bit r"
    then obtain n where "n < LENGTH('a)" "r = push_bit n 1" by (auto simp: single_bit_def)
    then have "{i. i < LENGTH('a) \<and> bit r i} = {n}" by (auto simp: bit_simps)
    then show "k = 1" using k by simp
  qed
qed

lemma bit_bm_build: "bit (m_v (bm_build value es)) n \<longleftrightarrow> (\<exists>e \<in> set es. bit (value e) n)"
proof -
  have *: "bit (m_v (foldl (\<lambda>b e. bm_or b (bitmask_of value e)) b es)) n \<longleftrightarrow>
      bit (m_v b) n \<or> (\<exists>e \<in> set es. bit (value e) n)" for b es
    by (induction es arbitrary: b) (auto simp: bm_or_def bitmask_of_def underlying_cast_def bit_or_iff)
  show ?thesis by (cases es) (simp_all add: * bitmask_new_def, simp add: bitmask_of_def underlying_cast_def)
qed

lemma bm_any_bit: "bm_any b \<longleftrightarrow> (\<exists>n. bit (m_v b) n)"
  by (simp add: bm_any_def bm_none_def nonzero_bit)

lemma bm_all_single_bits:
  assumes "LENGTH('a::len) \<le> 32"
  shows "bm_all_loop value (b :: 'a word bitmask) es =
    Inr (\<forall>e \<in> set es. single_bit (value e) \<longrightarrow> m_v b AND value e \<noteq> 0)"
proof (induction es)
  case Nil
  then show ?case by simp
next
  case (Cons e es)
  obtain k where k: "count_set_bits (value e) = Inr k" using assms by (simp add: count_set_bits_eq)
  with Cons count_one_single_bit [OF assms k] show ?case by (auto simp: underlying_cast_def Let_def)
qed

text \<open>For enumerations whose underlying type has up to 32 bits: a mask built from enumerators has a
  bit in common with another mask exactly when some of those enumerators has one, and \<open>all\<close> holds
  exactly when every single-bit enumerator is in the mask; those of several bits or none do not
  count.\<close>

theorem bitmask_membership:
  assumes "LENGTH('a::len) \<le> 32"
  shows "(bm_any (bm_and (bm_build value es) (b :: 'a word bitmask)) \<longleftrightarrow> (\<exists>e \<in> set es. value e AND m_v b \<noteq> 0)) \<and>
    bm_all enums value b = Inr (\<forall>e \<in> set enums. single_bit (value e) \<longrightarrow> m_v b AND value e \<noteq> 0)"
proof -
  have "bm_any (bm_and (bm_build value es) b) \<longleftrightarrow> (\<exists>n. (\<exists>e \<in> set es. bit (value e) n) \<and> bit (m_v b) n)"
    by (simp add: bm_any_bit bm_and_def bit_and_iff bit_bm_build)
  also have "\<dots> \<longleftrightarrow> (\<exists>e \<in> set es. \<exists>n. bit (value e AND m_v b) n)" by (auto simp: bit_and_iff)
  also have "\<dots> \<longleftrightarrow> (\<exists>e \<in> set es. value e AND m_v b \<noteq> 0)" by (simp add: nonzero_bit)
  finally have "bm_any (bm_and (bm_build value es) b) \<longleftrightarrow> (\<exists>e \<in> set es. value e AND m_v b \<noteq> 0)" .
  moreover have "bm_all enums value b = Inr (\<forall>e \<in> set enums. single_bit (value e) \<longrightarrow> m_v b AND value e \<noteq> 0)"
    unfolding bm_all_def by (rule bm_all_single_bits [OF assms])
  ultimately show ?thesis by blast
qed

theorem bitmask_membership_witness:
  "bm_all [True, False] (\<lambda>b. if b then 1 else 2) \<lparr>m_v = 2 :: 8 word\<rparr> =
    Inr (\<forall>e \<in> set [True, False]. single_bit (if e then 1 else 2 :: 8 word) \<longrightarrow>
      m_v \<lparr>m_v = 2 :: 8 word\<rparr> AND (if e then 1 else 2) \<noteq> 0)"
  by (rule bitmask_membership [THEN conjunct2]) simp

end
