(* ===== verification/Bitset.thy ===== *)
theory Bitset
  imports Ints
begin

text \<open>
  \<open>upp::bitset\<close>, \<open>core/include/upp/bitset.hpp\<close>: bits in an array of bytes.  The constructor from a
  string is \<open>consteval\<close>: where the model gives an error the program does not compile.
\<close>

section \<open>State and operations\<close>

(* core/include/upp/bitset.hpp 21-23: arr_size *)
definition arr_size :: "nat \<Rightarrow> nat" where
  "arr_size N = N div 8 + 1"

type_synonym bitset = "8 word list"

(* core/include/upp/bitset.hpp 136-136: bitset::m_arr *)
definition bs_new :: "nat \<Rightarrow> bitset" where
  "bs_new N = replicate (arr_size N) 0"

text \<open>\<open>byte |= m\<close>: the result of the \<open>int\<close> operation is cut back to eight bits.\<close>

definition or_byte :: "8 word \<Rightarrow> 32 word \<Rightarrow> 8 word" where
  "or_byte w m = ucast (ucast w OR m)"

definition and_byte :: "8 word \<Rightarrow> 32 word \<Rightarrow> 8 word" where
  "and_byte w m = ucast (ucast w AND m)"

definition update_byte :: "bitset \<Rightarrow> nat \<Rightarrow> (8 word \<Rightarrow> 8 word) \<Rightarrow> bitset result" where
  "update_byte arr i f = rbind (read_at arr i) (\<lambda>w. write_at arr i (f w))"

text \<open>One digit of a binary literal, from the right, with \<open>byte_idx\<close> and \<open>bit_idx\<close>.\<close>

(* core/include/upp/bitset.hpp 34-47: bitset(string_view), binary digits *)
definition parse_bit :: "build \<Rightarrow> char \<Rightarrow> bitset \<times> nat \<times> nat \<Rightarrow> (bitset \<times> nat \<times> nat) result" where
  "parse_bit b c = (\<lambda>(arr, byte_idx, bit_idx).
     if c = CHR ''0'' then Inr (arr, byte_idx, Suc bit_idx)
     else if c = CHR ''1'' then
       rbind (shift_one bit_idx) (\<lambda>m.
       rbind (update_byte arr byte_idx (\<lambda>w. or_byte w m)) (\<lambda>arr'.
       Inr (if bit_idx = 8 then (arr', Suc byte_idx, Suc 0) else (arr', byte_idx, Suc bit_idx))))
     else rbind (cassert b False) (\<lambda>_. Inr (arr, byte_idx, Suc bit_idx)))"

(* core/include/upp/bitset.hpp 55-63: bitset(string_view), value of a hexadecimal digit *)
definition hex_val :: "build \<Rightarrow> char \<Rightarrow> 8 word result" where
  "hex_val b c = (let n = of_char c :: nat in
     if of_char CHR ''0'' \<le> n \<and> n \<le> of_char CHR ''9'' then Inr (of_nat (n - of_char CHR ''0''))
     else if of_char CHR ''a'' \<le> n \<and> n \<le> of_char CHR ''f'' then Inr (of_nat (n - of_char CHR ''a'' + 10))
     else if of_char CHR ''A'' \<le> n \<and> n \<le> of_char CHR ''F'' then Inr (of_nat (n - of_char CHR ''A'' + 10))
     else rbind (cassert b False) (\<lambda>_. Inr 0))"

(* core/include/upp/bitset.hpp 54-70: bitset(string_view), hexadecimal digits *)
definition parse_nibble :: "build \<Rightarrow> char \<Rightarrow> bitset \<times> nat \<times> bool \<Rightarrow> (bitset \<times> nat \<times> bool) result" where
  "parse_nibble b c = (\<lambda>(arr, byte_idx, top_half).
     rbind (hex_val b c) (\<lambda>val.
     if top_half then
       rbind (update_byte arr byte_idx (\<lambda>w. or_byte w (push_bit 4 (ucast val)))) (\<lambda>arr'.
       Inr (arr', Suc byte_idx, \<not> top_half))
     else
       rbind (update_byte arr byte_idx (\<lambda>w. or_byte w (ucast val))) (\<lambda>arr'.
       Inr (arr', byte_idx, \<not> top_half))))"

(* core/include/upp/bitset.hpp 28-74: bitset(string_view) *)
definition bs_parse :: "build \<Rightarrow> nat \<Rightarrow> string \<Rightarrow> bitset result" where
  "bs_parse b N s =
     (if take 2 s = ''0b'' then
        rbind (rfold (parse_bit b) (rev (drop 2 s)) (bs_new N, 0, 0)) (\<lambda>st. Inr (fst st))
      else if take 2 s = ''0x'' then
        rbind (rfold (parse_nibble b) (rev (drop 2 s)) (bs_new N, 0, False)) (\<lambda>st. Inr (fst st))
      else rbind (cassert b False) (\<lambda>_. Inr (bs_new N)))"

(* core/include/upp/bitset.hpp 76-82: bitset::any *)
fun bs_any :: "bitset \<Rightarrow> bool" where
  "bs_any [] = False"
| "bs_any (byte # arr) = (if byte \<noteq> 0 then True else bs_any arr)"

(* core/include/upp/bitset.hpp 84-84: bitset::none *)
definition bs_none :: "bitset \<Rightarrow> bool" where
  "bs_none arr = (\<not> bs_any arr)"

(* core/include/upp/bitset.hpp 86-91: bitset::all *)
fun bs_all :: "bitset \<Rightarrow> bool" where
  "bs_all [] = True"
| "bs_all (byte # arr) = (if byte \<noteq> 0xff then False else bs_all arr)"

(* core/include/upp/bitset.hpp 93-97: bitset::operator[] const *)
definition bs_get :: "bitset \<Rightarrow> nat \<Rightarrow> bool result" where
  "bs_get arr idx = rbind (read_at arr (idx div 8)) (\<lambda>w.
     rbind (shift_one (idx mod 8)) (\<lambda>m. Inr (and_nonzero w m)))"

text \<open>The proxy that the non-constant \<open>operator[]\<close> returns holds the place of a bit; it is assigned
  to, or compared.\<close>

(* core/include/upp/bitset.hpp 99-106: index_proxy *)
record index_proxy =
  px_byte :: nat
  px_bit :: nat

(* core/include/upp/bitset.hpp 123-127: bitset::operator[] *)
definition bs_at :: "nat \<Rightarrow> index_proxy" where
  "bs_at idx = \<lparr>px_byte = idx div 8, px_bit = idx mod 8\<rparr>"

(* core/include/upp/bitset.hpp 109-115: index_proxy::operator= *)
definition px_assign :: "bitset \<Rightarrow> index_proxy \<Rightarrow> bool \<Rightarrow> bitset result" where
  "px_assign arr p v = rbind (shift_one (px_bit p)) (\<lambda>m.
     if v then update_byte arr (px_byte p) (\<lambda>w. or_byte w m)
     else update_byte arr (px_byte p) (\<lambda>w. and_byte w (NOT m)))"

(* core/include/upp/bitset.hpp 117-120: index_proxy::operator== *)
definition px_equals :: "bitset \<Rightarrow> index_proxy \<Rightarrow> bool \<Rightarrow> bool result" where
  "px_equals arr p v = rbind (shift_one (px_bit p)) (\<lambda>m.
     rbind (read_at arr (px_byte p)) (\<lambda>w. Inr (and_nonzero w m = v)))"

(* core/include/upp/bitset.hpp 129-133: bitset::byte *)
definition bs_byte :: "bitset \<Rightarrow> nat \<Rightarrow> 8 word result" where
  "bs_byte arr idx = read_at arr idx"

definition bs_set :: "bitset \<Rightarrow> nat \<Rightarrow> bool \<Rightarrow> bitset result" where
  "bs_set arr idx v = px_assign arr (bs_at idx) v"

section \<open>Bits\<close>

text \<open>Bit \<open>i\<close> of the array, wherever the array has it.\<close>

definition bs_bit :: "bitset \<Rightarrow> nat \<Rightarrow> bool" where
  "bs_bit arr i = bit (arr ! (i div 8)) (i mod 8)"

lemma byte_of [simp]: "i < 8 * n \<Longrightarrow> i div 8 < n" for i n :: nat
  by (simp add: less_mult_imp_div_less mult.commute)

lemma bit_or_byte: "bit (or_byte w m) j \<longleftrightarrow> j < 8 \<and> (bit w j \<or> bit m j)"
  by (auto simp: or_byte_def bit_ucast_iff bit_or_iff dest: bit_imp_le_length)

lemma bit_and_byte: "bit (and_byte w m) j \<longleftrightarrow> j < 8 \<and> bit w j \<and> bit m j"
  by (auto simp: and_byte_def bit_ucast_iff bit_and_iff dest: bit_imp_le_length)

lemma bs_get_bit [simp]: "idx < 8 * length arr \<Longrightarrow> bs_get arr idx = Inr (bs_bit arr idx)"
  by (simp add: bs_get_def bs_bit_def and_nonzero_power)

lemma bs_get_out: "8 * length arr \<le> idx \<Longrightarrow> bs_get arr idx = Inl Undefined"
  by (simp add: bs_get_def read_at_def)

lemma update_byte_in [simp]: "i < length arr \<Longrightarrow> update_byte arr i f = Inr (arr[i := f (arr ! i)])"
  by (simp add: update_byte_def)

lemma update_byte_out [simp]: "length arr \<le> i \<Longrightarrow> update_byte arr i f = Inl Undefined"
  by (simp add: update_byte_def)

lemma bs_bit_update:
  assumes "i < length arr"
  shows "bs_bit (arr[i := w]) j \<longleftrightarrow> (if j div 8 = i then bit w (j mod 8) else bs_bit arr j)"
  using assms by (simp add: bs_bit_def nth_list_update)

lemma div_mod_8_eq: "i div 8 = j div 8 \<Longrightarrow> i mod 8 = j mod 8 \<longleftrightarrow> i = j" for i j :: nat
  by (metis div_mult_mod_eq)

lemma bs_set_bit:
  assumes "idx < 8 * length arr"
  shows "\<exists>arr'. bs_set arr idx v = Inr arr' \<and> length arr' = length arr \<and>
    (\<forall>j. bs_bit arr' j \<longleftrightarrow> (if j = idx then v else bs_bit arr j))"
proof -
  let ?i = "idx div 8" and ?n = "idx mod 8"
  have i: "?i < length arr" using assms by simp
  define w where "w = (if v then or_byte (arr ! ?i) (push_bit ?n 1) else and_byte (arr ! ?i) (NOT (push_bit ?n 1)))"
  have "bs_set arr idx v = Inr (arr[?i := w])"
    using i by (simp add: bs_set_def px_assign_def bs_at_def w_def)
  moreover have "bit w n \<longleftrightarrow> (if n = ?n then v else bit (arr ! ?i) n)" if "n < 8" for n
    using that by (auto simp: w_def bit_or_byte bit_and_byte bit_simps)
  then have "bs_bit (arr[?i := w]) j \<longleftrightarrow> (if j = idx then v else bs_bit arr j)" for j
    unfolding bs_bit_update [OF i] using div_mod_8_eq [of j idx] by (auto simp: bs_bit_def)
  ultimately show ?thesis by simp
qed

lemma bs_any_iff: "bs_any arr \<longleftrightarrow> (\<exists>w \<in> set arr. w \<noteq> 0)"
  by (induction arr) auto

lemma bs_all_iff: "bs_all arr \<longleftrightarrow> (\<forall>w \<in> set arr. w = 0xff)"
  by (induction arr) auto

lemma bs_bit_new [simp]: "i < 8 * arr_size N \<Longrightarrow> \<not> bs_bit (bs_new N) i"
  by (simp add: bs_bit_def bs_new_def)

lemma length_bs_new [simp]: "length (bs_new N) = arr_size N"
  by (simp add: bs_new_def)

section \<open>A container of bits\<close>

text \<open>What a client of a bit container relies on: bits below the capacity can be read and written,
  and a write changes one bit.\<close>

locale bit_container =
  fixes rep :: "'b \<Rightarrow> bool" and cap :: nat
    and get :: "'b \<Rightarrow> nat \<Rightarrow> bool result"
    and put :: "'b \<Rightarrow> nat \<Rightarrow> bool \<Rightarrow> 'b result"
  assumes get_ok: "rep b \<Longrightarrow> i < cap \<Longrightarrow> \<exists>v. get b i = Inr v"
    and put_ok: "rep b \<Longrightarrow> i < cap \<Longrightarrow>
      \<exists>b'. put b i v = Inr b' \<and> rep b' \<and> (\<forall>j < cap. get b' j = (if j = i then Inr v else get b j))"
begin

lemma put_all:
  assumes "rep b" and "\<And>i. i \<in> set is \<Longrightarrow> i < cap"
  shows "\<exists>b'. rfold (\<lambda>i b. put b i True) is b = Inr b' \<and> rep b' \<and>
    (\<forall>j < cap. get b' j = (if j \<in> set is then Inr True else get b j))"
  using assms
proof (induction "is" arbitrary: b)
  case Nil
  then show ?case by simp
next
  case (Cons i "is")
  from put_ok [of b i True] Cons.prems obtain b1 where
    b1: "put b i True = Inr b1" "rep b1" "\<forall>j < cap. get b1 j = (if j = i then Inr True else get b j)" by auto
  from Cons.IH [OF b1(2)] Cons.prems(2) obtain b2 where
    "rfold (\<lambda>i b. put b i True) is b1 = Inr b2" "rep b2"
    "\<forall>j < cap. get b2 j = (if j \<in> set is then Inr True else get b1 j)" by auto
  with b1 show ?case by auto
qed

lemma put_put:
  assumes "rep b" and "i < cap" and "j < cap" and "i \<noteq> j"
  shows "\<exists>b'. rbind (put b i u) (\<lambda>b1. put b1 j v) = Inr b' \<and> rep b' \<and> get b' i = Inr u \<and> get b' j = Inr v"
proof -
  from put_ok [OF assms(1,2), of u] obtain b1 where
    b1: "put b i u = Inr b1" "rep b1" "get b1 i = Inr u" using assms(2) by auto
  from put_ok [OF b1(2) assms(3), of v] b1 assms show ?thesis by auto
qed

end

interpretation bits: bit_container "\<lambda>arr. length arr = arr_size N" "8 * arr_size N" bs_get bs_set
  for N :: nat
proof unfold_locales
  fix b :: bitset and i v assume b: "length b = arr_size N" and i: "i < 8 * arr_size N"
  then show "\<exists>v. bs_get b i = Inr v" by simp
  from bs_set_bit [of i b v] b i obtain b' where
    "bs_set b i v = Inr b'" "length b' = arr_size N" "\<And>j. bs_bit b' j \<longleftrightarrow> (if j = i then v else bs_bit b j)" by auto
  then show "\<exists>b'. bs_set b i v = Inr b' \<and> length b' = arr_size N \<and>
      (\<forall>j < 8 * arr_size N. bs_get b' j = (if j = i then Inr v else bs_get b j))"
    using b by auto
qed

text \<open>Writing a bit of a bitset is read back, also after another bit was written, and a bit outside
  the array cannot be read.\<close>

theorem bs_set_get:
  assumes "length arr = arr_size N" and "i < 8 * arr_size N" and "j < 8 * arr_size N" and "i \<noteq> j"
  shows "\<exists>arr'. rbind (bs_set arr i u) (\<lambda>a. bs_set a j v) = Inr arr' \<and> bs_get arr' i = Inr u \<and>
    bs_get arr' j = Inr v \<and> bs_get arr' (8 * arr_size N + k) = Inl Undefined"
  using bits.put_put [OF assms] by (fastforce simp: bs_get_out)

theorem bs_set_get_witness:
  "\<exists>arr'. rbind (bs_set (bs_new 10) 3 True) (\<lambda>a. bs_set a 9 False) = Inr arr' \<and> bs_get arr' 3 = Inr True"
  using bs_set_get [of "bs_new 10" 10 3 9 True False] by (auto simp: arr_size_def)

section \<open>All bits\<close>

lemma arr_size_spare: "N < 8 * arr_size N"
  by (simp add: arr_size_def)

lemma bs_all_bit: "bs_all arr \<Longrightarrow> i < 8 * length arr \<Longrightarrow> bs_bit arr i"
proof -
  assume all: "bs_all arr" and i: "i < 8 * length arr"
  then have "arr ! (i div 8) = 0xff" using bs_all_iff nth_mem byte_of by metis
  moreover have "bit (0xff :: 8 word) (i mod 8)"
  proof -
    have "(0xff :: 8 word) = mask 8" by (simp add: mask_eq_exp_minus_1)
    then show ?thesis by (simp only: bit_mask_iff) simp
  qed
  ultimately show ?thesis by (simp add: bs_bit_def)
qed

text \<open>A bitset whose bits were set one by one, each within its size, never has \<open>all\<close>: the array
  has at least one bit more than the size, and \<open>all\<close> asks for that one too.\<close>

theorem bs_all_never:
  assumes "\<And>i. i \<in> set is \<Longrightarrow> i < N"
  shows "\<exists>arr. rfold (\<lambda>i a. bs_set a i True) is (bs_new N) = Inr arr \<and> \<not> bs_all arr"
proof -
  have "\<And>i. i \<in> set is \<Longrightarrow> i < 8 * arr_size N" using assms arr_size_spare [of N] by fastforce
  with bits.put_all [of "bs_new N" N "is"] obtain arr where
    arr: "rfold (\<lambda>i a. bs_set a i True) is (bs_new N) = Inr arr" "length arr = arr_size N"
      "\<forall>j < 8 * arr_size N. bs_get arr j = (if j \<in> set is then Inr True else bs_get (bs_new N) j)" by auto
  have "N \<notin> set is" using assms by blast
  with arr(2,3) arr_size_spare [of N] have "\<not> bs_bit arr N" by auto
  then have "\<not> bs_all arr" using bs_all_bit [of arr N] arr(2) arr_size_spare [of N] by auto
  with arr(1) show ?thesis by blast
qed

theorem bs_all_never_witness:
  "\<exists>arr. rfold (\<lambda>i a. bs_set a i True) [0, 1, 2] (bs_new 3) = Inr arr \<and> \<not> bs_all arr"
  by (rule bs_all_never) auto

section \<open>Literals\<close>

lemma word_small_bits:
  assumes "(w :: 8 word) < 16" and "bit w j"
  shows "j < 4"
proof (rule ccontr)
  assume "\<not> j < 4"
  then have "(2 :: nat) ^ 4 \<le> 2 ^ j" by (intro power_increasing) simp_all
  moreover have "unat w < 16" using assms(1) by (simp add: word_less_nat_alt)
  ultimately have "unat w div 2 ^ j = 0" by simp
  moreover have "bit (unat w) j" using assms(2) by (simp add: bit_unsigned_iff)
  ultimately show False by (simp add: bit_iff_odd)
qed

lemma hex_val_small: "hex_val b c = Inr v \<Longrightarrow> v < 16"
proof -
  assume v: "hex_val b c = Inr v"
  have small: "n < 16 \<Longrightarrow> (of_nat n :: 8 word) < 16" for n
    by (simp add: word_less_nat_alt unat_of_nat)
  from v show ?thesis
    unfolding hex_val_def Let_def
    by (auto simp: result_simps cassert_def simp del: of_nat_diff of_nat_add split: if_splits intro!: small)
qed

lemma nibble_div: "i div 4 = 2 * (i div 8) + i mod 8 div 4" for i :: nat
proof -
  have "i = i mod 8 + (2 * (i div 8)) * 4" using mod_mult_div_eq [of i 8] by linarith
  then have "i div 4 = (i mod 8 + (2 * (i div 8)) * 4) div 4" by (rule arg_cong)
  also have "\<dots> = 2 * (i div 8) + i mod 8 div 4" by (rule div_mult_self1) simp
  finally show ?thesis .
qed

lemma nibble_mod: "(4 \<le> i mod 8 \<longrightarrow> i mod 8 div 4 = 1 \<and> i mod 8 - 4 = i mod 4) \<and>
    (i mod 8 < 4 \<longrightarrow> i mod 4 = i mod 8)" for i :: nat
proof -
  have r: "i mod 4 = i mod 8 mod 4" by (simp add: mod_mod_cancel)
  have "i mod 8 = 0 \<or> i mod 8 = 1 \<or> i mod 8 = 2 \<or> i mod 8 = 3 \<or> i mod 8 = 4 \<or> i mod 8 = 5 \<or> i mod 8 = 6 \<or> i mod 8 = 7"
    using mod_less_divisor [of 8 i] by linarith
  with r show ?thesis by (elim disjE) simp_all
qed

text \<open>The state after \<open>k\<close> digits: their bits are in the array, four for each, from the right.\<close>

definition nibbles :: "nat \<Rightarrow> 8 word list \<Rightarrow> nat \<Rightarrow> bitset \<times> nat \<times> bool \<Rightarrow> bool" where
  "nibbles n vals k st \<longleftrightarrow> length (fst st) = n \<and> fst (snd st) = k div 2 \<and> snd (snd st) = odd k \<and>
     (\<forall>i < 8 * n. bs_bit (fst st) i \<longleftrightarrow> i div 4 < k \<and> bit (vals ! (i div 4)) (i mod 4))"

lemma parse_nibble_step:
  assumes "nibbles n vals k st" and "k < 2 * n" and "hex_val b c = Inr (vals ! k)"
  shows "\<exists>st'. parse_nibble b c st = Inr st' \<and> nibbles n vals (Suc k) st'"
proof -
  obtain arr top where st: "st = (arr, k div 2, top)" "top = odd k" "length arr = n"
    "\<And>i. i < 8 * n \<Longrightarrow> bs_bit arr i \<longleftrightarrow> i div 4 < k \<and> bit (vals ! (i div 4)) (i mod 4)"
    using assms(1) by (cases st) (auto simp: nibbles_def)
  let ?v = "vals ! k"
  define m where "m = (if top then push_bit 4 (ucast ?v) else ucast ?v :: 32 word)"
  have kn: "k div 2 < n" using assms(2) by simp
  let ?arr = "arr[k div 2 := or_byte (arr ! (k div 2)) m]"
  have run: "parse_nibble b c st = Inr (?arr, if top then Suc (k div 2) else k div 2, \<not> top)"
    using st kn assms(3) by (simp add: parse_nibble_def m_def)
  have small: "j < 4" if "bit ?v j" for j
    using word_small_bits hex_val_small [OF assms(3)] that by blast
  have mbit: "bit m j \<longleftrightarrow> (if top then 4 \<le> j else True) \<and> bit ?v (if top then j - 4 else j)" if "j < 8" for j
    using that by (auto simp: m_def bit_simps dest: small)
  have "bs_bit ?arr i \<longleftrightarrow> i div 4 < Suc k \<and> bit (vals ! (i div 4)) (i mod 4)" if i: "i < 8 * n" for i
  proof (cases "i div 8 = k div 2")
    case False
    moreover have "i div 4 div 2 = i div 8" using div_mult2_eq [of i 4 2] by simp
    ultimately have "i div 4 \<noteq> k" by auto
    with False st(3,4) i kn show ?thesis by (auto simp: bs_bit_update less_Suc_eq)
  next
    case True
    have q: "i div 4 = 2 * (k div 2) + (i mod 8) div 4"
      using nibble_div [of i] True by simp
    have k2: "k = 2 * (k div 2) + of_bool top"
      using st(2) mult_div_mod_eq [of 2 k] by (cases top) (simp_all add: odd_iff_mod_2_eq_one)
    have bit8: "bs_bit ?arr i \<longleftrightarrow> bs_bit arr i \<or> bit m (i mod 8)"
      using True st(3) kn by (simp add: bs_bit_update bit_or_byte bs_bit_def)
    have "bit m (i mod 8) \<longleftrightarrow> i div 4 = k \<and> bit ?v (i mod 4)"
    proof (cases top)
      case True
      show ?thesis
      proof (cases "4 \<le> i mod 8")
        case True
        then have "i mod 8 div 4 = 1" "i mod 8 - 4 = i mod 4" using nibble_mod [of i] by simp_all
        then show ?thesis using True \<open>top\<close> q k2 by (simp add: mbit)
      next
        case False
        then have "i mod 8 div 4 = 0" by simp
        then show ?thesis using False \<open>top\<close> q k2 by (simp add: mbit)
      qed
    next
      case False
      show ?thesis
      proof (cases "4 \<le> i mod 8")
        case True
        then have "i mod 8 div 4 = 1" using nibble_mod [of i] by simp
        moreover have "\<not> bit ?v (i mod 8)" using True small by fastforce
        ultimately show ?thesis using \<open>\<not> top\<close> q k2 by (simp add: mbit)
      next
        case False
        then have "i mod 8 div 4 = 0" "i mod 8 = i mod 4" using nibble_mod [of i] by simp_all
        then show ?thesis using False \<open>\<not> top\<close> q k2 by (simp add: mbit)
      qed
    qed
    with bit8 st(4) [OF i] show ?thesis by (auto simp: less_Suc_eq)
  qed
  moreover have "(if top then Suc (k div 2) else k div 2) = Suc k div 2" "(\<not> top) = odd (Suc k)"
    using st(2) by (auto elim!: oddE evenE)
  ultimately have "nibbles n vals (Suc k) (?arr, if top then Suc (k div 2) else k div 2, \<not> top)"
    using st(3) by (simp add: nibbles_def)
  with run show ?thesis by blast
qed

lemma bs_parse_hex_vals:
  assumes "map (hex_val b) (rev ds) = map Inr vals" and "length ds \<le> 2 * arr_size N"
  shows "\<exists>arr. bs_parse b N (''0x'' @ ds) = Inr arr \<and>
    (\<forall>i < 8 * arr_size N. bs_get arr i = Inr (i div 4 < length ds \<and> bit (vals ! (i div 4)) (i mod 4)))"
proof -
  have len: "length vals = length ds" using arg_cong [OF assms(1), of length] by simp
  have vals: "hex_val b (rev ds ! k) = Inr (vals ! k)" if "k < length ds" for k
    using arg_cong [OF assms(1), of "\<lambda>l. l ! k"] that len by simp
  have "\<exists>st. rfold (parse_nibble b) (rev ds) (bs_new N, 0, False) = Inr st \<and>
      nibbles (arr_size N) vals (length (rev ds)) st"
  proof (rule rfold_invariant)
    show "nibbles (arr_size N) vals 0 (bs_new N, 0, False)" by (simp add: nibbles_def)
    fix k st assume k: "k < length (rev ds)" and st: "nibbles (arr_size N) vals k st"
    show "\<exists>st'. parse_nibble b (rev ds ! k) st = Inr st' \<and> nibbles (arr_size N) vals (Suc k) st'"
      using parse_nibble_step [OF st] k vals [of k] assms(2) by simp
  qed
  then obtain st where st: "rfold (parse_nibble b) (rev ds) (bs_new N, 0, False) = Inr st"
    "nibbles (arr_size N) vals (length ds) st" by auto
  have "bs_parse b N (''0x'' @ ds) = Inr (fst st)" using st(1) by (simp add: bs_parse_def)
  then show ?thesis using st(2) by (simp add: nibbles_def)
qed

text \<open>The digit of a value below sixteen, in upper or lower case.\<close>

definition hex_digit :: "nat \<Rightarrow> bool \<Rightarrow> char" where
  "hex_digit v upper = (if upper then ''0123456789ABCDEF'' else ''0123456789abcdef'') ! v"

lemma hex_val_digit: "v < 16 \<Longrightarrow> hex_val b (hex_digit v upper) = Inr (of_nat v)"
proof -
  assume "v < 16"
  then have "v \<in> set [0..<16]" by simp
  moreover have "\<forall>v \<in> set [0..<16]. hex_val b (hex_digit v upper) = Inr (of_nat v)"
    by (cases upper) (simp_all add: hex_val_def hex_digit_def upt_rec)
  ultimately show ?thesis by blast
qed

text \<open>C39. A hexadecimal literal that fits, with digits of either case, sets the four bits of the value of each digit,
  from the right, and no other bit.\<close>

theorem bs_parse_hex:
  assumes "\<And>v upper. (v, upper) \<in> set ds \<Longrightarrow> v < 16" and "length ds \<le> 2 * arr_size N"
  shows "\<exists>arr. bs_parse b N (''0x'' @ rev (map (\<lambda>(v, upper). hex_digit v upper) ds)) = Inr arr \<and>
    (\<forall>i < 8 * arr_size N. bs_get arr i = Inr (i div 4 < length ds \<and> bit (fst (ds ! (i div 4))) (i mod 4)))"
proof -
  let ?s = "rev (map (\<lambda>(v, upper). hex_digit v upper) ds)" and ?vals = "map (\<lambda>d. of_nat (fst d) :: 8 word) ds"
  have "map (hex_val b) (rev ?s) = map Inr ?vals" using assms(1) hex_val_digit by auto
  from bs_parse_hex_vals [OF this, of N] assms(2) obtain arr where
    arr: "bs_parse b N (''0x'' @ ?s) = Inr arr"
      "\<And>i. i < 8 * arr_size N \<Longrightarrow> bs_get arr i = Inr (i div 4 < length ds \<and> bit (?vals ! (i div 4)) (i mod 4))" by auto
  have "bit (?vals ! k) (i mod 4) = bit (fst (ds ! k)) (i mod 4)" if "k < length ds" for k i
    using that by (simp add: bit_simps less_trans [of "i mod 4" 4 8])
  with arr show ?thesis by auto
qed

theorem bs_parse_hex_witness:
  "\<exists>arr. bs_parse Debug 8 ''0x2Ff'' = Inr arr \<and>
    (\<forall>i < 16. bs_get arr i = Inr (i div 4 < 3 \<and> bit (fst ([(15, False), (15, True), (2 :: nat, False)] ! (i div 4))) (i mod 4)))"
proof -
  let ?ds = "[(15, False), (15, True), (2 :: nat, False)]"
  have "v < 16" if "(v, upper) \<in> set ?ds" for v upper using that by auto
  moreover have "length ?ds \<le> 2 * arr_size 8" by (simp add: arr_size_def)
  ultimately have "\<exists>arr. bs_parse Debug 8 (''0x'' @ rev (map (\<lambda>(v, upper). hex_digit v upper) ?ds)) = Inr arr \<and>
      (\<forall>i < 16. bs_get arr i = Inr (i div 4 < length ?ds \<and> bit (fst (?ds ! (i div 4))) (i mod 4)))"
    using bs_parse_hex [of ?ds 8 Debug] by (force simp: arr_size_def simp del: list.map rev.simps set_simps)
  then show ?thesis by (simp add: hex_digit_def numeral_3_eq_3)
qed

text \<open>The state after \<open>k \<le> 8\<close> binary digits.\<close>

definition digits :: "nat \<Rightarrow> string \<Rightarrow> nat \<Rightarrow> bitset \<times> nat \<times> nat \<Rightarrow> bool" where
  "digits n ds k st \<longleftrightarrow> length (fst st) = n \<and> fst (snd st) = 0 \<and> snd (snd st) = k \<and>
     (\<forall>i < 8 * n. bs_bit (fst st) i \<longleftrightarrow> i < k \<and> ds ! i = CHR ''1'')"

lemma parse_bit_step:
  assumes "digits n ds k st" and "k < 8" and "0 < n" and "ds ! k = CHR ''0'' \<or> ds ! k = CHR ''1''"
  shows "\<exists>st'. parse_bit b (ds ! k) st = Inr st' \<and> digits n ds (Suc k) st'"
proof -
  obtain arr where st: "st = (arr, 0, k)" "length arr = n"
    "\<And>i. i < 8 * n \<Longrightarrow> bs_bit arr i \<longleftrightarrow> i < k \<and> ds ! i = CHR ''1''"
    using assms(1) by (cases st) (auto simp: digits_def)
  show ?thesis
  proof (cases "ds ! k = CHR ''1''")
    case False
    then show ?thesis using assms(4) st by (auto simp: parse_bit_def digits_def less_Suc_eq)
  next
    case True
    let ?arr = "arr[0 := or_byte (arr ! 0) (push_bit k 1)]"
    have "parse_bit b (ds ! k) st = Inr (?arr, 0, Suc k)"
      using True st assms(2,3) by (simp add: parse_bit_def)
    moreover have "bs_bit ?arr i \<longleftrightarrow> i < Suc k \<and> ds ! i = CHR ''1''" if "i < 8 * n" for i
    proof (cases "i < 8")
      case True
      then have "bs_bit ?arr i \<longleftrightarrow> bs_bit arr i \<or> i = k"
        using st(2) assms(3) unfolding bs_bit_def by (auto simp: bit_or_byte bit_simps)
      then show ?thesis using st(3) [OF that] \<open>ds ! k = CHR ''1''\<close> by (auto simp: less_Suc_eq)
    next
      case False
      then have "bs_bit ?arr i = bs_bit arr i" by (simp add: bs_bit_def)
      then show ?thesis using st(3) [OF that] False assms(2) by auto
    qed
    ultimately show ?thesis using st(2) by (auto simp: digits_def)
  qed
qed

lemma parse_zeros:
  "rfold (parse_bit b) (replicate n CHR ''0'') (arr, i, k) = Inr (arr, i, k + n)"
  by (induction n arbitrary: k) (simp_all add: parse_bit_def)

lemma or_byte_high: "8 \<le> n \<Longrightarrow> or_byte w (push_bit n 1) = w"
  by (rule bit_eqI) (auto simp: bit_or_byte bit_simps dest: bit_imp_le_length)

text \<open>A binary literal is read correctly up to eight digits.  A digit one behind eight or more zeros is lost:
  the bit index keeps counting in the first byte, which has no such bit.\<close>

theorem bs_parse_bin:
  "(set ds \<subseteq> {CHR ''0'', CHR ''1''} \<longrightarrow> length ds \<le> 8 \<longrightarrow>
      (\<exists>arr. bs_parse b N (''0b'' @ ds) = Inr arr \<and>
        (\<forall>i < 8 * arr_size N. bs_get arr i = Inr (i < length ds \<and> rev ds ! i = CHR ''1'')))) \<and>
   (8 \<le> n \<longrightarrow> n < 32 \<longrightarrow>
      (\<exists>arr. bs_parse b N (''0b1'' @ replicate n CHR ''0'') = Inr arr \<and> bs_none arr))"
proof (intro conjI impI)
  assume ds: "set ds \<subseteq> {CHR ''0'', CHR ''1''}" "length ds \<le> 8"
  have "\<exists>st. rfold (parse_bit b) (rev ds) (bs_new N, 0, 0) = Inr st \<and>
      digits (arr_size N) (rev ds) (length (rev ds)) st"
  proof (rule rfold_invariant)
    show "digits (arr_size N) (rev ds) 0 (bs_new N, 0, 0)" by (simp add: digits_def)
    fix k st assume k: "k < length (rev ds)" and st: "digits (arr_size N) (rev ds) k st"
    have "rev ds ! k \<in> set ds" using k nth_mem [of k "rev ds"] by simp
    then have "rev ds ! k = CHR ''0'' \<or> rev ds ! k = CHR ''1''" using ds(1) by blast
    moreover have "0 < arr_size N" by (simp add: arr_size_def)
    ultimately show "\<exists>st'. parse_bit b (rev ds ! k) st = Inr st' \<and> digits (arr_size N) (rev ds) (Suc k) st'"
      using parse_bit_step [OF st] k ds(2) by simp
  qed
  then obtain st where st: "rfold (parse_bit b) (rev ds) (bs_new N, 0, 0) = Inr st"
    "digits (arr_size N) (rev ds) (length ds) st" by auto
  have "bs_parse b N (''0b'' @ ds) = Inr (fst st)" using st(1) by (simp add: bs_parse_def)
  then show "\<exists>arr. bs_parse b N (''0b'' @ ds) = Inr arr \<and>
      (\<forall>i < 8 * arr_size N. bs_get arr i = Inr (i < length ds \<and> rev ds ! i = CHR ''1''))"
    using st(2) by (simp add: digits_def)
next
  assume n: "8 \<le> n" "n < 32"
  have "0 < arr_size N" by (simp add: arr_size_def)
  then have "parse_bit b CHR ''1'' (bs_new N, 0, n) =
      Inr (bs_new N, if n = 8 then 1 else 0, if n = 8 then 1 else Suc n)"
    using n or_byte_high [of n "bs_new N ! 0"] or_byte_high [of 8 "bs_new N ! 0"]
    by (simp add: parse_bit_def)
  then have "bs_parse b N (''0b1'' @ replicate n CHR ''0'') = Inr (bs_new N)"
    by (simp add: bs_parse_def parse_zeros rfold_append)
  moreover have "bs_none (bs_new N)" by (simp add: bs_none_def bs_any_iff bs_new_def)
  ultimately show "\<exists>arr. bs_parse b N (''0b1'' @ replicate n CHR ''0'') = Inr arr \<and> bs_none arr" by blast
qed

theorem bs_parse_bin_witness:
  "\<exists>arr. bs_parse Debug 16 (''0b1'' @ replicate 8 CHR ''0'') = Inr arr \<and> bs_none arr"
  using bs_parse_bin [THEN conjunct2, of 8 Debug 16] by simp

end
