(* ===== verification/Enums.thy ===== *)
theory Enums
  imports Bitset
begin

text \<open>
  Enumerations: \<open>core/include/upp/enum.hpp\<close>, \<open>enum_array.hpp\<close> and \<open>enum_set.hpp\<close>.  The header gives
  the number of enumerators, their list and the index of one either by reflection or by the
  \<open>magic_enum\<close> library; the containers use only these three, which the locale states as an
  interface.  The loops of the reflection branch interpret it.
\<close>

section \<open>Reflection\<close>

text \<open>The enumerators in the order of their declaration come from the compiler;
  \<open>zero\<close> is the enumeration's value 0, which fills the array first.\<close>

(* core/include/upp/enum.hpp 12-15: enum_count *)
definition enum_count :: "'e list \<Rightarrow> nat" where
  "enum_count enumerators = length enumerators"

(* core/include/upp/enum.hpp 17-28: enum_values *)
definition enum_values :: "'e \<Rightarrow> 'e list \<Rightarrow> 'e list result" where
  "enum_values zero enumerators =
     rbind (rfold (\<lambda>inf (out, i). rbind (write_at out i inf) (\<lambda>out'. Inr (out', Suc i)))
        enumerators (replicate (enum_count enumerators) zero, 0)) (\<lambda>st. Inr (fst st))"

fun enum_index_loop :: "'e \<Rightarrow> nat \<Rightarrow> 'e list \<Rightarrow> nat option" where
  "enum_index_loop e i [] = None"
| "enum_index_loop e i (v # vals) = (if e = v then Some i else enum_index_loop e (Suc i) vals)"

(* core/include/upp/enum.hpp 30-37: enum_index *)
definition enum_index :: "'e list \<Rightarrow> 'e \<Rightarrow> nat option" where
  "enum_index vals e = enum_index_loop e 0 vals"

lemma enum_values_id: "enum_values zero vals = Inr vals"
proof -
  have "\<exists>st. rfold (\<lambda>inf (out, i). rbind (write_at out i inf) (\<lambda>out'. Inr (out', Suc i))) vals
      (replicate (length vals) zero, 0) = Inr st \<and>
      (length (fst st) = length vals \<and> snd st = length vals \<and> take (length vals) (fst st) = take (length vals) vals)"
  proof (rule rfold_invariant [where P = "\<lambda>k st. length (fst st) = length vals \<and> snd st = k \<and> take k (fst st) = take k vals"])
    fix k and t :: "'a list \<times> nat"
    assume "k < length vals" and "length (fst t) = length vals \<and> snd t = k \<and> take k (fst t) = take k vals"
    then show "\<exists>t'. (case t of (out, i) \<Rightarrow> rbind (write_at out i (vals ! k)) (\<lambda>out'. Inr (out', Suc i))) = Inr t' \<and>
        length (fst t') = length vals \<and> snd t' = Suc k \<and> take (Suc k) (fst t') = take (Suc k) vals"
      by (cases t) (auto simp: take_Suc_conv_app_nth)
  qed simp
  then show ?thesis by (auto simp: enum_values_def enum_count_def)
qed

lemma enum_index_loop_Some:
  "enum_index_loop e i vals = Some j \<Longrightarrow> i \<le> j \<and> j < i + length vals \<and> vals ! (j - i) = e"
proof (induction vals arbitrary: i)
  case Nil
  then show ?case by simp
next
  case (Cons v vals)
  show ?case
  proof (cases "e = v")
    case False
    then have "enum_index_loop e (Suc i) vals = Some j" using Cons.prems by simp
    from Cons.IH [OF this] show ?thesis by (auto simp: nth_Cons' Suc_diff_Suc)
  qed (use Cons.prems in auto)
qed

lemma enum_index_loop_mem: "e \<in> set vals \<Longrightarrow> \<exists>j. enum_index_loop e i vals = Some j"
  by (induction vals arbitrary: i) auto

section \<open>What the containers use\<close>

locale enum_reflection =
  fixes count :: nat and vals :: "'e list" and index :: "'e \<Rightarrow> nat option"
  assumes count: "count = length vals"
    and index_lookup: "index e = Some i \<Longrightarrow> i < count \<and> vals ! i = e"
    and index_defined: "e \<in> set vals \<Longrightarrow> \<exists>i. index e = Some i"
begin

lemma index_inj: "index e = Some i \<Longrightarrow> index e' = Some i \<Longrightarrow> e = e'"
  using index_lookup by metis

lemma index_eq_iff:
  assumes "e \<in> set vals" and "e' \<in> set vals"
  shows "the (index e) = the (index e') \<longleftrightarrow> e = e'"
proof -
  obtain i j where "index e = Some i" "index e' = Some j" using index_defined assms by blast
  then show ?thesis using index_inj by auto
qed

lemma index_Some: "e \<in> set vals \<Longrightarrow> index e = Some (the (index e)) \<and> the (index e) < count"
  using index_defined index_lookup by fastforce

end

interpretation reflected: enum_reflection "enum_count vals" vals "enum_index vals" for vals :: "'e list"
  by unfold_locales
    (auto simp: enum_count_def enum_index_def dest: enum_index_loop_Some enum_index_loop_mem)

section \<open>Arrays indexed by an enumeration\<close>

(* core/include/upp/enum_array.hpp 12-15: enum_array *)
definition ea_new :: "nat \<Rightarrow> 'a \<Rightarrow> 'a list" where
  "ea_new count dflt = replicate count dflt"

text \<open>\<open>*enum_index(e)\<close>: the optional is not tested.\<close>

definition deref_index :: "('e \<Rightarrow> nat option) \<Rightarrow> 'e \<Rightarrow> nat result" where
  "deref_index index e = (case index e of None \<Rightarrow> Inl Undefined | Some i \<Rightarrow> Inr i)"

(* core/include/upp/enum_array.hpp 21-24: enum_array::operator[] *)
definition ea_get :: "('e \<Rightarrow> nat option) \<Rightarrow> 'a list \<Rightarrow> 'e \<Rightarrow> 'a result" where
  "ea_get index arr e = rbind (deref_index index e) (read_at arr)"

definition ea_put :: "('e \<Rightarrow> nat option) \<Rightarrow> 'a list \<Rightarrow> 'e \<Rightarrow> 'a \<Rightarrow> 'a list result" where
  "ea_put index arr e v = rbind (deref_index index e) (\<lambda>i. write_at arr i v)"

(* core/include/upp/enum_array.hpp 26-27: enum_array::size *)
definition ea_size :: "'a list \<Rightarrow> nat" where
  "ea_size arr = length arr"

(* core/include/upp/enum_array.hpp 17-19: enum_array(Ts&&...) *)
definition ea_of_values :: "nat \<Rightarrow> 'a \<Rightarrow> 'a list \<Rightarrow> 'a list option" where
  "ea_of_values count dflt ts =
     (if length ts \<le> count then Some (ts @ replicate (count - length ts) dflt) else None)"

text \<open>What the iterators run through, forwards and backwards.\<close>

(* core/include/upp/enum_array.hpp 29-33: enum_array::begin, end *)
definition ea_forwards :: "'a list \<Rightarrow> 'a list" where
  "ea_forwards arr = arr"

(* core/include/upp/enum_array.hpp 35-39: enum_array::rbegin, rend *)
definition ea_backwards :: "'a list \<Rightarrow> 'a list" where
  "ea_backwards arr = rev arr"

(* core/include/upp/enum_array.hpp 42-47: make_enum_array *)
definition make_enum_array :: "nat \<Rightarrow> ('e \<Rightarrow> nat option) \<Rightarrow> 'a \<Rightarrow> ('e \<times> 'a) list \<Rightarrow> 'a list result" where
  "make_enum_array count index dflt il =
     rfold (\<lambda>i out. ea_put index out (fst i) (snd i)) il (ea_new count dflt)"

context enum_reflection
begin

lemma deref_index_Inr: "e \<in> set vals \<Longrightarrow> deref_index index e = Inr (the (index e))"
  using index_Some [of e] by (auto simp: deref_index_def split: option.split)

lemma ea_get_put:
  assumes "e \<in> set vals" and "e' \<in> set vals" and "length arr = count"
  shows "\<exists>arr'. ea_put index arr e v = Inr arr' \<and> length arr' = count \<and>
    ea_get index arr' e' = (if e' = e then Inr v else ea_get index arr e')"
proof -
  have "the (index e) < count" "the (index e') < count" using index_Some assms by auto
  then show ?thesis
    using assms index_eq_iff [OF assms(1,2)] by (auto simp: ea_put_def ea_get_def deref_index_Inr)
qed

text \<open>An array made from values has them in the order of the enumerators.\<close>

lemma ea_of_values_get:
  assumes "ea_of_values count d ts = Some arr" and "e \<in> set vals"
  shows "ea_get index arr e = Inr (if the (index e) < length ts then ts ! the (index e) else d)"
  using assms(1) index_Some [OF assms(2)]
  by (auto simp: ea_of_values_def ea_get_def deref_index_def nth_append split: option.splits if_splits)

text \<open>An array made from pairs gives each enumerator the value of its last pair, or the default.\<close>

lemma make_enum_array_get:
  assumes "fst ` set il \<subseteq> set vals" and "e \<in> set vals"
  shows "\<exists>arr. make_enum_array count index d il = Inr arr \<and>
    ea_get index arr e = Inr (case map_of (rev il) e of None \<Rightarrow> d | Some v \<Rightarrow> v)"
proof -
  have "\<exists>arr. rfold (\<lambda>i out. ea_put index out (fst i) (snd i)) il arr0 = Inr arr \<and> length arr = count \<and>
      ea_get index arr e = (case map_of (rev il) e of None \<Rightarrow> ea_get index arr0 e | Some v \<Rightarrow> Inr v)"
    if "length arr0 = count" for arr0
    using assms(1) that
  proof (induction il arbitrary: arr0)
    case Nil
    then show ?case by simp
  next
    case (Cons p il)
    obtain k v where p: "p = (k, v)" by (cases p)
    with Cons.prems have k: "k \<in> set vals" by auto
    from ea_get_put [OF k assms(2) Cons.prems(2), of v] obtain arr1 where
      arr1: "ea_put index arr0 k v = Inr arr1" "length arr1 = count"
        "ea_get index arr1 e = (if e = k then Inr v else ea_get index arr0 e)" by blast
    from Cons.IH [OF _ arr1(2)] Cons.prems(1) arr1 p show ?case
      by (auto simp: map_add_def split: option.splits)
  qed
  from this [of "ea_new count d"] show ?thesis
    using index_Some [OF assms(2)] assms(2)
    by (auto simp: make_enum_array_def ea_new_def ea_get_def deref_index_Inr split: option.splits)
qed

end

section \<open>Sets of enumerators\<close>

text \<open>The set keeps a bitset with one bit for each enumerator.\<close>

(* core/include/upp/enum_set.hpp 42-43: enum_set *)
definition es_new :: "nat \<Rightarrow> bitset" where
  "es_new count = bs_new count"

(* core/include/upp/enum_set.hpp 27-30: enum_set::operator|= *)
definition es_insert :: "('e \<Rightarrow> nat option) \<Rightarrow> bitset \<Rightarrow> 'e \<Rightarrow> bitset result" where
  "es_insert index s v = rbind (deref_index index v) (\<lambda>i. px_assign s (bs_at i) True)"

(* core/include/upp/enum_set.hpp 32-36: enum_set::operator| *)
definition es_with :: "('e \<Rightarrow> nat option) \<Rightarrow> bitset \<Rightarrow> 'e \<Rightarrow> bitset result" where
  "es_with index s v = (let new_set = s in es_insert index new_set v)"

(* core/include/upp/enum_set.hpp 21-23: enum_set(initializer_list) *)
definition es_of_list :: "nat \<Rightarrow> ('e \<Rightarrow> nat option) \<Rightarrow> 'e list \<Rightarrow> bitset result" where
  "es_of_list count index il = rfold (\<lambda>e s. es_insert index s e) il (es_new count)"

(* core/include/upp/enum_set.hpp 25-25: enum_set::operator bool *)
definition es_any :: "bitset \<Rightarrow> bool" where
  "es_any s = bs_any s"

(* core/include/upp/enum_set.hpp 38-40: enum_set::contains *)
definition es_contains :: "('e \<Rightarrow> nat option) \<Rightarrow> bitset \<Rightarrow> 'e \<Rightarrow> bool result" where
  "es_contains index s v = rbind (deref_index index v) (bs_get s)"

context enum_reflection
begin

lemma es_of_list_contains:
  assumes "set il \<subseteq> set vals" and "e \<in> set vals"
  shows "\<exists>s. es_of_list count index il = Inr s \<and> es_contains index s e = Inr (e \<in> set il)"
proof -
  have cap: "the (index x) < 8 * arr_size count" if "x \<in> set vals" for x
    using index_Some [OF that] arr_size_spare [of count] by simp
  have fold: "rfold (\<lambda>e s. es_insert index s e) il s = rfold (\<lambda>i s. bs_set s i True) (map (\<lambda>e. the (index e)) il) s" for s
    using assms(1) by (induction il arbitrary: s) (auto simp: es_insert_def deref_index_Inr bs_set_def intro!: rbind_cong)
  have "\<And>i. i \<in> set (map (\<lambda>e. the (index e)) il) \<Longrightarrow> i < 8 * arr_size count" using cap assms(1) by auto
  from bits.put_all [OF length_bs_new this] obtain s where
    s: "rfold (\<lambda>i s. bs_set s i True) (map (\<lambda>e. the (index e)) il) (bs_new count) = Inr s"
      "\<forall>j < 8 * arr_size count. bs_get s j = (if j \<in> set (map (\<lambda>e. the (index e)) il) then Inr True else bs_get (bs_new count) j)"
    by blast
  have "the (index e) \<in> set (map (\<lambda>e. the (index e)) il) \<longleftrightarrow> e \<in> set il"
    using index_eq_iff [OF assms(2)] assms(1) by auto
  then have "bs_get s (the (index e)) = Inr (e \<in> set il)"
    using s(2) cap [OF assms(2)] by auto
  then show ?thesis using s(1) assms(2)
    by (simp add: es_of_list_def es_new_def fold es_contains_def deref_index_Inr)
qed

end

text \<open>A set made from a list of enumerators contains exactly those, whichever of the two
  implementations of the reflection functions is used.\<close>

theorem enum_set_contains:
  assumes "set il \<subseteq> set vals" and "e \<in> set vals"
  shows "\<exists>s. es_of_list (enum_count vals) (enum_index vals) il = Inr s \<and>
    es_contains (enum_index vals) s e = Inr (e \<in> set il)"
  by (rule reflected.es_of_list_contains [OF assms])

theorem enum_set_contains_witness:
  "\<exists>s. es_of_list (enum_count [CHR ''r'', CHR ''g'', CHR ''b'']) (enum_index ''rgb'') [CHR ''g''] = Inr s \<and>
    es_contains (enum_index ''rgb'') s (CHR ''b'') = Inr (CHR ''b'' \<in> set [CHR ''g''])"
  by (rule enum_set_contains) simp_all

end
