(* ===== verification/Logs_Output.thy ===== *)
theory Logs_Output
  imports Logs_Set_Level Strings Enums
begin

text \<open>
  The output of a message in \<open>logs/lib/logs.cpp\<close>: the prefix and the colors of its level, the path
  of its context, and the line the default consumer writes to standard error.  Whether standard
  error is a terminal is an argument.
\<close>

section \<open>Prefixes and colors\<close>

definition levels :: "level list" where
  "levels = [level_trace, level_debug, level_info, level_note, level_warn, level_error, level_fatal, level_unset]"

(* logs/lib/logs.cpp 43-51: prefixes *)
definition prefixes :: "string list result" where
  "prefixes = make_enum_array (enum_count levels) (enum_index levels) strlit_empty
     [(level_trace, ''[T] ''), (level_debug, ''[D] ''), (level_info, ''[I] ''), (level_note, ''[N] ''),
      (level_warn, ''[W] ''), (level_error, ''[E] ''), (level_fatal, ''[F] '')]"

(* logs/lib/logs.cpp 53-67: color_on *)
fun color_on :: "level \<Rightarrow> string" where
  "color_on level_unset = []"
| "color_on level_trace = []"
| "color_on level_debug = []"
| "color_on level_info = []"
| "color_on level_note = dynamic_escape_code [opt_bold]"
| "color_on level_warn = dynamic_escape_code [opt_yellow]"
| "color_on level_error = dynamic_escape_code [opt_red]"
| "color_on level_fatal = dynamic_escape_code [opt_red, opt_bold]"

(* logs/lib/logs.cpp 69-83: color_off *)
fun color_off :: "level \<Rightarrow> string" where
  "color_off level_unset = []"
| "color_off level_trace = []"
| "color_off level_debug = []"
| "color_off level_info = []"
| "color_off level_note = dynamic_escape_code [opt_clear]"
| "color_off level_warn = dynamic_escape_code [opt_clear]"
| "color_off level_error = dynamic_escape_code [opt_clear]"
| "color_off level_fatal = dynamic_escape_code [opt_clear]"

section \<open>The path of a context\<close>

(* logs/lib/logs.cpp 224-228: ctx_buf_size *)
partial_function (option) ctx_buf_size :: "store \<Rightarrow> ptr \<Rightarrow> nat \<Rightarrow> nat result option" where
  "ctx_buf_size m ctx counter =
     (if ctx = Some root_context then Some (Inr 0)
      else (case get_ctx m ctx of
        Inl e \<Rightarrow> Some (Inl e)
      | Inr c \<Rightarrow>
        if m_parent c = Some root_context then Some (Inr (counter + length (m_name c)))
        else ctx_buf_size m (m_parent c) (counter + length (m_name c) + 1)))"

(* logs/lib/logs.cpp 230-238: context_path_recurse *)
partial_function (option) context_path_recurse :: "store \<Rightarrow> ptr \<Rightarrow> string \<Rightarrow> string result option" where
  "context_path_recurse m ctx buf = (case get_ctx m ctx of
     Inl e \<Rightarrow> Some (Inl e)
   | Inr c \<Rightarrow>
     if m_parent c \<noteq> Some root_context
     then Option.bind (context_path_recurse m (m_parent c) buf) (\<lambda>r. case r of
         Inl e \<Rightarrow> Some (Inl e)
       | Inr buf' \<Rightarrow> Some (Inr ((buf' @ [CHR ''.'']) @ m_name c)))
     else Some (Inr (m_name c)))"

declare ctx_buf_size.simps [code] context_path_recurse.simps [code]

(* logs/lib/logs.cpp 240-245: context_path *)
definition context_path :: "store \<Rightarrow> nat \<Rightarrow> string result option" where
  "context_path m ctx = obind (ctx_buf_size m (Some ctx) 0) (\<lambda>_. context_path_recurse m (Some ctx) [])"

section \<open>Messages\<close>

text \<open>\<open>std::fputs\<close> writes a string up to its first NUL character.\<close>

definition fputs_text :: "string \<Rightarrow> string" where
  "fputs_text s = takeWhile (\<lambda>c. c \<noteq> NUL) s"

lemma fputs_text_whole: "NUL \<notin> set s \<Longrightarrow> fputs_text s = s"
  by (auto simp: fputs_text_def takeWhile_eq_all_conv)

(* logs/lib/logs.cpp 250-270: default_consumer_impl::operator() *)
definition default_consumer :: "build \<Rightarrow> bool \<Rightarrow> logs \<Rightarrow> nat \<Rightarrow> level \<Rightarrow> string \<Rightarrow> string result option" where
  "default_consumer b tty_output L ctx lvl msg =
     obind (Some (get_ctx (contexts L) (Some ctx))) (\<lambda>c.
     obind (Some (cassert b (ctx = root_context \<or> m_parent c \<noteq> None))) (\<lambda>_.
     obind (Some (rbind prefixes (\<lambda>p. ea_get (enum_index levels) p lvl))) (\<lambda>prefix.
     let buf = (if tty_output then color_on lvl else []) @ prefix in
     obind (if m_name c \<noteq> [] then
          obind (context_path (contexts L) ctx) (\<lambda>path.
            Some (Inr ((((buf @ [CHR ''['']) @ path) @ [CHR '']'']) @ [CHR '' ''])))
        else Some (Inr buf)) (\<lambda>buf.
     let buf = buf @ msg;
         buf = (if tty_output then buf @ color_off lvl else buf) in
     Some (Inr (fputs_text (buf @ [CHR 0x0A])))))))"

text \<open>The program sets at most one consumer; without one a message is dropped.\<close>

type_synonym consumer = "logs \<Rightarrow> nat \<Rightarrow> level \<Rightarrow> string \<Rightarrow> string result option"

(* logs/lib/logs.cpp 127-130: push_log *)
definition push_log :: "consumer option \<Rightarrow> logs \<Rightarrow> nat \<Rightarrow> level \<Rightarrow> string \<Rightarrow> string result option" where
  "push_log g_consumer L ctx lvl msg = (case g_consumer of
     None \<Rightarrow> Some (Inr [])
   | Some c \<Rightarrow> c L ctx lvl msg)"

(* logs/lib/logs.cpp 276-278: set_consumer *)
definition set_consumer :: "consumer \<Rightarrow> consumer option" where
  "set_consumer c = Some c"

(* logs/include/upp/logs.hpp 184-193: UPP_LOG *)
definition upp_log :: "consumer option \<Rightarrow> logs \<Rightarrow> nat \<Rightarrow> level \<Rightarrow> string \<Rightarrow> string result option" where
  "upp_log g_consumer L ctx lvl msg =
     obind (Some (logs_at L ctx lvl)) (\<lambda>enabled.
     if enabled then push_log g_consumer L ctx lvl msg else Some (Inr []))"

(* logs/include/upp/logs.hpp 196-196: UPP_TRACE *)
definition upp_trace :: "consumer option \<Rightarrow> logs \<Rightarrow> nat \<Rightarrow> string \<Rightarrow> string result option" where
  "upp_trace g_consumer L ctx msg = upp_log g_consumer L ctx level_trace msg"

(* logs/include/upp/logs.hpp 197-197: UPP_DEBUG *)
definition upp_debug :: "consumer option \<Rightarrow> logs \<Rightarrow> nat \<Rightarrow> string \<Rightarrow> string result option" where
  "upp_debug g_consumer L ctx msg = upp_log g_consumer L ctx level_debug msg"

(* logs/include/upp/logs.hpp 198-198: UPP_INFO *)
definition upp_info :: "consumer option \<Rightarrow> logs \<Rightarrow> nat \<Rightarrow> string \<Rightarrow> string result option" where
  "upp_info g_consumer L ctx msg = upp_log g_consumer L ctx level_info msg"

(* logs/include/upp/logs.hpp 199-199: UPP_NOTE *)
definition upp_note :: "consumer option \<Rightarrow> logs \<Rightarrow> nat \<Rightarrow> string \<Rightarrow> string result option" where
  "upp_note g_consumer L ctx msg = upp_log g_consumer L ctx level_note msg"

(* logs/include/upp/logs.hpp 200-200: UPP_WARN *)
definition upp_warn :: "consumer option \<Rightarrow> logs \<Rightarrow> nat \<Rightarrow> string \<Rightarrow> string result option" where
  "upp_warn g_consumer L ctx msg = upp_log g_consumer L ctx level_warn msg"

(* logs/include/upp/logs.hpp 201-201: UPP_ERR *)
definition upp_err :: "consumer option \<Rightarrow> logs \<Rightarrow> nat \<Rightarrow> string \<Rightarrow> string result option" where
  "upp_err g_consumer L ctx msg = upp_log g_consumer L ctx level_error msg"

(* logs/include/upp/logs.hpp 202-202: UPP_FATAL *)
definition upp_fatal :: "consumer option \<Rightarrow> logs \<Rightarrow> nat \<Rightarrow> string \<Rightarrow> string result option" where
  "upp_fatal g_consumer L ctx msg = upp_log g_consumer L ctx level_fatal msg"

text \<open>A context without any level is silent; with one, a fatal message always passes.\<close>

lemma upp_fatal_passes:
  assumes "contexts L ctx = Some c"
  shows "upp_fatal g L ctx msg =
    (if effective_level c = level_unset then Some (Inr []) else push_log g L ctx level_fatal msg)"
  using assms by (cases "effective_level c") (simp_all add: upp_fatal_def upp_log_def logs_at_def less_eq_level_def)

(* logs/include/upp/logs.hpp 176-182: quick_init *)
definition quick_init :: "build \<Rightarrow> bool \<Rightarrow> level \<Rightarrow> logs \<Rightarrow> (consumer option \<times> logs) result option" where
  "quick_init b tty_output lvl L =
     obind (set_level b root_context lvl L) (\<lambda>L'. Some (Inr (set_consumer (default_consumer b tty_output), L')))"

section \<open>What is written\<close>

text \<open>\<open>upwards m as\<close>: the contexts from one of them up to a child of the root.\<close>

fun upwards :: "store \<Rightarrow> nat list \<Rightarrow> bool" where
  "upwards m [] \<longleftrightarrow> False"
| "upwards m [a] \<longleftrightarrow> a \<noteq> root_context \<and> (\<exists>c. m a = Some c \<and> m_parent c = Some root_context)"
| "upwards m (a # b # as) \<longleftrightarrow> a \<noteq> root_context \<and> (\<exists>c. m a = Some c \<and> m_parent c = Some b) \<and> upwards m (b # as)"

fun dotted :: "store \<Rightarrow> nat list \<Rightarrow> string" where
  "dotted m [] = []"
| "dotted m [a] = m_name (the (m a))"
| "dotted m (a # b # as) = dotted m (b # as) @ CHR ''.'' # m_name (the (m a))"

lemma upwards_not_root: "upwards m (a # as) \<Longrightarrow> a \<noteq> root_context"
  by (cases as) auto

lemma ctx_buf_size_upwards:
  "upwards m as \<Longrightarrow> ctx_buf_size m (Some (hd as)) k = Some (Inr (k + length (dotted m as)))"
proof (induction m as arbitrary: k rule: upwards.induct)
  case (3 m a b as)
  then obtain c where c: "m a = Some c" "m_parent c = Some b" "a \<noteq> root_context" "upwards m (b # as)" by auto
  then have "b \<noteq> root_context" by (blast dest: upwards_not_root)
  with c 3 show ?case by (simp add: ctx_buf_size.simps [of m "Some a"])
qed (auto simp: ctx_buf_size.simps)

lemma context_path_recurse_upwards:
  "upwards m as \<Longrightarrow> context_path_recurse m (Some (hd as)) buf = Some (Inr (dotted m as))"
proof (induction m as rule: upwards.induct)
  case (3 m a b as)
  then obtain c where c: "m a = Some c" "m_parent c = Some b" "upwards m (b # as)" by auto
  then have "b \<noteq> root_context" by (blast dest: upwards_not_root)
  with c 3 show ?case by (simp add: context_path_recurse.simps [of m "Some a"])
qed (auto simp: context_path_recurse.simps)

lemma context_path_upwards: "upwards m (a # as) \<Longrightarrow> context_path m a = Some (Inr (dotted m (a # as)))"
  using ctx_buf_size_upwards [of m "a # as" 0] context_path_recurse_upwards [of m "a # as" "[]"]
  by (simp add: context_path_def)

definition level_prefix :: "level \<Rightarrow> string" where
  "level_prefix lvl = (case lvl of level_trace \<Rightarrow> ''[T] '' | level_debug \<Rightarrow> ''[D] '' | level_info \<Rightarrow> ''[I] ''
     | level_note \<Rightarrow> ''[N] '' | level_warn \<Rightarrow> ''[W] '' | level_error \<Rightarrow> ''[E] '' | level_fatal \<Rightarrow> ''[F] ''
     | level_unset \<Rightarrow> [])"

lemma prefix_lookup: "rbind prefixes (\<lambda>p. ea_get (enum_index levels) p lvl) = Inr (level_prefix lvl)"
proof -
  have "lvl \<in> set levels" by (cases lvl) (simp_all add: levels_def)
  from reflected.make_enum_array_get [OF _ this, of
      "[(level_trace, ''[T] ''), (level_debug, ''[D] ''), (level_info, ''[I] ''), (level_note, ''[N] ''),
      (level_warn, ''[W] ''), (level_error, ''[E] ''), (level_fatal, ''[F] '')]" strlit_empty]
  show ?thesis
    unfolding prefixes_def
    by (cases lvl) (auto simp: levels_def level_prefix_def strlit_empty_def)
qed

text \<open>The line of a message, before it is written: the colors of a terminal around the prefix, the path and the
  message.\<close>

definition log_line :: "bool \<Rightarrow> level \<Rightarrow> string \<Rightarrow> string \<Rightarrow> string" where
  "log_line tty_output lvl path msg = (if tty_output then color_on lvl else []) @ level_prefix lvl @
     ''['' @ path @ ''] '' @ msg @ (if tty_output then color_off lvl else []) @ [CHR 0x0A]"

lemma upp_log_line_at:
  assumes "upwards (contexts L) (ctx # as)" and "contexts L ctx = Some c" and "m_name c \<noteq> []"
  shows "upp_log (Some (default_consumer b tty_output)) L ctx lvl msg =
      Some (Inr (if effective_level c \<le> lvl
        then fputs_text (log_line tty_output lvl (dotted (contexts L) (ctx # as)) msg) else []))"
proof -
  have "m_parent c \<noteq> None" using assms(1,2) by (cases as) auto
  then have "default_consumer b tty_output L ctx lvl msg =
      Some (Inr (fputs_text (log_line tty_output lvl (dotted (contexts L) (ctx # as)) msg)))"
    using assms by (simp add: default_consumer_def log_line_def prefix_lookup context_path_upwards Let_def)
  then show ?thesis using assms(2) by (simp add: upp_log_def logs_at_def push_log_def)
qed

text \<open>A message passes when its level is at least the context's effective level; the line then has the
  level's prefix, the dotted path from the child of the root down to the context, and the message, and is
  written whole when it has no NUL character.  The buffer reserved for the path is exactly as long as the path.\<close>

theorem upp_log_line:
  assumes "upwards (contexts L) (ctx # as)" and "contexts L ctx = Some c" and "m_name c \<noteq> []"
    and "NUL \<notin> set (log_line tty_output lvl (dotted (contexts L) (ctx # as)) msg)"
  shows "upp_log (Some (default_consumer b tty_output)) L ctx lvl msg =
      Some (Inr (if effective_level c \<le> lvl
        then log_line tty_output lvl (dotted (contexts L) (ctx # as)) msg else [])) \<and>
    ctx_buf_size (contexts L) (Some ctx) 0 = Some (Inr (length (dotted (contexts L) (ctx # as))))"
  using upp_log_line_at [OF assms(1-3)] fputs_text_whole [OF assms(4)] ctx_buf_size_upwards [OF assms(1), of 0] by simp

theorem upp_log_line_witness:
  "\<exists>L. upp_log (Some (default_consumer Debug False)) L 7 level_warn ''hi'' = Some (Inr (''[W] [app] hi'' @ [CHR 0x0A]))"
proof -
  let ?c = "root_ctx\<lparr>m_parent := Some root_context, m_name := ''app'', m_lvl := level_info\<rparr>"
  let ?L = "\<lparr>contexts = [7 \<mapsto> ?c], g_organized = True\<rparr>"
  have "upwards (contexts ?L) [7]" by (simp add: root_context_def)
  from upp_log_line [OF this, of ?c False level_warn "''hi''" Debug] show ?thesis
    by (auto simp: effective_level_def less_eq_level_def level_prefix_def log_line_def)
qed

end
