(* ===== verification/Logs_Startup.thy ===== *)
theory Logs_Startup
  imports Logs_Output
begin

text \<open>
  A whole run of the logging library: a program constructs its contexts, in static initialisers and in
  any order that has parents before children, calls \<open>quick_init\<close> and logs.  The theory puts together
  the constructors, \<open>organize\<close>, \<open>set_level\<close>, \<open>UPP_LOG\<close> and the default consumer.
\<close>

section \<open>Constructing the contexts\<close>

text \<open>Each entry is the parent, the name and the address of a context.\<close>

fun construct_all :: "build \<Rightarrow> (nat \<times> string \<times> nat) list \<Rightarrow> logs \<Rightarrow> logs result option" where
  "construct_all b [] L = Some (Inr L)"
| "construct_all b ((parent, name, this) # cs) L = obind (ctx_ctor b parent name this L) (construct_all b cs)"

text \<open>\<open>well_parented known cs\<close>: every context is new and its parent is there already.\<close>

fun well_parented :: "nat set \<Rightarrow> (nat \<times> string \<times> nat) list \<Rightarrow> bool" where
  "well_parented known [] \<longleftrightarrow> True"
| "well_parented known ((parent, name, this) # cs) \<longleftrightarrow>
     parent \<in> known \<and> this \<notin> known \<and> well_parented (insert this known) cs"

text \<open>The state before the first \<open>set_level\<close>: the contexts are linked in some order and have no
  level, and their parents lead to the root.\<close>

definition unorganized_logs :: "logs \<Rightarrow> nat list \<Rightarrow> bool" where
  "unorganized_logs L xs \<longleftrightarrow> \<not> g_organized L \<and> linked (contexts L) (root_context # xs) \<and>
     dom (contexts L) = set (root_context # xs) \<and> parent_of (contexts L) root_context = None \<and>
     (\<exists>rank. \<forall>x \<in> set xs. \<exists>y \<in> set (root_context # xs). parent_of (contexts L) x = Some y \<and> rank y < (rank x :: nat)) \<and>
     (\<forall>x \<in> set xs. lvl_of (contexts L) x = level_unset)"

lemma unorganized_init: "unorganized_logs logs_init []"
  using logs_init_linked by (auto simp: unorganized_logs_def logs_init_def parent_of_def root_ctx_def)

lemma payload_lvl_at: "payload m a = payload m' a \<Longrightarrow> lvl_of m a = lvl_of m' a"
  by (cases "m a"; cases "m' a") (auto simp: payload_def lvl_of_def dest: arg_cong [of _ _ m_lvl])

lemma payload_name_at: "payload m a = payload m' a \<Longrightarrow> map_option m_name (m a) = map_option m_name (m' a)"
  by (cases "m a"; cases "m' a") (auto simp: payload_def dest: arg_cong [of _ _ m_name])

lemma ctx_ctor_unorganized:
  assumes "unorganized_logs L xs" and "this \<notin> dom (contexts L)" and "parent \<in> set (root_context # xs)"
  shows "\<exists>L'. ctx_ctor b parent name this L = Some (Inr L') \<and> unorganized_logs L' (this # xs) \<and>
    (\<exists>c. contexts L' this = Some c \<and> m_parent c = Some parent \<and> m_name c = name) \<and>
    (\<forall>a. a \<noteq> this \<longrightarrow> payload (contexts L') a = payload (contexts L) a)"
proof -
  have lk: "linked (contexts L) (root_context # xs)" and org: "\<not> g_organized L"
    and dom: "dom (contexts L) = set (root_context # xs)"
    and rp: "parent_of (contexts L) root_context = None"
    and un: "\<forall>x \<in> set xs. lvl_of (contexts L) x = level_unset"
    using assms(1) by (simp_all add: unorganized_logs_def)
  obtain rank where rank: "\<forall>x \<in> set xs. \<exists>y \<in> set (root_context # xs).
      parent_of (contexts L) x = Some y \<and> rank y < (rank x :: nat)"
    using assms(1) unfolding unorganized_logs_def by blast
  from ctx_ctor_spec [OF lk assms(2,3), of b name] org obtain L' c where
    L': "ctx_ctor b parent name this L = Some (Inr L')" "\<not> g_organized L'"
      "linked (contexts L') (root_context # this # xs)"
      "contexts L' this = Some c" "m_parent c = Some parent" "m_name c = name" "effective_level c = level_unset"
      and pay: "\<And>a. a \<noteq> this \<Longrightarrow> payload (contexts L') a = payload (contexts L) a" by auto
  have new: "this \<notin> set (root_context # xs)" using assms(2) dom by simp
  have lvl: "m_lvl c = level_unset" using L'(7) by (auto simp: effective_level_def split: if_splits)
  define rank' where "rank' = rank(this := Suc (rank parent))"
  have "\<exists>y \<in> set (root_context # this # xs). parent_of (contexts L') x = Some y \<and> rank' y < rank' x"
    if "x \<in> set (this # xs)" for x
  proof (cases "x = this")
    case True
    then show ?thesis using assms(3) new L'(4,5)
      by (intro bexI [of _ parent]) (auto simp: parent_of_def rank'_def)
  next
    case False
    then obtain y where "y \<in> set (root_context # xs)" "parent_of (contexts L) x = Some y" "rank y < rank x"
      using rank \<open>x \<in> set (this # xs)\<close> by auto
    then show ?thesis using False new payload_parent_at [OF pay [OF False]]
      by (intro bexI [of _ y]) (auto simp: rank'_def)
  qed
  moreover have "dom (contexts L') = set (root_context # this # xs)"
  proof (rule set_eqI)
    fix a show "a \<in> dom (contexts L') \<longleftrightarrow> a \<in> set (root_context # this # xs)"
      using payload_dom_at [OF pay, of a] L'(4) dom by (cases "a = this") auto
  qed
  moreover have "parent_of (contexts L') root_context = None"
    using payload_parent_at [OF pay, of root_context] rp new by auto
  moreover have "lvl_of (contexts L') x = level_unset" if "x \<in> set (this # xs)" for x
    using that un L'(4) lvl payload_lvl_at [OF pay, of x] by (cases "x = this") (auto simp: lvl_of_def)
  ultimately have "unorganized_logs L' (this # xs)"
    using L'(2,3) unfolding unorganized_logs_def by blast
  then show ?thesis using L'(1,4-6) pay by auto
qed

section \<open>Names along the way\<close>

text \<open>Stores that agree on the parent and the name of a context.\<close>

definition same_name :: "store \<Rightarrow> store \<Rightarrow> nat \<Rightarrow> bool" where
  "same_name m m' a \<longleftrightarrow> (\<forall>c. m a = Some c \<longrightarrow>
     (\<exists>c'. m' a = Some c' \<and> m_parent c' = m_parent c \<and> m_name c' = m_name c))"

lemma payload_same_name: "payload m' a = payload m a \<Longrightarrow> same_name m m' a"
  by (cases "m a"; cases "m' a")
    (auto simp: payload_def same_name_def dest: arg_cong [of _ _ m_name] arg_cong [of _ _ m_parent])

lemma inherit_same_name: "same_name m (inherit m A lvl) a"
  by (auto simp: same_name_def inherit_def)

lemma same_name_trans: "same_name m m' a \<Longrightarrow> same_name m' m'' a \<Longrightarrow> same_name m m'' a"
  unfolding same_name_def by fastforce

lemma upwards_same_name:
  "upwards m as \<Longrightarrow> (\<And>a. a \<in> set as \<Longrightarrow> same_name m m' a) \<Longrightarrow>
    upwards m' as \<and> dotted m' as = dotted m as"
  by (induction m as rule: upwards.induct) (fastforce simp: same_name_def)+

lemma upwards_dom: "upwards m as \<Longrightarrow> set as \<subseteq> dom m"
  by (induction m as rule: upwards.induct) auto

text \<open>The path of each context, as the constructions give it.\<close>

definition add_path :: "nat \<Rightarrow> string \<Rightarrow> nat \<Rightarrow> (nat \<Rightarrow> string) \<Rightarrow> nat \<Rightarrow> string" where
  "add_path parent name this paths =
     paths(this := if parent = root_context then name else paths parent @ CHR ''.'' # name)"

fun path_names :: "(nat \<times> string \<times> nat) list \<Rightarrow> (nat \<Rightarrow> string) \<Rightarrow> nat \<Rightarrow> string" where
  "path_names [] paths = paths"
| "path_names ((parent, name, this) # cs) paths =
     path_names cs (add_path parent name this paths)"

definition named :: "store \<Rightarrow> nat list \<Rightarrow> (nat \<Rightarrow> string) \<Rightarrow> bool" where
  "named m xs paths \<longleftrightarrow> (\<forall>x \<in> set xs. \<exists>as. upwards m (x # as) \<and> dotted m (x # as) = paths x)"

lemma named_ctor:
  assumes "named m xs paths" and "parent \<in> set (root_context # xs)" and "this \<notin> dom m" and "this \<noteq> root_context"
    and "m' this = Some c" and "m_parent c = Some parent" and "m_name c = name"
    and "\<And>a. a \<noteq> this \<Longrightarrow> same_name m m' a"
  shows "named m' (this # xs) (add_path parent name this paths)"
  unfolding named_def add_path_def
proof
  let ?paths = "paths(this := if parent = root_context then name else paths parent @ CHR ''.'' # name)"
  have old: "upwards m' as \<and> dotted m' as = dotted m as" if "upwards m as" for as
    by (rule upwards_same_name [OF that assms(8)]) (use upwards_dom [OF that] assms(3) in blast)
  fix x assume x: "x \<in> set (this # xs)"
  consider "x = this" "parent = root_context" | "x = this" "parent \<noteq> root_context" | "x \<noteq> this" by blast
  then show "\<exists>as. upwards m' (x # as) \<and> dotted m' (x # as) = ?paths x"
  proof cases
    case 1
    then show ?thesis using assms(4-7) by (intro exI [of _ "[]"]) simp
  next
    case 2
    then obtain as where as: "upwards m (parent # as)" "dotted m (parent # as) = paths parent"
      using assms(1,2) by (auto simp: named_def)
    then show ?thesis using 2 assms(4-7) old [OF as(1)] by (intro exI [of _ "parent # as"]) simp
  next
    case 3
    then obtain as where "upwards m (x # as)" "dotted m (x # as) = paths x"
      using x assms(1) by (auto simp: named_def)
    with old [of "x # as"] 3 show ?thesis by auto
  qed
qed

lemma construct_all_unorganized:
  assumes "unorganized_logs L xs" and "named (contexts L) xs paths" and "well_parented (set (root_context # xs)) cs"
  shows "\<exists>L' ys. construct_all b cs L = Some (Inr L') \<and> unorganized_logs L' ys \<and>
    named (contexts L') ys (path_names cs paths) \<and> set ys = snd ` snd ` set cs \<union> set xs \<and>
    (\<forall>a \<in> dom (contexts L). same_name (contexts L) (contexts L') a) \<and>
    (\<forall>(parent, name, this) \<in> set cs.
       \<exists>c. contexts L' this = Some c \<and> m_parent c = Some parent \<and> m_name c = name)"
  using assms
proof (induction cs arbitrary: L xs paths)
  case Nil
  then show ?case by (intro exI [of _ L] exI [of _ xs]) (simp add: same_name_def)
next
  case (Cons t cs)
  obtain parent name this where t: "t = (parent, name, this)" by (cases t)
  have dom: "dom (contexts L) = set (root_context # xs)" using Cons.prems(1) by (simp add: unorganized_logs_def)
  have wp: "parent \<in> set (root_context # xs)" "this \<notin> dom (contexts L)"
    "well_parented (set (root_context # this # xs)) cs"
    using Cons.prems(3) t dom by (simp_all add: insert_commute)
  from ctx_ctor_unorganized [OF Cons.prems(1) wp(2,1), of b name] obtain L1 c where
    L1: "ctx_ctor b parent name this L = Some (Inr L1)" "unorganized_logs L1 (this # xs)"
      "contexts L1 this = Some c" "m_parent c = Some parent" "m_name c = name"
      "\<And>a. a \<noteq> this \<Longrightarrow> same_name (contexts L) (contexts L1) a"
    by (blast intro: payload_same_name)
  have "this \<noteq> root_context" using wp(2) dom by auto
  from named_ctor [OF Cons.prems(2) wp(1,2) this L1(3-6)] have "named (contexts L1) (this # xs) (add_path parent name this paths)" .
  from Cons.IH [OF L1(2) this wp(3)] obtain L' ys where
    L': "construct_all b cs L1 = Some (Inr L')" "unorganized_logs L' ys"
      "named (contexts L') ys (path_names cs (add_path parent name this paths))"
      "set ys = snd ` snd ` set cs \<union> set (this # xs)"
      "\<forall>a \<in> dom (contexts L1). same_name (contexts L1) (contexts L') a"
      "\<forall>(parent, name, this) \<in> set cs.
         \<exists>c. contexts L' this = Some c \<and> m_parent c = Some parent \<and> m_name c = name" by blast
  have "same_name (contexts L) (contexts L') a" if "a \<in> dom (contexts L)" for a
  proof -
    have "a \<noteq> this" using that wp(2) by blast
    then have l1: "same_name (contexts L) (contexts L1) a" by (rule L1(6))
    with that have "a \<in> dom (contexts L1)" by (auto simp: same_name_def)
    with L'(5) l1 show ?thesis by (blast intro: same_name_trans)
  qed
  moreover have "\<exists>c. contexts L' this = Some c \<and> m_parent c = Some parent \<and> m_name c = name"
  proof -
    have "same_name (contexts L1) (contexts L') this" using L'(5) L1(3) by blast
    then show ?thesis using L1(3-5) by (auto simp: same_name_def)
  qed
  ultimately show ?case using L'(1-4,6) L1(1) t by auto
qed

section \<open>The first \<open>set_level\<close>\<close>

text \<open>The first call organizes the contexts and then behaves like any later one.\<close>

lemma set_level_first:
  assumes "unorganized_logs L xs" and "contexts L root_context = Some c"
  shows "\<exists>L1 ys. organized_logs L1 ys \<and> mset ys = mset xs \<and>
    payload (contexts L1) = payload ((contexts L)(root_context \<mapsto> c\<lparr>m_lvl := lvl\<rparr>)) \<and>
    set_level Release root_context lvl L = set_level Release root_context lvl L1"
proof -
  let ?m = "(contexts L)(root_context \<mapsto> c\<lparr>m_lvl := lvl\<rparr>)"
  have lk: "linked (contexts L) (root_context # xs)" and org: "\<not> g_organized L"
    and dom: "dom (contexts L) = set (root_context # xs)" and rp: "parent_of (contexts L) root_context = None"
    using assms(1) by (simp_all add: unorganized_logs_def)
  obtain rank where rank: "\<And>x. x \<in> set xs \<Longrightarrow> \<exists>y \<in> set (root_context # xs).
      parent_of (contexts L) x = Some y \<and> rank y < (rank x :: nat)"
    using assms(1) unfolding unorganized_logs_def by blast
  have par: "parent_of ?m = parent_of (contexts L)" using assms(2) by (auto simp: parent_of_def fun_eq_iff)
  have "linked ?m (root_context # xs)" by (rule linked_same_links [OF lk]) (use assms(2) in auto)
  from returns_Release [OF organize_from_returns [OF this, unfolded par, OF rp rank]] obtain m1 ys where
    m1: "organize_from Release (Some root_context) ?m = Some (Inr m1)" "linked m1 (root_context # ys)"
      "mset ys = mset xs" "forest (parent_of (contexts L)) root_context ys" "payload m1 = payload ?m" by blast
  let ?L = "L\<lparr>contexts := m1, g_organized := True\<rparr>"
  have par1: "parent_of m1 = parent_of (contexts L)" using payload_parent [OF m1(5)] par by simp
  have "dom m1 = dom ?m" using payload_dom_at [OF fun_cong [OF m1(5)]] by blast
  then have dom1: "dom m1 = set (root_context # ys)" using dom mset_eq_setD [OF m1(3)] by auto
  have ol: "organized_logs ?L ys" using m1(2,4) rp par1 dom1 by (simp add: organized_logs_def)
  have rc: "?m root_context = Some (c\<lparr>m_lvl := lvl\<rparr>)" by simp
  obtain c1 where c1: "m1 root_context = Some c1" "m_lvl c1 = lvl"
    by (rule payload_fun [OF m1(5) [symmetric] rc]) simp
  have "c1\<lparr>m_lvl := lvl\<rparr> = c1" using c1(2) by (cases c1) simp
  then have "set_level Release root_context lvl ?L = set_level Release root_context lvl L"
    using assms(2) org m1(1) c1
    by (simp add: set_level_def ensure_organized_def organize_def assert_valid_tree_def fun_upd_idem)
  then show ?thesis using ol m1(3,5) by (intro exI [of _ ?L] exI [of _ ys]) simp
qed

text \<open>After it every context has the level, and the tree is the same.\<close>

lemma set_level_root_first:
  assumes "unorganized_logs L xs" and "lvl \<noteq> level_unset"
  shows "\<exists>L'. set_level Release root_context lvl L = Some (Inr L') \<and>
    (\<forall>x \<in> set (root_context # xs). same_name (contexts L) (contexts L') x \<and>
       (\<exists>c. contexts L' x = Some c \<and> effective_level c = lvl))"
proof -
  have dom: "dom (contexts L) = set (root_context # xs)"
    and un: "\<And>x. x \<in> set xs \<Longrightarrow> lvl_of (contexts L) x = level_unset" and lk: "linked (contexts L) (root_context # xs)"
    using assms(1) by (simp_all add: unorganized_logs_def)
  then obtain c where c: "contexts L root_context = Some c" by auto
  let ?m = "(contexts L)(root_context \<mapsto> c\<lparr>m_lvl := lvl\<rparr>)"
  from set_level_first [OF assms(1) c] obtain L1 ys where
    L1: "organized_logs L1 ys" "mset ys = mset xs" "payload (contexts L1) = payload ?m"
      "set_level Release root_context lvl L = set_level Release root_context lvl L1" by blast
  let ?D = "{x. descendant (parent_of (contexts L1)) root_context x}"
  have root: "root_context \<in> set (root_context # ys)" by simp
  have D: "?D = set ys"
  proof -
    have "root_context # ys = [] @ root_context # ys @ []" "forest (parent_of (contexts L1)) root_context ys"
      "outside (parent_of (contexts L1)) (insert root_context (set ys)) ([] @ [root_context] @ [])"
      using L1(1) by (simp_all add: organized_logs_def outside_def)
    from organized_subtree_set [OF L1(1) this] show ?thesis by simp
  qed
  have ys: "set ys = set xs" using L1(2) by (rule mset_eq_setD)
  have nr: "root_context \<notin> set xs" using lk by (simp add: linked_def)
  have un1: "lvl_of (contexts L1) x = level_unset" if "x \<in> set xs" for x
  proof -
    have "x \<noteq> root_context" using that nr by blast
    then show ?thesis using payload_lvl_at [OF fun_cong [OF L1(3)], of x] un [OF that] by (simp add: lvl_of_def)
  qed
  have "root_context \<in> dom (contexts L1)" using L1(1) by (simp add: organized_logs_def)
  then obtain c1 where c1: "contexts L1 root_context = Some c1" by blast
  let ?m1 = "(contexts L1)(root_context \<mapsto> c1\<lparr>m_lvl := lvl\<rparr>)"
  have "set_level Release root_context lvl L1 = Some (Inr (L1\<lparr>contexts := inherit ?m1 ?D lvl\<rparr>))"
    by (rule set_level_organized [OF L1(1) root assms(2) _ c1]) (use D ys un1 in blast)
  moreover have "same_name (contexts L) (inherit ?m1 ?D lvl) x" for x
  proof -
    have "same_name (contexts L) ?m x" "same_name ?m (contexts L1) x" "same_name (contexts L1) ?m1 x"
      "same_name ?m1 (inherit ?m1 ?D lvl) x"
      using c c1 payload_same_name [OF fun_cong [OF L1(3)]] inherit_same_name by (auto simp: same_name_def)
    then show ?thesis by (blast intro: same_name_trans)
  qed
  moreover have "\<exists>c. inherit ?m1 ?D lvl x = Some c \<and> effective_level c = lvl" if "x \<in> set (root_context # xs)" for x
  proof (cases "x = root_context")
    case True
    then show ?thesis using assms(2) by (auto simp: inherit_def effective_level_def)
  next
    case False
    then have x: "x \<in> set xs" using that by simp
    then have "x \<in> dom (contexts L1)" using L1(1) ys by (simp add: organized_logs_def)
    then obtain cx where "contexts L1 x = Some cx" by blast
    then show ?thesis using un1 [OF x] x D ys False by (auto simp: inherit_def effective_level_def lvl_of_def)
  qed
  ultimately show ?thesis using L1(4) by auto
qed

section \<open>From construction to output\<close>

text \<open>A message on a context whose path is known, once all levels are the same.\<close>

lemma upp_log_path:
  assumes "upwards m (x # as)" and "\<And>a. a \<in> set (x # as) \<Longrightarrow> same_name m (contexts L) a"
    and "contexts L x = Some c" and "m_name c \<noteq> []"
  shows "upp_log (Some (default_consumer b tty_output)) L x l msg =
    Some (Inr (if effective_level c \<le> l then fputs_text (log_line tty_output l (dotted m (x # as)) msg) else []))"
proof -
  from upwards_same_name [OF assms(1,2)]
  have u: "upwards (contexts L) (x # as)" "dotted (contexts L) (x # as) = dotted m (x # as)" by simp_all
  show ?thesis using upp_log_line_at [OF u(1) assms(3,4)] u(2) by simp
qed

lemma quick_init_logs:
  assumes "unorganized_logs L xs" and "named (contexts L) xs paths" and "lvl \<noteq> level_unset"
  shows "\<exists>g L'. quick_init Release tty_output lvl L = Some (Inr (g, L')) \<and>
    (\<forall>x \<in> set xs. \<forall>c. contexts L x = Some c \<longrightarrow> m_name c \<noteq> [] \<longrightarrow> (\<forall>l msg. upp_log g L' x l msg =
       Some (Inr (if lvl \<le> l then fputs_text (log_line tty_output l (paths x) msg) else []))))"
proof -
  from set_level_root_first [OF assms(1,3)] obtain L' where
    L': "set_level Release root_context lvl L = Some (Inr L')"
      "\<And>x. x \<in> set (root_context # xs) \<Longrightarrow> same_name (contexts L) (contexts L') x"
      "\<And>x. x \<in> set (root_context # xs) \<Longrightarrow> \<exists>c. contexts L' x = Some c \<and> effective_level c = lvl" by blast
  have dom: "dom (contexts L) = set (root_context # xs)" using assms(1) by (simp add: unorganized_logs_def)
  have "upp_log (Some (default_consumer Release tty_output)) L' x l msg =
      Some (Inr (if lvl \<le> l then fputs_text (log_line tty_output l (paths x) msg) else []))"
    if x: "x \<in> set xs" and c: "contexts L x = Some c" "m_name c \<noteq> []" for x c l msg
  proof -
    obtain as where as: "upwards (contexts L) (x # as)" "dotted (contexts L) (x # as) = paths x"
      using assms(2) x by (auto simp: named_def)
    have same: "same_name (contexts L) (contexts L') a" if "a \<in> set (x # as)" for a
      using upwards_dom [OF as(1)] that dom L'(2) by blast
    obtain c' where c': "contexts L' x = Some c'" "effective_level c' = lvl" using L'(3) x by auto
    have "m_name c' \<noteq> []" using same [of x] c c'(1) by (auto simp: same_name_def)
    from upp_log_path [OF as(1) same c'(1) this] show ?thesis using c'(2) as(2) by simp
  qed
  then show ?thesis using L'(1) by (auto simp: quick_init_def set_consumer_def)
qed

text \<open>C1. A release build from start to output: a program constructs contexts in any order that has parents
  first and calls \<open>quick_init\<close> with a level.  Everything returns, and a message on a context with a name
  is written when its level is at least the given one, as one line with the level's prefix, the
  dotted path of the context and the message; on a terminal the colors of the level stand around them.  A name or
  message with a NUL character cuts the line there, because \<open>fputs\<close> gets it as a C string; otherwise the
  whole line is written.\<close>

theorem startup_logs:
  assumes "well_parented {root_context} cs" and "lvl \<noteq> level_unset"
  shows "\<exists>L g L'. construct_all Release cs logs_init = Some (Inr L) \<and>
    quick_init Release tty_output lvl L = Some (Inr (g, L')) \<and>
    (\<forall>(parent, name, this) \<in> set cs. name \<noteq> [] \<longrightarrow> (\<forall>l msg. \<exists>line.
       line = (if tty_output then color_on l else []) @ level_prefix l @ ''['' @ path_names cs (\<lambda>_. []) this @ ''] '' @
         msg @ (if tty_output then color_off l else []) @ [CHR 0x0A] \<and>
       upp_log g L' this l msg = Some (Inr (if lvl \<le> l then takeWhile (\<lambda>c. c \<noteq> NUL) line else [])) \<and>
       (NUL \<notin> set line \<longrightarrow> lvl \<le> l \<longrightarrow> upp_log g L' this l msg = Some (Inr line))))"
proof -
  have "named (contexts logs_init) [] (\<lambda>_. [])" by (simp add: named_def)
  from construct_all_unorganized [OF unorganized_init this, of cs Release] assms(1) obtain L ys where
    L: "construct_all Release cs logs_init = Some (Inr L)" "unorganized_logs L ys"
      "named (contexts L) ys (path_names cs (\<lambda>_. []))" "set ys = snd ` snd ` set cs"
      "\<forall>(parent, name, this) \<in> set cs.
         \<exists>c. contexts L this = Some c \<and> m_parent c = Some parent \<and> m_name c = name" by auto
  from quick_init_logs [OF L(2,3) assms(2)] obtain g L' where
    g: "quick_init Release tty_output lvl L = Some (Inr (g, L'))"
      "\<And>x c l msg. x \<in> set ys \<Longrightarrow> contexts L x = Some c \<Longrightarrow> m_name c \<noteq> [] \<Longrightarrow> upp_log g L' x l msg =
         Some (Inr (if lvl \<le> l then fputs_text (log_line tty_output l (path_names cs (\<lambda>_. []) x) msg) else []))"
    by blast
  have "upp_log g L' this l msg = Some (Inr (if lvl \<le> l
      then fputs_text (log_line tty_output l (path_names cs (\<lambda>_. []) this) msg) else []))"
    if t: "(parent, name, this) \<in> set cs" "name \<noteq> []" for parent name this l msg
  proof -
    have "this \<in> snd ` snd ` set cs" by (rule image_eqI [OF _ image_eqI [OF _ t(1)]]) simp_all
    then have y: "this \<in> set ys" using L(4) by blast
    obtain c where c: "contexts L this = Some c" "m_name c = name" using bspec [OF L(5) t(1)] by auto
    have "m_name c \<noteq> []" using c(2) t(2) by simp
    with y c(1) show ?thesis by (rule g(2))
  qed
  then have "\<forall>(parent, name, this) \<in> set cs. name \<noteq> [] \<longrightarrow> (\<forall>l msg. \<exists>line.
       line = log_line tty_output l (path_names cs (\<lambda>_. []) this) msg \<and>
       upp_log g L' this l msg = Some (Inr (if lvl \<le> l then fputs_text line else [])) \<and>
       (NUL \<notin> set line \<longrightarrow> lvl \<le> l \<longrightarrow> upp_log g L' this l msg = Some (Inr line)))"
    using fputs_text_whole by fastforce
  then show ?thesis using L(1) g(1) unfolding log_line_def fputs_text_def by blast
qed

theorem startup_logs_witness:
  "\<exists>L g L'. construct_all Release [(root_context, ''app'', 1), (root_context, ''net'', 2), (1, ''db'', 3)] logs_init =
      Some (Inr L) \<and> quick_init Release False level_info L = Some (Inr (g, L')) \<and>
    upp_log g L' 3 level_warn ''slow'' = Some (Inr (''[W] [app.db] slow'' @ [CHR 0x0A])) \<and>
    upp_log g L' 2 level_debug ''sent'' = Some (Inr [])"
proof -
  let ?cs = "[(root_context, ''app'', 1), (root_context, ''net'', 2), (1, ''db'', 3)]"
  have "well_parented {root_context} ?cs" by (simp add: root_context_def)
  from startup_logs [OF this, of level_info False] obtain L g L' where
    r: "construct_all Release ?cs logs_init = Some (Inr L)" "quick_init Release False level_info L = Some (Inr (g, L'))"
      "\<forall>(parent, name, this) \<in> set ?cs. name \<noteq> [] \<longrightarrow> (\<forall>l msg. \<exists>line.
        line = (if False then color_on l else []) @ level_prefix l @ ''['' @ path_names ?cs (\<lambda>_. []) this @ ''] '' @
          msg @ (if False then color_off l else []) @ [CHR 0x0A] \<and>
        upp_log g L' this l msg = Some (Inr (if level_info \<le> l then takeWhile (\<lambda>c. c \<noteq> NUL) line else [])) \<and>
        (NUL \<notin> set line \<longrightarrow> level_info \<le> l \<longrightarrow> upp_log g L' this l msg = Some (Inr line)))" by blast
  have "upp_log g L' 3 level_warn ''slow'' = Some (Inr (''[W] [app.db] slow'' @ [CHR 0x0A]))"
    using r(3) by (simp add: add_path_def root_context_def less_eq_level_def level_prefix_def)
  moreover have "upp_log g L' 2 level_debug ''sent'' = Some (Inr [])"
    using r(3) by (simp add: less_eq_level_def)
  ultimately show ?thesis using r(1,2) by blast
qed

end
