(* ===== verification/Logs_Runs.thy ===== *)
theory Logs_Runs
  imports Logs_Startup
begin

text \<open>
  Runs of the logging library: any sequence of constructions, destructions and changes of levels.
  Every operation returns, whatever levels the contexts have, and keeps the state well formed: the
  list links all contexts, their parents lead to the root, and once it is organized each context is
  followed by its descendants.
\<close>

section \<open>Passing a level on always ends\<close>

text \<open>Each loop only moves forward in the list and writes inherited levels only.\<close>

definition onwards :: "nat list \<Rightarrow> ptr \<Rightarrow> bool" where
  "onwards xs p \<longleftrightarrow> (\<exists>zs ys. xs = zs @ ys \<and> p = hdp ys None)"

lemma onwards_None [simp]: "onwards xs None"
  unfolding onwards_def by (rule exI [of _ xs], rule exI [of _ "[]"]) simp

lemma onwards_hdp [simp]: "onwards xs (hdp xs None)"
  unfolding onwards_def by (rule exI [of _ "[]"], rule exI [of _ xs]) simp

lemma onwards_append: "onwards ys p \<Longrightarrow> onwards (zs @ ys) p"
  unfolding onwards_def by (metis append_assoc)

lemma onwards_Cons: "onwards xs p \<Longrightarrow> onwards (x # xs) p"
  using onwards_append [of xs p "[x]"] by simp

lemma onwards_cases:
  assumes "onwards xs p"
  obtains "p = None" | zs y ys where "xs = zs @ y # ys" "p = Some y"
proof -
  obtain zs ys where xs: "xs = zs @ ys" "p = hdp ys None" using assms by (auto simp: onwards_def)
  then show thesis using that by (cases ys) auto
qed

lemma dlink_suffix: "dlink m prv (zs @ ys) None \<Longrightarrow> dlink m (lastp prv zs) ys None"
  by simp

lemma next_sibling_onwards:
  "dlink m prv xs None \<Longrightarrow> \<exists>p. next_sibling_loop m par (hdp xs None) = Some (Inr p) \<and> onwards xs p"
proof (induction xs arbitrary: prv)
  case Nil
  then show ?case by (simp add: next_sibling_loop.simps)
next
  case (Cons a xs)
  then obtain c where c: "m a = Some c" "m_next c = hdp xs None" "dlink m (Some a) xs None" by auto
  from Cons.IH [OF c(3)] obtain p where
    "next_sibling_loop m par (hdp xs None) = Some (Inr p)" "onwards xs p" by blast
  moreover have "onwards (a # xs) (Some a)" using onwards_hdp [of "a # xs"] by simp
  ultimately show ?case using c(1,2) onwards_Cons [of xs p a]
    by (cases "m_parent c = par") (auto simp: next_sibling_loop.simps [of m par "Some a"])
qed

lemma find_next_sibling_onwards:
  assumes "dlink m prv (a # xs) None"
  shows "\<exists>p. find_next_sibling m a = Some (Inr p) \<and> onwards xs p"
proof -
  obtain c where c: "m a = Some c" "m_next c = hdp xs None" "dlink m (Some a) xs None" using assms by auto
  from next_sibling_onwards [OF c(3), of "m_parent c"] c(1,2) show ?thesis by (auto simp: find_next_sibling_def)
qed

definition inherits :: "store \<Rightarrow> level \<Rightarrow> nat list \<Rightarrow> (ptr \<times> store) result option \<Rightarrow> bool" where
  "inherits m lvl xs r \<longleftrightarrow> (\<exists>p A. r = Some (Inr (p, inherit m A lvl)) \<and> onwards xs p)"

lemma inheritsI: "r = Some (Inr (p, inherit m A lvl)) \<Longrightarrow> onwards xs p \<Longrightarrow> inherits m lvl xs r"
  unfolding inherits_def by blast

lemma inherits_same: "r = Some (Inr (p, m)) \<Longrightarrow> onwards xs p \<Longrightarrow> inherits m lvl xs r"
  by (rule inheritsI [of _ _ _ "{}"]) simp_all

lemma inherits_trans: "inherits (inherit m A lvl) lvl ys r \<Longrightarrow> (\<And>p. onwards ys p \<Longrightarrow> onwards xs p) \<Longrightarrow> inherits m lvl xs r"
  unfolding inherits_def by fastforce

lemma sync_run_set:
  assumes "m c = Some cc" and "m_lvl cc \<noteq> level_unset"
  shows "sync_run m (Sync c) lvl = obind (find_next_sibling m c) (\<lambda>p. Some (Inr (p, m)))"
  using assms by (simp add: sync_run.simps [of m "Sync c"] explicit_level_def)

lemma sync_run_last:
  assumes "m c = Some cc" and "m_lvl cc = level_unset" and "m_next cc = None"
  shows "sync_run m (Sync c) lvl = Some (Inr (None, inherit m {c} lvl))"
  using assms by (simp add: sync_run.simps [of m "Sync c"] explicit_level_def inherit_one)

lemma sync_run_ends:
  "(\<forall>a xs. zs = a # xs \<longrightarrow> dlink m prv zs None \<longrightarrow> inherits m lvl xs (sync_run m (Sync a) lvl)) \<and>
   (\<forall>br. dlink m prv zs None \<longrightarrow> inherits m lvl zs (sync_run m (Children br (hdp zs None)) lvl))"
proof (induction "length zs" arbitrary: m prv zs rule: less_induct)
  case less
  have sync: "inherits m lvl xs (sync_run m (Sync a) lvl)" if zs: "zs = a # xs" and dl: "dlink m prv zs None" for a xs
  proof -
    obtain c where c: "m a = Some c" "m_next c = hdp xs None" "dlink m (Some a) xs None" using dl zs by auto
    consider "m_lvl c \<noteq> level_unset" | "m_lvl c = level_unset" "xs = []"
      | i ys where "m_lvl c = level_unset" "xs = i # ys" by (cases xs) auto
    then show ?thesis
    proof cases
      case 1
      from find_next_sibling_onwards [of m prv a xs] dl zs obtain p where
        "find_next_sibling m a = Some (Inr p)" "onwards xs p" by blast
      then show ?thesis by (intro inherits_same [of _ p]) (simp_all add: sync_run_set [of m a c] c(1) 1)
    next
      case 2
      then show ?thesis by (intro inheritsI [of _ None]) (simp_all add: sync_run_last [of m a c] c(1,2))
    next
      case 3
      let ?m = "inherit m {a} lvl"
      have dl': "dlink ?m (Some a) xs None" using c(3) by simp
      then obtain ic where ic: "?m i = Some ic" using 3(2) by auto
      have len: "length xs < length zs" using zs by simp
      note IH = less [OF len, of ?m "Some a"]
      have "inherits ?m lvl ys (sync_run ?m (Sync i) lvl)" using IH 3(2) dl' by blast
      then have s: "inherits ?m lvl xs (sync_run ?m (Sync i) lvl)"
        by (rule inherits_trans [of ?m "{}", unfolded inherit_empty]) (simp add: 3(2) onwards_Cons)
      have "inherits ?m lvl xs (sync_run ?m (Children a (Some i)) lvl)"
        using IH dl' 3(2) by auto
      with s have "inherits ?m lvl xs (sync_run ?m (if m_parent ic = m_parent c then Sync i else Children a (Some i)) lvl)"
        by simp
      moreover have "sync_run m (Sync a) lvl = sync_run ?m (if m_parent ic = m_parent c then Sync i else Children a (Some i)) lvl"
        by (rule sync_run_unset [of m a c i lvl ic]) (use c 3 ic in simp_all)
      ultimately show ?thesis by (auto intro: inherits_trans)
    qed
  qed
  moreover have "inherits m lvl zs (sync_run m (Children br (hdp zs None)) lvl)" if dl: "dlink m prv zs None" for br
  proof (cases zs)
    case Nil
    then show ?thesis by (intro inherits_same [of _ None]) (simp_all add: sync_run.simps)
  next
    case (Cons a xs)
    obtain c where c: "m a = Some c" "dlink m (Some a) xs None" using dl Cons by auto
    show ?thesis
    proof (cases "m_parent c = Some br")
      case False
      then show ?thesis using c(1) Cons onwards_hdp [of zs]
        by (intro inherits_same [of _ "Some a"]) (simp_all add: sync_run.simps [of m "Children br (Some a)"])
    next
      case True
      from sync [OF Cons dl] obtain p A where p: "sync_run m (Sync a) lvl = Some (Inr (p, inherit m A lvl))" "onwards xs p"
        unfolding inherits_def by blast
      then obtain us ys where xs: "xs = us @ ys" "p = hdp ys None" by (auto simp: onwards_def)
      let ?m = "inherit m A lvl"
      have "dlink m (lastp (Some a) us) ys None" by (rule dlink_suffix) (use c(2) xs(1) in simp)
      then have "dlink ?m (lastp (Some a) us) ys None" by simp
      moreover have "length ys < length zs" using Cons xs(1) by simp
      ultimately have "inherits ?m lvl ys (sync_run ?m (Children br (hdp ys None)) lvl)" using less by blast
      then have "inherits m lvl zs (sync_run ?m (Children br p) lvl)"
        unfolding xs(2) by (rule inherits_trans) (simp add: Cons xs(1) onwards_append onwards_Cons)
      moreover have "sync_run m (Children br (Some a)) lvl = sync_run ?m (Children br p) lvl"
        using c(1) True p(1) by (simp add: sync_run.simps [of m "Children br (Some a)"])
      ultimately show ?thesis using Cons by simp
    qed
  qed
  ultimately show ?case by blast
qed

lemma set_level_loop_ends:
  "dlink m prv xs None \<Longrightarrow> \<exists>A. set_level_loop m this (hdp xs None) lvl = Some (Inr (inherit m A lvl))"
proof (induction "length xs" arbitrary: m prv xs rule: less_induct)
  case less
  show ?case
  proof (cases xs)
    case Nil
    then show ?thesis by (intro exI [of _ "{}"]) (simp add: set_level_loop.simps)
  next
    case (Cons a ys)
    obtain c where c: "m a = Some c" using less.prems Cons by auto
    show ?thesis
    proof (cases "m_parent c = Some this")
      case False
      then show ?thesis using c Cons by (intro exI [of _ "{}"]) (simp add: set_level_loop.simps [of m this "Some a"])
    next
      case True
      have "inherits m lvl ys (sync_run m (Sync a) lvl)" using sync_run_ends less.prems Cons by blast
      then obtain p A where p: "sync_run m (Sync a) lvl = Some (Inr (p, inherit m A lvl))"
        unfolding inherits_def by blast
      let ?m = "inherit m A lvl"
      have dl: "dlink ?m prv (a # ys) None" using less.prems Cons by (simp only: dlink_inherit)
      from find_next_sibling_onwards [OF dl] obtain q where
        q: "find_next_sibling ?m a = Some (Inr q)" "onwards ys q" by blast
      then obtain us zs where ys: "ys = us @ zs" "q = hdp zs None" by (auto simp: onwards_def)
      have "dlink ?m (lastp prv (a # us)) zs None" by (rule dlink_suffix) (use dl ys(1) in simp)
      moreover have "length zs < length xs" using Cons ys(1) by simp
      ultimately obtain B where "set_level_loop ?m this (hdp zs None) lvl = Some (Inr (inherit ?m B lvl))"
        using less.hyps by blast
      moreover have "set_level_loop m this (Some a) lvl = set_level_loop ?m this q lvl"
        using c True p q(1) by (simp add: set_level_loop.simps [of m this "Some a"])
      ultimately show ?thesis using Cons ys(2) by (intro exI [of _ "A \<union> B"]) simp
    qed
  qed
qed

section \<open>Well-formed states\<close>

text \<open>The parents of the contexts in a set lead to the root.\<close>

definition rooted :: "(nat \<Rightarrow> ptr) \<Rightarrow> nat set \<Rightarrow> bool" where
  "rooted par X \<longleftrightarrow> par root_context = None \<and>
     (\<exists>rank. \<forall>x \<in> X. \<exists>y \<in> insert root_context X. par x = Some y \<and> rank y < (rank x :: nat))"

lemma rootedI:
  "par root_context = None \<Longrightarrow>
    (\<And>x. x \<in> X \<Longrightarrow> \<exists>y \<in> insert root_context X. par x = Some y \<and> rank y < (rank x :: nat)) \<Longrightarrow> rooted par X"
  unfolding rooted_def by blast

lemma rootedE:
  assumes "rooted par X"
  obtains rank where "par root_context = None"
    "\<And>x. x \<in> X \<Longrightarrow> \<exists>y \<in> insert root_context X. par x = Some y \<and> rank y < (rank x :: nat)"
  using assms unfolding rooted_def by blast

definition logs_ok :: "logs \<Rightarrow> bool" where
  "logs_ok L \<longleftrightarrow> (\<exists>xs. linked (contexts L) (root_context # xs) \<and> dom (contexts L) = set (root_context # xs) \<and>
     rooted (parent_of (contexts L)) (set xs) \<and>
     (g_organized L \<longrightarrow> forest (parent_of (contexts L)) root_context xs))"

lemma logs_okI:
  "linked (contexts L) (root_context # xs) \<Longrightarrow> dom (contexts L) = set (root_context # xs) \<Longrightarrow>
    rooted (parent_of (contexts L)) (set xs) \<Longrightarrow>
    (g_organized L \<Longrightarrow> forest (parent_of (contexts L)) root_context xs) \<Longrightarrow> logs_ok L"
  unfolding logs_ok_def by blast

lemma logs_okE:
  assumes "logs_ok L"
  obtains xs where "linked (contexts L) (root_context # xs)" "dom (contexts L) = set (root_context # xs)"
    "rooted (parent_of (contexts L)) (set xs)" "g_organized L \<Longrightarrow> forest (parent_of (contexts L)) root_context xs"
  using assms unfolding logs_ok_def by blast

lemma logs_ok_init: "logs_ok logs_init"
  by (rule logs_okI [of _ "[]"])
    (use logs_init_linked in \<open>auto simp: rooted_def logs_init_def parent_of_def root_ctx_def\<close>)

text \<open>Stores that differ in levels and names only.\<close>

definition same_links :: "store \<Rightarrow> store \<Rightarrow> bool" where
  "same_links m m' \<longleftrightarrow> (\<forall>a. map_option (\<lambda>c. (m_parent c, m_next c, m_prev c)) (m' a) =
     map_option (\<lambda>c. (m_parent c, m_next c, m_prev c)) (m a))"

lemma same_links_at:
  assumes "same_links m m'" and "m a = Some c"
  obtains c' where "m' a = Some c'" "m_parent c' = m_parent c" "m_next c' = m_next c" "m_prev c' = m_prev c"
proof -
  have "map_option (\<lambda>c. (m_parent c, m_next c, m_prev c)) (m' a) = Some (m_parent c, m_next c, m_prev c)"
    using assms by (simp add: same_links_def)
  then show thesis using that by (cases "m' a") auto
qed

lemma same_links_parents: "same_links m m' \<Longrightarrow> parent_of m' = parent_of m"
proof
  fix a assume "same_links m m'"
  then have "map_option (\<lambda>c. (m_parent c, m_next c, m_prev c)) (m' a) =
      map_option (\<lambda>c. (m_parent c, m_next c, m_prev c)) (m a)" by (simp add: same_links_def)
  then show "parent_of m' a = parent_of m a" by (cases "m a"; cases "m' a") (auto simp: parent_of_def)
qed

lemma same_links_dom: "same_links m m' \<Longrightarrow> dom m' = dom m"
proof (rule set_eqI)
  fix a assume "same_links m m'"
  then have "map_option (\<lambda>c. (m_parent c, m_next c, m_prev c)) (m' a) =
      map_option (\<lambda>c. (m_parent c, m_next c, m_prev c)) (m a)" by (simp add: same_links_def)
  then show "a \<in> dom m' \<longleftrightarrow> a \<in> dom m" by (cases "m a"; cases "m' a") auto
qed

lemma same_links_linked: "same_links m m' \<Longrightarrow> linked m xs \<Longrightarrow> linked m' xs"
proof (rule linked_same_links)
  fix a c assume "same_links m m'" "m a = Some c"
  then obtain c' where "m' a = Some c'" "m_next c' = m_next c" "m_prev c' = m_prev c" by (rule same_links_at)
  then show "\<exists>c'. m' a = Some c' \<and> m_next c' = m_next c \<and> m_prev c' = m_prev c" by blast
qed

lemma logs_ok_same_links:
  assumes "logs_ok L" and "same_links (contexts L) (contexts L')" and "g_organized L' = g_organized L"
  shows "logs_ok L'"
proof -
  from assms(1) obtain xs where xs: "linked (contexts L) (root_context # xs)" "dom (contexts L) = set (root_context # xs)"
    "rooted (parent_of (contexts L)) (set xs)" "g_organized L \<Longrightarrow> forest (parent_of (contexts L)) root_context xs"
    by (rule logs_okE) blast
  show ?thesis
    by (rule logs_okI [of _ xs]) (use xs assms(3) same_links_parents [OF assms(2)] same_links_dom [OF assms(2)]
        same_links_linked [OF assms(2)] in simp_all)
qed

lemma same_links_inherit: "same_links m (inherit m A lvl)"
  by (auto simp: same_links_def inherit_def option.map_comp o_def)

lemma same_links_lvl: "m a = Some c \<Longrightarrow> same_links m (m(a \<mapsto> c\<lparr>m_lvl := lvl\<rparr>))"
  by (simp add: same_links_def)

section \<open>Setting a level in any state\<close>

lemma returns_obind: "returns b r P \<Longrightarrow> (\<And>x. P x \<Longrightarrow> returns b (f x) Q) \<Longrightarrow> returns b (obind r f) Q"
proof (unfold returns_def [of b r], elim disjE exE conjE)
  fix x assume "r = Some (Inr x)" "P x" "\<And>x. P x \<Longrightarrow> returns b (f x) Q"
  then show "returns b (obind r f) Q" by simp
qed (simp add: returns_def)

lemma ensure_organized_ok:
  assumes "logs_ok L"
  shows "returns b (ensure_organized b L)
    (\<lambda>L'. logs_ok L' \<and> g_organized L' \<and> payload (contexts L') = payload (contexts L))"
proof (cases "g_organized L")
  case True
  then show ?thesis using assms by (simp add: ensure_organized_def returns_def)
next
  case False
  from assms obtain xs where xs: "linked (contexts L) (root_context # xs)" "dom (contexts L) = set (root_context # xs)"
    "rooted (parent_of (contexts L)) (set xs)" by (rule logs_okE) blast
  let ?m = "contexts L" and ?par = "parent_of (contexts L)"
  from xs(3) obtain rank where rp: "?par root_context = None"
    and rank: "\<And>x. x \<in> set xs \<Longrightarrow> \<exists>y \<in> set (root_context # xs). ?par x = Some y \<and> rank y < (rank x :: nat)"
    by (rule rootedE) auto
  have "returns b (obind (organize_from b (Some root_context) ?m) (\<lambda>m. Some (Inr (L\<lparr>contexts := m, g_organized := True\<rparr>))))
      (\<lambda>L'. logs_ok L' \<and> g_organized L' \<and> payload (contexts L') = payload ?m \<and> (\<exists>ys. linked (contexts L') ys))"
  proof (rule returns_obind [OF organize_from_returns [OF xs(1) rp rank]])
    fix m' assume "\<exists>ys. linked m' (root_context # ys) \<and> mset ys = mset xs \<and> forest ?par root_context ys \<and> payload m' = payload ?m"
    then obtain ys where ys: "linked m' (root_context # ys)" "mset ys = mset xs" "forest ?par root_context ys"
      "payload m' = payload ?m" by blast
    have set: "set ys = set xs" using ys(2) by (rule mset_eq_setD)
    have par: "parent_of m' = ?par" using ys(4) by (rule payload_parent)
    have "dom m' = dom ?m" using payload_dom_at [OF fun_cong [OF ys(4)]] by blast
    then have "logs_ok (L\<lparr>contexts := m', g_organized := True\<rparr>)"
      by (intro logs_okI [of _ ys]) (use ys(1,3) set par xs(2,3) in simp_all)
    then show "returns b (Some (Inr (L\<lparr>contexts := m', g_organized := True\<rparr>)))
        (\<lambda>L'. logs_ok L' \<and> g_organized L' \<and> payload (contexts L') = payload ?m \<and> (\<exists>ys. linked (contexts L') ys))"
      using ys(1,4) by (intro returnsI) auto
  qed
  then have "returns b (organize b L)
      (\<lambda>L'. logs_ok L' \<and> g_organized L' \<and> payload (contexts L') = payload ?m \<and> (\<exists>ys. linked (contexts L') ys))"
    using False by (simp add: organize_def)
  then have "returns b (obind (organize b L) (\<lambda>L'. obind (assert_valid_tree b (contexts L')) (\<lambda>_. Some (Inr L'))))
      (\<lambda>L'. logs_ok L' \<and> g_organized L' \<and> payload (contexts L') = payload ?m)"
    by (rule returns_obind) (auto simp: assert_valid_tree_linked intro: returnsI)
  then show ?thesis using False by (simp add: ensure_organized_def)
qed

lemma logs_ok_at:
  assumes "logs_ok L" and "contexts L this = Some c"
  obtains xs where "m_next c = hdp xs None" "dlink (contexts L) (Some this) xs None"
proof -
  from assms(1) obtain xs where xs: "linked (contexts L) (root_context # xs)" "dom (contexts L) = set (root_context # xs)"
    by (rule logs_okE) blast
  then have "this \<in> set (root_context # xs)" using assms(2) by blast
  then obtain A B where "root_context # xs = A @ this # B" by (meson split_list)
  then have "dlink (contexts L) None (A @ this # B) None" using xs(1) by (simp add: linked_def)
  then show thesis using assms(2) by (intro that [of B]) auto
qed

definition set_level_effect :: "nat \<Rightarrow> level \<Rightarrow> logs \<Rightarrow> logs \<Rightarrow> bool" where
  "set_level_effect this lvl L L' \<longleftrightarrow> logs_ok L' \<and> g_organized L' \<and> dom (contexts L') = dom (contexts L) \<and>
     (\<forall>x. same_name (contexts L) (contexts L') x \<and>
        lvl_of (contexts L') x = (if x = this then lvl else lvl_of (contexts L) x))"

lemma set_level_ok:
  assumes "logs_ok L" and "contexts L this = Some c"
  shows "returns b (set_level b this lvl L) (set_level_effect this lvl L)"
proof -
  let ?m = "(contexts L)(this \<mapsto> c\<lparr>m_lvl := lvl\<rparr>)"
  have ok: "logs_ok (L\<lparr>contexts := ?m\<rparr>)"
    by (rule logs_ok_same_links [OF assms(1)]) (simp_all add: same_links_lvl assms(2))
  let ?rest = "\<lambda>L1. obind (Some (get_ctx (contexts L1) (Some this))) (\<lambda>c1.
     obind (set_level_loop (contexts L1) this (m_next c1)
        (if m_lvl c1 \<noteq> level_unset then m_lvl c1 else m_inherited_level c1)) (\<lambda>m.
     Some (Inr (L1\<lparr>contexts := m\<rparr>))))"
  have "returns b (obind (ensure_organized b (L\<lparr>contexts := ?m\<rparr>)) ?rest) (set_level_effect this lvl L)"
  proof (rule returns_obind [OF ensure_organized_ok [OF ok]])
    fix L1 assume "logs_ok L1 \<and> g_organized L1 \<and> payload (contexts L1) = payload (contexts (L\<lparr>contexts := ?m\<rparr>))"
    then have L1: "logs_ok L1" "g_organized L1" "payload (contexts L1) = payload ?m" by simp_all
    have mt: "?m this = Some (c\<lparr>m_lvl := lvl\<rparr>)" by simp
    obtain c1 where c1: "contexts L1 this = Some c1"
      by (rule payload_fun [OF L1(3) [symmetric] mt])
    obtain xs where xs: "m_next c1 = hdp xs None" "dlink (contexts L1) (Some this) xs None"
      by (rule logs_ok_at [OF L1(1) c1])
    let ?l = "if m_lvl c1 \<noteq> level_unset then m_lvl c1 else m_inherited_level c1"
    from set_level_loop_ends [OF xs(2), of this ?l] xs(1) obtain A where
      run: "set_level_loop (contexts L1) this (m_next c1) ?l = Some (Inr (inherit (contexts L1) A ?l))" by auto
    let ?L = "L1\<lparr>contexts := inherit (contexts L1) A ?l\<rparr>"
    have "logs_ok ?L" by (rule logs_ok_same_links [OF L1(1)]) (simp_all add: same_links_inherit)
    moreover have "dom (contexts ?L) = dom (contexts L)"
    proof -
      have "dom (contexts L1) = dom ?m" using payload_dom_at [OF fun_cong [OF L1(3)]] by blast
      then show ?thesis using same_links_dom [OF same_links_inherit, of "contexts L1" A ?l] assms(2) by auto
    qed
    moreover have "same_name (contexts L) (contexts ?L) x" for x
    proof -
      have "same_name (contexts L) ?m x" using assms(2) by (auto simp: same_name_def)
      moreover have "same_name ?m (contexts L1) x" by (rule payload_same_name [OF fun_cong [OF L1(3)]])
      moreover have "same_name (contexts L1) (contexts ?L) x" using inherit_same_name by simp
      ultimately show ?thesis by (blast intro: same_name_trans)
    qed
    moreover have "lvl_of (contexts ?L) x = (if x = this then lvl else lvl_of (contexts L) x)" for x
      using payload_lvl_at [OF fun_cong [OF L1(3)], of x] by (simp add: lvl_of_def)
    ultimately have "set_level_effect this lvl L ?L" using L1(2) by (simp add: set_level_effect_def)
    then show "returns b (?rest L1) (set_level_effect this lvl L)"
      by (rule returnsI [rotated]) (use c1 run in simp)
  qed
  then show ?thesis using assms(2) by (simp add: set_level_def)
qed

section \<open>Construction and destruction in any state\<close>

lemma rooted_insert:
  assumes "rooted par X" and "parent \<in> insert root_context X" and "this \<notin> insert root_context X"
    and "par' this = Some parent" and "\<And>x. x \<noteq> this \<Longrightarrow> par' x = par x"
  shows "rooted par' (insert this X)"
proof -
  from assms(1) obtain rank where rp: "par root_context = None"
    and rank: "\<And>x. x \<in> X \<Longrightarrow> \<exists>y \<in> insert root_context X. par x = Some y \<and> rank y < (rank x :: nat)"
    by (rule rootedE) blast
  define rank' where "rank' = rank(this := Suc (rank parent))"
  have "\<exists>y \<in> insert root_context (insert this X). par' x = Some y \<and> rank' y < rank' x" if x: "x \<in> insert this X" for x
  proof (cases "x = this")
    case True
    then show ?thesis using assms(2-4) by (intro bexI [of _ parent]) (auto simp: rank'_def)
  next
    case False
    then obtain y where "y \<in> insert root_context X" "par x = Some y" "rank y < rank x"
      using rank [of x] x False by auto
    then show ?thesis using False assms(3,5) by (intro bexI [of _ y]) (auto simp: rank'_def)
  qed
  then show ?thesis by (rule rootedI [rotated]) (use rp assms(3,5) in auto)
qed

lemma rooted_remove:
  assumes "rooted par X" and "\<And>x. x \<in> X \<Longrightarrow> par x \<noteq> Some this" and "\<And>x. x \<noteq> this \<Longrightarrow> par' x = par x"
    and "this \<noteq> root_context"
  shows "rooted par' (X - {this})"
proof -
  from assms(1) obtain rank where rp: "par root_context = None"
    and rank: "\<And>x. x \<in> X \<Longrightarrow> \<exists>y \<in> insert root_context X. par x = Some y \<and> rank y < (rank x :: nat)"
    by (rule rootedE) blast
  have "\<exists>y \<in> insert root_context (X - {this}). par' x = Some y \<and> rank y < rank x" if x: "x \<in> X - {this}" for x
  proof -
    obtain y where y: "y \<in> insert root_context X" "par x = Some y" "rank y < rank x" using rank [of x] x by auto
    then have "y \<noteq> this" using assms(2) [of x] x by auto
    then show ?thesis using y x assms(3) by (intro bexI [of _ y]) auto
  qed
  then show ?thesis by (rule rootedI [rotated]) (use rp assms(3,4) in auto)
qed

lemma forest_remove:
  "forest par q xs \<Longrightarrow> (\<And>x. x \<in> set xs \<Longrightarrow> par x \<noteq> Some this) \<Longrightarrow> (\<And>x. x \<noteq> this \<Longrightarrow> par' x = par x) \<Longrightarrow>
    forest par' q [x \<leftarrow> xs. x \<noteq> this]"
proof (induction rule: forest.induct)
  case (forest_Nil p)
  then show ?case by (simp add: forest.forest_Nil)
next
  case (forest_Cons c q as bs)
  have as: "forest par' c [x \<leftarrow> as. x \<noteq> this]" and bs: "forest par' q [x \<leftarrow> bs. x \<noteq> this]"
    using forest_Cons by simp_all
  show ?case
  proof (cases "c = this")
    case True
    have "as = []" using forest_Cons.hyps(2) forest_Cons.prems(1) True by cases auto
    then show ?thesis using bs True by simp
  next
    case False
    then show ?thesis using forest.forest_Cons [OF _ as bs] forest_Cons.hyps(1) forest_Cons.prems(2) by simp
  qed
qed

lemma ctx_ctor_ok:
  assumes "logs_ok L" and "this \<notin> dom (contexts L)" and "parent \<in> dom (contexts L)"
  shows "\<exists>L'. ctx_ctor b parent name this L = Some (Inr L') \<and> logs_ok L' \<and> g_organized L' = g_organized L \<and>
    dom (contexts L') = insert this (dom (contexts L)) \<and> parent_of (contexts L') this = Some parent \<and>
    (\<forall>a. a \<noteq> this \<longrightarrow> payload (contexts L') a = payload (contexts L) a)"
proof -
  from assms(1) obtain xs where xs: "linked (contexts L) (root_context # xs)" "dom (contexts L) = set (root_context # xs)"
    "rooted (parent_of (contexts L)) (set xs)" "g_organized L \<Longrightarrow> forest (parent_of (contexts L)) root_context xs"
    by (rule logs_okE) blast
  have p: "parent \<in> set (root_context # xs)" and new: "this \<notin> set (root_context # xs)" using assms(2,3) xs(2) by simp_all
  let ?p = "if g_organized L then parent else root_context"
  from ctx_ctor_spec [OF xs(1) assms(2) p, of b name] obtain L' c where
    L': "ctx_ctor b parent name this L = Some (Inr L')" "g_organized L' = g_organized L"
      "linked (contexts L') (insert_behind ?p this (root_context # xs))"
      "contexts L' this = Some c" "m_parent c = Some parent"
      and pay: "\<And>a. a \<noteq> this \<Longrightarrow> payload (contexts L') a = payload (contexts L) a" by blast
  let ?ys = "if ?p = root_context then this # xs else insert_behind ?p this xs"
  have ins: "insert_behind ?p this (root_context # xs) = root_context # ?ys" by simp
  have set: "set ?ys = insert this (set xs)" using p by (auto simp: set_insert_behind)
  have par: "parent_of (contexts L') x = parent_of (contexts L) x" if "x \<noteq> this" for x
    using pay [OF that] by (rule payload_parent_at)
  have par_this: "parent_of (contexts L') this = Some parent" using L'(4,5) by (simp add: parent_of_def)
  have dom: "dom (contexts L') = insert this (dom (contexts L))"
  proof (rule set_eqI)
    fix a show "a \<in> dom (contexts L') \<longleftrightarrow> a \<in> insert this (dom (contexts L))"
      using payload_dom_at [OF pay, of a] L'(4) by (cases "a = this") auto
  qed
  have "logs_ok L'"
  proof (rule logs_okI)
    show "linked (contexts L') (root_context # ?ys)" using L'(3) unfolding ins .
    show "dom (contexts L') = set (root_context # ?ys)" using dom xs(2) set by auto
    show "rooted (parent_of (contexts L')) (set ?ys)"
      unfolding set by (rule rooted_insert [OF xs(3) _ _ par_this par]) (use p new in auto)
    assume "g_organized L'"
    then have org: "g_organized L" using L'(2) by simp
    show "forest (parent_of (contexts L')) root_context ?ys"
    proof -
      have d: "distinct (root_context # xs)" using xs(1) by (simp add: linked_def)
      have "forest (parent_of (contexts L')) root_context
          (if parent = root_context then this # xs else insert_behind parent this xs)"
      proof (rule forest_insert [of "parent_of (contexts L)", OF xs(4) [OF org] d p, of "parent_of (contexts L')" this, OF par_this])
        fix x assume "x \<in> set xs"
        then have "x \<noteq> this" using new by auto
        then show "parent_of (contexts L') x = parent_of (contexts L) x" by (rule par)
      qed
      then show ?thesis using org by (cases "parent = root_context") simp_all
    qed
  qed
  then show ?thesis using L'(1,2) dom par_this pay by blast
qed

lemma ctx_dtor_ok:
  assumes "logs_ok L" and "this \<in> dom (contexts L)" and "this \<noteq> root_context"
    and leaf: "\<And>x. parent_of (contexts L) x \<noteq> Some this"
  shows "\<exists>L'. ctx_dtor b this L = Some (Inr L') \<and> logs_ok L' \<and> g_organized L' = g_organized L \<and>
    dom (contexts L') = dom (contexts L) - {this} \<and>
    (\<forall>a. a \<noteq> this \<longrightarrow> payload (contexts L') a = payload (contexts L) a)"
proof -
  let ?m = "contexts L"
  from assms(1) obtain xs where xs: "linked ?m (root_context # xs)" "dom ?m = set (root_context # xs)"
    "rooted (parent_of ?m) (set xs)" "g_organized L \<Longrightarrow> forest (parent_of ?m) root_context xs"
    by (rule logs_okE) blast
  have "this \<in> set xs" using assms(2,3) xs(2) by simp
  then obtain A B where AB: "xs = A @ this # B" by (meson split_list)
  obtain X x where X: "root_context # A = X @ [x]" by (cases "root_context # A" rule: rev_cases) auto
  have eq: "root_context # A @ Y = X @ [x] @ Y" for Y using arg_cong [OF X, of "\<lambda>l. l @ Y"] by simp
  have dl: "dlink ?m None (root_context # xs) None" "distinct (root_context # xs)" using xs(1) by (simp_all add: linked_def)
  have clear: "(if b = Debug then clear_parents this (Some root_context) ?m else Some (Inr ?m)) = Some (Inr ?m)"
  proof -
    from clear_parents_dlink [OF dl, of this] obtain m1 where
      m1: "clear_parents this (Some root_context) ?m = Some (Inr m1)"
      "\<And>a. m1 a = (if a \<in> set (root_context # xs) then map_option (unparented this) (?m a) else ?m a)" by auto
    have "m1 a = ?m a" for a
      using m1(2) [of a] leaf [of a] by (cases "?m a") (auto simp: unparented_def parent_of_def)
    then show ?thesis using m1(1) by (simp add: ext)
  qed
  have "dlink ?m None (X @ [x] @ this # B) None" "distinct (X @ [x] @ this # B)"
    using dl AB eq [of "this # B"] by simp_all
  from unlink_dlink [OF this] obtain m' where
    m': "unlink ?m this = Inr m'" "dlink m' None (root_context # A @ B) None" "payload m' = payload ?m"
    unfolding eq by blast
  obtain c where c: "?m this = Some c" using assms(2) by blast
  have "dlink ?m None ((X @ [x]) @ this # B) None" using dl(1) AB eq [of "this # B"] by simp
  then obtain q where prv: "m_prev c = Some q" using c by auto
  let ?L = "L\<lparr>contexts := m'(this := None)\<rparr>" and ?ys = "A @ B"
  have run: "ctx_dtor b this L = Some (Inr ?L)" using c prv clear m'(1) by (simp add: ctx_dtor_def)
  have "[y \<leftarrow> A. y \<noteq> this] = A" "[y \<leftarrow> B. y \<noteq> this] = B" using dl(2) AB by (auto intro!: filter_True)
  then have ys: "?ys = [y \<leftarrow> xs. y \<noteq> this]" "set ?ys = set xs - {this}"
    using dl(2) AB by (auto simp: filter_id_conv)
  have par: "parent_of (contexts ?L) y = parent_of ?m y" if "y \<noteq> this" for y
    using that payload_parent [OF m'(3)] by (simp add: parent_of_def fun_eq_iff)
  have dom: "dom (contexts ?L) = dom ?m - {this}"
    using payload_dom_at [OF fun_cong [OF m'(3)]] by auto
  have "logs_ok ?L"
  proof (rule logs_okI)
    have "this \<notin> set (root_context # A @ B)" using dl(2) AB by auto
    then show "linked (contexts ?L) (root_context # ?ys)"
      using m'(2) dl(2) AB by (auto simp: linked_def)
    show "dom (contexts ?L) = set (root_context # ?ys)" using dom xs(2) ys(2) assms(3) by auto
    show "rooted (parent_of (contexts ?L)) (set ?ys)"
      unfolding ys(2) by (rule rooted_remove [OF xs(3) leaf par assms(3)])
    assume "g_organized ?L"
    then have "forest (parent_of ?m) root_context xs" using xs(4) by simp
    then show "forest (parent_of (contexts ?L)) root_context ?ys" unfolding ys(1) by (rule forest_remove [OF _ leaf par])
  qed
  moreover have "payload (contexts ?L) a = payload ?m a" if "a \<noteq> this" for a
    using that fun_cong [OF m'(3), of a] by (simp add: payload_def)
  ultimately show ?thesis using run dom by (intro exI [of _ ?L]) simp
qed

section \<open>Logging in any state\<close>

definition root_named :: "logs \<Rightarrow> bool" where
  "root_named L \<longleftrightarrow> map_option m_name (contexts L root_context) = Some []"

lemma rooted_upwards:
  assumes "rooted (parent_of m) X" and "x \<in> X" and "root_context \<notin> X"
  shows "\<exists>as. upwards m (x # as)"
proof -
  from assms(1) obtain rank where
    rank: "\<And>x. x \<in> X \<Longrightarrow> \<exists>y \<in> insert root_context X. parent_of m x = Some y \<and> rank y < (rank x :: nat)"
    by (rule rootedE) blast
  show ?thesis using assms(2)
  proof (induction "rank x" arbitrary: x rule: less_induct)
    case less
    from rank [OF less.prems] obtain y where
      y: "y = root_context \<or> y \<in> X" "parent_of m x = Some y" "rank y < rank x" by auto
    obtain c where c: "m x = Some c" "m_parent c = Some y"
      using y(2) by (auto simp: parent_of_def split: option.splits)
    have nr: "x \<noteq> root_context" using less.prems assms(3) by auto
    show ?case
    proof (cases "y = root_context")
      case True
      then show ?thesis using c nr by (intro exI [of _ "[]"]) simp
    next
      case False
      with y less.hyps obtain as where "upwards m (y # as)" by blast
      then show ?thesis using c nr by (intro exI [of _ "y # as"]) simp
    qed
  qed
qed

lemma logs_ok_upwards:
  assumes "logs_ok L" and "ctx \<in> dom (contexts L)"
  shows "ctx = root_context \<or> (\<exists>as. upwards (contexts L) (ctx # as))"
proof -
  from assms(1) obtain xs where xs: "linked (contexts L) (root_context # xs)"
    "dom (contexts L) = set (root_context # xs)" "rooted (parent_of (contexts L)) (set xs)" by (rule logs_okE) blast
  then have "ctx = root_context \<or> ctx \<in> set xs" "root_context \<notin> set xs" using assms(2) by (auto simp: linked_def)
  with xs(3) show ?thesis using rooted_upwards by blast
qed

lemma consumer_message:
  assumes "contexts L ctx = Some c" and "default_consumer b tty_output L ctx lvl msg = Some (Inr s)"
  shows "\<exists>s. upp_log (Some (default_consumer b tty_output)) L ctx lvl msg = Some (Inr s)"
  using assms by (cases "effective_level c \<le> lvl") (simp_all add: upp_log_def logs_at_def push_log_def)

text \<open>The root has no name, so no path is made.\<close>

lemma root_message:
  assumes "root_named L" and "ctx = root_context"
  shows "\<exists>s. upp_log (Some (default_consumer b tty_output)) L ctx lvl msg = Some (Inr s)"
proof -
  obtain c where c: "contexts L ctx = Some c" "m_name c = []" using assms by (auto simp: root_named_def)
  then have "\<exists>s. default_consumer b tty_output L ctx lvl msg = Some (Inr s)"
    using assms(2) by (simp add: default_consumer_def prefix_lookup Let_def)
  then show ?thesis using consumer_message [OF c(1)] by blast
qed

lemma upwards_message:
  assumes "upwards (contexts L) (ctx # as)"
  shows "\<exists>s. upp_log (Some (default_consumer b tty_output)) L ctx lvl msg = Some (Inr s)"
proof -
  obtain c where c: "contexts L ctx = Some c" "m_parent c \<noteq> None" using assms by (cases as) auto
  have "\<exists>s. default_consumer b tty_output L ctx lvl msg = Some (Inr s)"
    using c context_path_upwards [OF assms]
    by (cases "m_name c = []") (simp_all add: default_consumer_def prefix_lookup Let_def)
  then show ?thesis using consumer_message [OF c(1)] by blast
qed

section \<open>Runs\<close>

text \<open>The operations that change the state, on live objects.  A context is destroyed after the contexts
  that have it as their parent, as the scopes of a program do it: a context refers to its parent.\<close>

inductive logs_step :: "build \<Rightarrow> logs \<Rightarrow> logs \<Rightarrow> bool" for b where
  step_construct: "parent \<in> dom (contexts L) \<Longrightarrow> this \<notin> dom (contexts L) \<Longrightarrow>
     ctx_ctor b parent name this L = Some (Inr L') \<Longrightarrow> logs_step b L L'"
| step_destroy: "this \<in> dom (contexts L) \<Longrightarrow> this \<noteq> root_context \<Longrightarrow> (\<And>x. parent_of (contexts L) x \<noteq> Some this) \<Longrightarrow>
     ctx_dtor b this L = Some (Inr L') \<Longrightarrow> logs_step b L L'"
| step_level: "this \<in> dom (contexts L) \<Longrightarrow> set_level b this lvl L = Some (Inr L') \<Longrightarrow> logs_step b L L'"

inductive logs_reach :: "build \<Rightarrow> logs \<Rightarrow> bool" for b where
  logs_reach_init: "logs_reach b logs_init"
| logs_reach_step: "logs_reach b L \<Longrightarrow> logs_step b L L' \<Longrightarrow> logs_reach b L'"

lemma payload_root_named:
  "payload (contexts L') root_context = payload (contexts L) root_context \<Longrightarrow> root_named L \<Longrightarrow> root_named L'"
  using payload_name_at [of "contexts L'" root_context "contexts L"] by (simp add: root_named_def)

lemma logs_ok_root: "logs_ok L \<Longrightarrow> root_context \<in> dom (contexts L)"
  by (erule logs_okE) simp

lemma logs_step_ok: "logs_step b L L' \<Longrightarrow> logs_ok L \<Longrightarrow> root_named L \<Longrightarrow> logs_ok L' \<and> root_named L'"
proof (induction rule: logs_step.induct)
  case (step_construct parent L this name L')
  from ctx_ctor_ok [OF step_construct.prems(1) step_construct.hyps(2,1), of b name] step_construct.hyps(3)
  have ok: "logs_ok L'" and pay: "\<And>a. a \<noteq> this \<Longrightarrow> payload (contexts L') a = payload (contexts L) a" by auto
  have "root_context \<noteq> this" using logs_ok_root [OF step_construct.prems(1)] step_construct.hyps(2) by blast
  from payload_root_named [OF pay [OF this] step_construct.prems(2)] ok show ?case by blast
next
  case (step_destroy this L L')
  from ctx_dtor_ok [OF step_destroy.prems(1) step_destroy.hyps(1-3), of b] step_destroy.hyps(4)
  have ok: "logs_ok L'" and pay: "\<And>a. a \<noteq> this \<Longrightarrow> payload (contexts L') a = payload (contexts L) a" by auto
  have "root_context \<noteq> this" using step_destroy.hyps(2) by simp
  from payload_root_named [OF pay [OF this] step_destroy.prems(2)] ok show ?case by blast
next
  case (step_level this L lvl L')
  obtain c where "contexts L this = Some c" using step_level.hyps(1) by blast
  from set_level_ok [OF step_level.prems(1) this, of b lvl] step_level.hyps(2)
  have "set_level_effect this lvl L L'" by (simp add: returns_def)
  then have "logs_ok L'" "same_name (contexts L) (contexts L') root_context" by (simp_all add: set_level_effect_def)
  then show ?case using step_level.prems(2) by (auto simp: root_named_def same_name_def)
qed

lemma logs_reach_ok: "logs_reach b L \<Longrightarrow> logs_ok L \<and> root_named L"
proof (induction rule: logs_reach.induct)
  case logs_reach_init
  then show ?case using logs_ok_init by (simp add: root_named_def logs_init_def root_ctx_def)
next
  case (logs_reach_step L L')
  then show ?case using logs_step_ok by blast
qed

end
