(* ===== verification/Logs_Any_Order.thy ===== *)
theory Logs_Any_Order
  imports Logs_Runs
begin

text \<open>
  Runs in which contexts die in any order.  \<open>logs.hpp\<close> asks for children first but allows the opposite, since
  contexts of static storage come and go in an order of their own.  The list of contexts survives every order;
  what needs the parents, the first \<open>set_level\<close> and the path of a message, is safe as long as they are alive.
\<close>

section \<open>Runs\<close>

text \<open>The parents of all live contexts lead to the root.\<close>

definition in_tree :: "logs \<Rightarrow> bool" where
  "in_tree L \<longleftrightarrow> rooted (parent_of (contexts L)) (dom (contexts L) - {root_context})"

text \<open>A context of which another one is a child may be destroyed.  Levels are set once the contexts are organized,
  or while they form a tree: \<open>first_level_orphans\<close> below shows why.\<close>

inductive any_step :: "build \<Rightarrow> logs \<Rightarrow> logs \<Rightarrow> bool" for b where
  any_construct: "parent \<in> dom (contexts L) \<Longrightarrow> this \<notin> dom (contexts L) \<Longrightarrow>
     ctx_ctor b parent name this L = Some (Inr L') \<Longrightarrow> any_step b L L'"
| any_destroy: "this \<in> dom (contexts L) \<Longrightarrow> this \<noteq> root_context \<Longrightarrow> ctx_dtor b this L = Some (Inr L') \<Longrightarrow> any_step b L L'"
| any_level: "this \<in> dom (contexts L) \<Longrightarrow> g_organized L \<or> in_tree L \<Longrightarrow> set_level b this lvl L = Some (Inr L') \<Longrightarrow>
     any_step b L L'"

inductive any_reach :: "build \<Rightarrow> logs \<Rightarrow> bool" for b where
  any_reach_init: "any_reach b logs_init"
| any_reach_step: "any_reach b L \<Longrightarrow> any_step b L L' \<Longrightarrow> any_reach b L'"

section \<open>The list survives\<close>

definition listed :: "logs \<Rightarrow> nat list \<Rightarrow> bool" where
  "listed L xs \<longleftrightarrow> linked (contexts L) (root_context # xs) \<and> dom (contexts L) = set (root_context # xs)"

lemma logs_ok_listed: "logs_ok L \<Longrightarrow> (\<exists>xs. listed L xs) \<and> in_tree L"
  by (erule logs_okE) (auto simp: listed_def in_tree_def linked_def)

lemma in_tree_logs_ok:
  assumes "listed L xs" and "in_tree L" and "\<not> g_organized L"
  shows "logs_ok L"
proof (rule logs_okI)
  have "root_context \<notin> set xs" using assms(1) by (simp add: listed_def linked_def)
  then have "dom (contexts L) - {root_context} = set xs" using assms(1) by (auto simp: listed_def)
  then show "rooted (parent_of (contexts L)) (set xs)" using assms(2) by (simp add: in_tree_def)
qed (use assms(1,3) in \<open>simp_all add: listed_def\<close>)

lemma listed_ctor:
  assumes "listed L xs" and "this \<notin> dom (contexts L)" and "parent \<in> dom (contexts L)"
  shows "\<exists>L' ys. ctx_ctor b parent name this L = Some (Inr L') \<and> listed L' ys \<and>
    (\<forall>a. a \<noteq> this \<longrightarrow> payload (contexts L') a = payload (contexts L) a)"
proof -
  have lk: "linked (contexts L) (root_context # xs)" and dom: "dom (contexts L) = set (root_context # xs)"
    using assms(1) by (simp_all add: listed_def)
  let ?p = "if g_organized L then parent else root_context"
  have p: "parent \<in> set (root_context # xs)" using assms(3) dom by simp
  from ctx_ctor_spec [OF lk assms(2) p, of b name] obtain L' c where
    L': "ctx_ctor b parent name this L = Some (Inr L')" "linked (contexts L') (insert_behind ?p this (root_context # xs))"
      "contexts L' this = Some c" and pay: "\<And>a. a \<noteq> this \<Longrightarrow> payload (contexts L') a = payload (contexts L) a" by blast
  let ?ys = "if ?p = root_context then this # xs else insert_behind ?p this xs"
  have ins: "insert_behind ?p this (root_context # xs) = root_context # ?ys" by simp
  have set: "set ?ys = insert this (set xs)" using p by (auto simp: set_insert_behind)
  have "dom (contexts L') = set (root_context # ?ys)"
  proof (rule set_eqI)
    fix a show "a \<in> dom (contexts L') \<longleftrightarrow> a \<in> set (root_context # ?ys)"
      using payload_dom_at [OF pay, of a] L'(3) dom set by (cases "a = this") auto
  qed
  then have "listed L' ?ys" using L'(2) unfolding ins listed_def by blast
  then show ?thesis using L'(1) pay by blast
qed

lemma listed_dtor:
  assumes "listed L xs" and "this \<in> dom (contexts L)" and "this \<noteq> root_context"
  shows "\<exists>L' ys. ctx_dtor b this L = Some (Inr L') \<and> listed L' ys \<and> map_option m_name (contexts L' root_context) = map_option m_name (contexts L root_context)"
proof -
  have dom: "dom (contexts L) = set (root_context # xs)" using assms(1) by (simp add: listed_def)
  then have "this \<in> set xs" using assms(2,3) by simp
  then obtain A B where AB: "xs = A @ this # B" by (meson split_list)
  then have lk: "linked (contexts L) ((root_context # A) @ this # B)" using assms(1) by (simp add: listed_def)
  from ctx_dtor_full [OF lk assms(3), of b] obtain L' where
    L': "ctx_dtor b this L = Some (Inr L')" "linked (contexts L') (root_context # A @ B)"
      "dom (contexts L') = dom (contexts L) - {this}"
    and pay: "payload (contexts L') root_context = payload (orphaned b this (contexts L)) root_context" by auto
  have "this \<notin> set (root_context # A @ B)" using lk by (auto simp: linked_def)
  then have "listed L' (A @ B)" using L'(2,3) dom AB by (auto simp: listed_def)
  moreover have "map_option m_name (contexts L' root_context) = map_option m_name (contexts L root_context)"
    using payload_name_at [OF pay] by (simp add: option.map_comp o_def orphaned_fields)
  ultimately show ?thesis using L'(1) by blast
qed

lemma listed_set_level:
  assumes "listed L xs" and "g_organized L" and "contexts L this = Some c"
  shows "\<exists>L'. set_level b this lvl L = Some (Inr L') \<and> listed L' xs \<and> g_organized L' \<and>
    (\<forall>x. same_name (contexts L) (contexts L') x \<and>
       lvl_of (contexts L') x = (if x = this then lvl else lvl_of (contexts L) x))"
proof -
  let ?m = "(contexts L)(this \<mapsto> c\<lparr>m_lvl := lvl\<rparr>)"
  let ?l = "if lvl \<noteq> level_unset then lvl else m_inherited_level c"
  have lk: "linked (contexts L) (root_context # xs)" and dom: "dom (contexts L) = set (root_context # xs)"
    using assms(1) by (simp_all add: listed_def)
  have "this \<in> set (root_context # xs)" using assms(3) dom by blast
  then obtain A B where AB: "root_context # xs = A @ this # B" by (meson split_list)
  have sl: "same_links (contexts L) ?m" using assms(3) by (rule same_links_lvl)
  then have lk': "linked ?m (root_context # xs)" using lk by (rule same_links_linked)
  then have "dlink ?m None (A @ this # B) None" using AB by (simp add: linked_def)
  then have dl: "dlink ?m (Some this) B None" and nx: "m_next c = hdp B None" by auto
  from set_level_loop_ends [OF dl, of this ?l] obtain A' where
    loop: "set_level_loop ?m this (hdp B None) ?l = Some (Inr (inherit ?m A' ?l))" by blast
  let ?L = "L\<lparr>contexts := inherit ?m A' ?l\<rparr>"
  have "set_level b this lvl L = Some (Inr ?L)"
    using assms(2,3) nx loop by (cases "lvl = level_unset") (simp_all add: set_level_def ensure_organized_def)
  moreover have "listed ?L xs"
    using same_links_linked [OF same_links_inherit lk'] same_links_dom [OF same_links_inherit, of ?m A' ?l]
      same_links_dom [OF sl] dom by (simp add: listed_def)
  moreover have "same_name (contexts L) (contexts ?L) x" for x
  proof -
    have "same_name (contexts L) ?m x" using assms(3) by (auto simp: same_name_def)
    moreover have "same_name ?m (contexts ?L) x" using inherit_same_name by simp
    ultimately show ?thesis by (rule same_name_trans)
  qed
  moreover have "lvl_of (contexts ?L) x = (if x = this then lvl else lvl_of (contexts L) x)" for x
    by (simp add: lvl_of_def)
  ultimately show ?thesis using assms(2) by (intro exI [of _ ?L]) simp
qed

definition any_ok :: "logs \<Rightarrow> bool" where
  "any_ok L \<longleftrightarrow> (\<exists>xs. listed L xs) \<and> root_named L"

text \<open>What \<open>set_level\<close> leaves, in whichever order the contexts have been destroyed.\<close>

definition level_set :: "nat \<Rightarrow> level \<Rightarrow> logs \<Rightarrow> logs \<Rightarrow> bool" where
  "level_set this lvl L L' \<longleftrightarrow> any_ok L' \<and> g_organized L' \<and> dom (contexts L') = dom (contexts L) \<and>
     (\<forall>x. same_name (contexts L) (contexts L') x \<and>
        lvl_of (contexts L') x = (if x = this then lvl else lvl_of (contexts L) x))"

lemma same_name_root_named:
  "same_name (contexts L) (contexts L') root_context \<Longrightarrow> root_named L \<Longrightarrow> root_named L'"
  by (auto simp: root_named_def same_name_def)

lemma set_level_organized_any:
  assumes "any_ok L" and "this \<in> dom (contexts L)" and "g_organized L"
  shows "\<exists>L'. set_level b this lvl L = Some (Inr L') \<and> level_set this lvl L L'"
proof -
  obtain c where c: "contexts L this = Some c" using assms(2) by blast
  obtain xs where xs: "listed L xs" using assms(1) by (auto simp: any_ok_def)
  from listed_set_level [OF xs assms(3) c, of b lvl] obtain L' where
    L': "set_level b this lvl L = Some (Inr L')" "listed L' xs" "g_organized L'"
      "\<forall>x. same_name (contexts L) (contexts L') x \<and> lvl_of (contexts L') x = (if x = this then lvl else lvl_of (contexts L) x)"
    by blast
  have "dom (contexts L') = dom (contexts L)" using xs L'(2) by (simp add: listed_def)
  moreover have "any_ok L'" using L'(2,4) assms(1) same_name_root_named by (auto simp: any_ok_def)
  ultimately show ?thesis using L' by (auto simp: level_set_def)
qed

lemma set_level_any:
  assumes "any_ok L" and "this \<in> dom (contexts L)" and "g_organized L \<or> in_tree L"
  shows "returns b (set_level b this lvl L) (level_set this lvl L)"
proof (cases "g_organized L")
  case True
  then show ?thesis using set_level_organized_any [OF assms(1,2), of b lvl] by (auto intro: returnsI)
next
  case False
  obtain c where c: "contexts L this = Some c" using assms(2) by blast
  obtain xs where "listed L xs" using assms(1) by (auto simp: any_ok_def)
  with False assms(3) have "logs_ok L" by (blast intro: in_tree_logs_ok)
  from set_level_ok [OF this c, of b lvl] show ?thesis
  proof (rule returns_mono)
    fix L' assume "set_level_effect this lvl L L'"
    then have e: "logs_ok L'" "g_organized L'" "dom (contexts L') = dom (contexts L)"
      "\<forall>x. same_name (contexts L) (contexts L') x \<and> lvl_of (contexts L') x = (if x = this then lvl else lvl_of (contexts L) x)"
      by (simp_all add: set_level_effect_def)
    have "root_named L'" by (rule same_name_root_named [of L]) (use e(4) assms(1) in \<open>simp_all add: any_ok_def\<close>)
    then show "level_set this lvl L L'"
      using e logs_ok_listed [OF e(1)] by (simp add: level_set_def any_ok_def)
  qed
qed

lemma any_step_ok: "any_step b L L' \<Longrightarrow> any_ok L \<Longrightarrow> any_ok L'"
proof (induction rule: any_step.induct)
  case (any_construct parent L this name L')
  then obtain xs where xs: "listed L xs" "root_named L" by (auto simp: any_ok_def)
  from listed_ctor [OF xs(1) any_construct.hyps(2,1), of b name] any_construct.hyps(3) obtain ys where
    ys: "listed L' ys" and pay: "\<And>a. a \<noteq> this \<Longrightarrow> payload (contexts L') a = payload (contexts L) a" by auto
  have "root_context \<noteq> this" using xs(1) any_construct.hyps(2) by (auto simp: listed_def)
  from payload_root_named [OF pay [OF this] xs(2)] ys show ?case by (auto simp: any_ok_def)
next
  case (any_destroy this L L')
  then obtain xs where xs: "listed L xs" "root_named L" by (auto simp: any_ok_def)
  from listed_dtor [OF xs(1) any_destroy.hyps(1,2), of b] any_destroy.hyps(3) xs(2) show ?case
    by (auto simp: any_ok_def root_named_def)
next
  case (any_level this L lvl L')
  from set_level_any [OF any_level.prems any_level.hyps(1,2), of b lvl] any_level.hyps(3) show ?case
    by (simp add: returns_def level_set_def)
qed

lemma any_reach_ok: "any_reach b L \<Longrightarrow> any_ok L"
proof (induction rule: any_reach.induct)
  case any_reach_init
  have "logs_reach b logs_init" by (rule logs_reach_init)
  from logs_reach_ok [OF this] logs_ok_listed show ?case by (auto simp: any_ok_def)
next
  case (any_reach_step L L')
  then show ?case by (blast intro: any_step_ok)
qed



section \<open>Orphans before the first level\<close>

text \<open>A context 1 with a child 2, which has a child 3; 1 dies first.  The list is then root, 3, 2: \<open>organize\<close> moves
  3 behind 2, the last of the list, and follows the null successor it has just given it.\<close>

definition orphans_then_level :: "build \<Rightarrow> logs result option" where
  "orphans_then_level b =
     obind (ctx_ctor b root_context ''a'' 1 logs_init) (\<lambda>L.
     obind (ctx_ctor b 1 ''b'' 2 L) (\<lambda>L.
     obind (ctx_ctor b 2 ''c'' 3 L) (\<lambda>L.
     obind (ctx_dtor b 1 L) (set_level b root_context level_info))))"

lemma first_level_orphans:
  "effective_levels (orphans_then_level Release) [] = Some (Inl Undefined)"
  "effective_levels (orphans_then_level Debug) [] = Some (Inl Undefined)"
  by code_simp+

section \<open>Properties\<close>



text \<open>C9. Setting any level on any live context returns in a release build, also when descendants have levels of
  their own, in every state of a program that destroys its contexts in any order, provided that the contexts are organized
  or the parents of all live ones lead to the root, as they did when the program set its first level: afterwards the contexts are organized, the
  same ones are alive, their names are the same, and no explicit level has changed but the one that was set.\<close>

theorem set_level_returns:
  assumes "any_reach Release L" and "this \<in> dom (contexts L)" and "g_organized L \<or> in_tree L"
  shows "\<exists>L'. set_level Release this lvl L = Some (Inr L') \<and> any_reach Release L' \<and> g_organized L' \<and>
    dom (contexts L') = dom (contexts L) \<and>
    (\<forall>x. same_name (contexts L) (contexts L') x \<and>
       lvl_of (contexts L') x = (if x = this then lvl else lvl_of (contexts L) x))"
proof -
  from returns_Release [OF set_level_any [OF any_reach_ok [OF assms(1)] assms(2,3), of Release lvl]] obtain L' where
    L': "set_level Release this lvl L = Some (Inr L')" "level_set this lvl L L'" by blast
  have "any_reach Release L'" by (rule any_reach_step [OF assms(1) any_level [OF assms(2,3) L'(1)]])
  then show ?thesis using L' by (auto simp: level_set_def)
qed

theorem set_level_returns_witness:
  "\<exists>L. set_level Release root_context level_info logs_init = Some (Inr L) \<and> any_reach Release L \<and>
    g_organized L \<and> lvl_of (contexts L) root_context = level_info"
proof -
  have "root_context \<in> dom (contexts logs_init)" by (simp add: logs_init_def)
  moreover have "in_tree logs_init" using logs_ok_listed [OF logs_ok_init] by blast
  ultimately show ?thesis using set_level_returns [OF any_reach_init, of root_context level_info] by auto
qed

end
