(* ===== verification/Guard.thy ===== *)
theory Guard
  imports Prelude
begin

text \<open>
  \<open>core/include/upp/guard.hpp\<close> and \<open>nop_mutex.hpp\<close>: a value with an integrated mutex.  The mutex
  is a template parameter, here a record of its operations; \<open>std::mutex\<close> and \<open>nop_mutex\<close> interpret
  the interface.  Guards and the lock objects of all threads live in a store; the step relation
  interleaves the operations of the threads, each on lock objects of its own.
\<close>

type_synonym tid = nat

section \<open>Mutexes\<close>

text \<open>\<open>lock\<close> gives \<open>None\<close> when the thread blocks.\<close>

(* core/include/upp/guard.hpp 13-17: mutexlike *)
record 'm mutex_ops =
  mx_init :: 'm
  mx_lock :: "tid \<Rightarrow> 'm \<Rightarrow> 'm result option"
  mx_unlock :: "tid \<Rightarrow> 'm \<Rightarrow> 'm result"

text \<open>\<open>std::mutex\<close>: the holder, if any.  Locking it twice from one thread and unlocking it from another
  is undefined.\<close>

definition std_mutex :: "tid option mutex_ops" where
  "std_mutex =
     \<lparr>mx_init = None,
      mx_lock = (\<lambda>t m. case m of None \<Rightarrow> Some (Inr (Some t))
        | Some u \<Rightarrow> if u = t then Some (Inl Undefined) else None),
      mx_unlock = (\<lambda>t m. if m = Some t then Inr None else Inl Undefined)\<rparr>"

(* core/include/upp/nop_mutex.hpp 8-21: nop_mutex *)
definition nop_mutex :: "unit mutex_ops" where
  "nop_mutex = \<lparr>mx_init = (), mx_lock = (\<lambda>t m. Some (Inr ())), mx_unlock = (\<lambda>t m. Inr ())\<rparr>"

section \<open>Guards and locks\<close>

(* core/include/upp/guard.hpp 25-28: basic_guard *)
record ('m, 'v) basic_guard =
  g_mut :: 'm
  g_v :: 'v

text \<open>A lock object is the pointer to the guard it holds, null once it has been moved from.\<close>

record ('m, 'v) guards =
  guard_at :: "nat \<Rightarrow> ('m, 'v) basic_guard option"
  lock_at :: "nat \<Rightarrow> ptr option"

(* core/include/upp/guard.hpp 69-82: basic_guard(T) *)
definition guard_ctor :: "'m mutex_ops \<Rightarrow> 'v \<Rightarrow> ('m, 'v) basic_guard" where
  "guard_ctor M t = \<lparr>g_mut = mx_init M, g_v = t\<rparr>"

definition on_guard ::
    "nat \<Rightarrow> ('m, 'v) guards \<Rightarrow> (('m, 'v) basic_guard \<Rightarrow> ('m, 'v) basic_guard result) \<Rightarrow> ('m, 'v) guards result" where
  "on_guard g s f = (case guard_at s g of None \<Rightarrow> Inl Undefined
    | Some gd \<Rightarrow> rbind (f gd) (\<lambda>gd'. Inr (s\<lparr>guard_at := (guard_at s)(g \<mapsto> gd')\<rparr>)))"

(* core/include/upp/guard.hpp 33-35: raii_lock(basic_guard* ) *)
definition raii_ctor :: "'m mutex_ops \<Rightarrow> tid \<Rightarrow> nat \<Rightarrow> nat \<Rightarrow> ('m, 'v) guards \<Rightarrow> ('m, 'v) guards result option" where
  "raii_ctor M t a g s = (case guard_at s g of None \<Rightarrow> Some (Inl Undefined)
    | Some gd \<Rightarrow> obind (mx_lock M t (g_mut gd)) (\<lambda>m.
        Some (Inr (s\<lparr>guard_at := (guard_at s)(g \<mapsto> gd\<lparr>g_mut := m\<rparr>), lock_at := (lock_at s)(a \<mapsto> Some g)\<rparr>))))"

(* core/include/upp/guard.hpp 41-42: raii_lock(raii_lock&&) *)
definition raii_move_ctor :: "nat \<Rightarrow> nat \<Rightarrow> ('m, 'v) guards \<Rightarrow> ('m, 'v) guards result" where
  "raii_move_ctor a b s = (case lock_at s b of None \<Rightarrow> Inl Undefined
    | Some p \<Rightarrow> Inr (s\<lparr>lock_at := (lock_at s)(b \<mapsto> None, a \<mapsto> p)\<rparr>))"

(* core/include/upp/guard.hpp 50-52: ~raii_lock *)
definition raii_dtor :: "'m mutex_ops \<Rightarrow> tid \<Rightarrow> nat \<Rightarrow> ('m, 'v) guards \<Rightarrow> ('m, 'v) guards result" where
  "raii_dtor M t a s = (case lock_at s a of None \<Rightarrow> Inl Undefined
    | Some p \<Rightarrow> rbind (case p of None \<Rightarrow> Inr s
        | Some g \<Rightarrow> on_guard g s (\<lambda>gd. rbind (mx_unlock M t (g_mut gd)) (\<lambda>m. Inr (gd\<lparr>g_mut := m\<rparr>))))
        (\<lambda>s. Inr (s\<lparr>lock_at := (lock_at s)(a := None)\<rparr>)))"

text \<open>Assigning a lock to itself reads the object it has just destroyed.\<close>

(* core/include/upp/guard.hpp 44-48: operator= *)
definition raii_move_assign :: "'m mutex_ops \<Rightarrow> tid \<Rightarrow> nat \<Rightarrow> nat \<Rightarrow> ('m, 'v) guards \<Rightarrow> ('m, 'v) guards result" where
  "raii_move_assign M t a b s = rbind (raii_dtor M t a s) (raii_move_ctor a b)"

definition raii_parent :: "build \<Rightarrow> nat \<Rightarrow> ('m, 'v) guards \<Rightarrow> nat result" where
  "raii_parent bd a s = (case lock_at s a of None \<Rightarrow> Inl Undefined
    | Some p \<Rightarrow> rbind (cassert bd (p \<noteq> None)) (\<lambda>_. case p of None \<Rightarrow> Inl Undefined | Some g \<Rightarrow> Inr g))"

(* core/include/upp/guard.hpp 54-58: operator* *)
definition raii_deref :: "build \<Rightarrow> nat \<Rightarrow> ('m, 'v) guards \<Rightarrow> 'v result" where
  "raii_deref bd a s = rbind (raii_parent bd a s) (\<lambda>g.
     case guard_at s g of None \<Rightarrow> Inl Undefined | Some gd \<Rightarrow> Inr (g_v gd))"

text \<open>Changing the value through the pointer.\<close>

(* core/include/upp/guard.hpp 59-63: operator-> *)
definition raii_modify :: "build \<Rightarrow> nat \<Rightarrow> ('v \<Rightarrow> 'v) \<Rightarrow> ('m, 'v) guards \<Rightarrow> ('m, 'v) guards result" where
  "raii_modify bd a f s = rbind (raii_parent bd a s) (\<lambda>g. on_guard g s (\<lambda>gd. Inr (gd\<lparr>g_v := f (g_v gd)\<rparr>)))"

(* core/include/upp/guard.hpp 84-84: lock *)
definition guard_lock :: "'m mutex_ops \<Rightarrow> tid \<Rightarrow> nat \<Rightarrow> nat \<Rightarrow> ('m, 'v) guards \<Rightarrow> ('m, 'v) guards result option" where
  "guard_lock M t a g s = raii_ctor M t a g s"

section \<open>Threads\<close>

text \<open>A lock object belongs to the thread on whose stack its address lies.  Each step is one operation of
  the thread \<open>thr a\<close>; access through \<open>mutex()\<close> is not part of it.\<close>

inductive guard_step :: "'m mutex_ops \<Rightarrow> build \<Rightarrow> (nat \<Rightarrow> tid) \<Rightarrow> ('m, 'v) guards \<Rightarrow> ('m, 'v) guards \<Rightarrow> bool"
  for M bd thr where
  step_lock: "lock_at s a = None \<Longrightarrow> guard_lock M (thr a) a g s = Some (Inr s') \<Longrightarrow> guard_step M bd thr s s'"
| step_move: "lock_at s a = None \<Longrightarrow> thr a = thr b \<Longrightarrow> raii_move_ctor a b s = Inr s' \<Longrightarrow> guard_step M bd thr s s'"
| step_assign: "thr a = thr b \<Longrightarrow> raii_move_assign M (thr a) a b s = Inr s' \<Longrightarrow> guard_step M bd thr s s'"
| step_unlock: "raii_dtor M (thr a) a s = Inr s' \<Longrightarrow> guard_step M bd thr s s'"
| step_modify: "raii_modify bd a f s = Inr s' \<Longrightarrow> guard_step M bd thr s s'"

inductive guard_reach :: "'m mutex_ops \<Rightarrow> build \<Rightarrow> (nat \<Rightarrow> tid) \<Rightarrow> ('m, 'v) guards \<Rightarrow> ('m, 'v) guards \<Rightarrow> bool"
  for M bd thr s where
  reach_init: "guard_reach M bd thr s s"
| reach_step: "guard_reach M bd thr s u \<Longrightarrow> guard_step M bd thr u v \<Longrightarrow> guard_reach M bd thr s v"

section \<open>The interface of a mutex\<close>

text \<open>What the concept asks for: \<open>unlock\<close> takes back what \<open>lock\<close> did.\<close>

locale mutexlike =
  fixes M :: "'m mutex_ops"
  assumes lock_unlock: "mx_lock M t m = Some (Inr m') \<Longrightarrow> mx_unlock M t m' = Inr m"
begin

lemma scoped_lock:
  assumes "lock_at s a = None" and "guard_lock M t a g s = Some (Inr s')"
  shows "raii_dtor M t a s' = Inr s"
  using assms
  by (cases s; auto simp: guard_lock_def raii_ctor_def raii_dtor_def on_guard_def result_simps lock_unlock fun_upd_idem
      split: option.splits)

end

text \<open>A mutex that excludes: its state tells the holder, and only a free one can be locked.  The
  invariant relates the lock objects to the holders of the guards' mutexes.\<close>

definition owns :: "(nat \<Rightarrow> tid) \<Rightarrow> (nat \<Rightarrow> ptr option) \<Rightarrow> (nat \<Rightarrow> tid option) \<Rightarrow> bool" where
  "owns thr L H \<longleftrightarrow>
     (\<forall>a b g. L a = Some (Some g) \<and> L b = Some (Some g) \<longrightarrow> a = b) \<and>
     (\<forall>a g. L a = Some (Some g) \<longrightarrow> H g = Some (thr a)) \<and>
     (\<forall>g t. H g = Some t \<longrightarrow> (\<exists>a. L a = Some (Some g)))"

lemma owns_unique: "owns thr L H \<Longrightarrow> L a = Some (Some g) \<Longrightarrow> L b = Some (Some g) \<Longrightarrow> a = b"
  unfolding owns_def by blast

lemma owns_holder: "owns thr L H \<Longrightarrow> L a = Some (Some g) \<Longrightarrow> H g = Some (thr a)"
  unfolding owns_def by blast

lemma owns_lock_of: "owns thr L H \<Longrightarrow> H g = Some t \<Longrightarrow> \<exists>a. L a = Some (Some g)"
  unfolding owns_def by blast

lemma ownsI:
  assumes "\<And>a b g. L a = Some (Some g) \<Longrightarrow> L b = Some (Some g) \<Longrightarrow> a = b"
    and "\<And>a g. L a = Some (Some g) \<Longrightarrow> H g = Some (thr a)"
    and "\<And>g t. H g = Some t \<Longrightarrow> \<exists>a. L a = Some (Some g)"
  shows "owns thr L H"
  unfolding owns_def using assms by blast

lemma owns_lock:
  assumes o: "owns thr L H" and "L a = None" and "H g = None"
  shows "owns thr (L(a \<mapsto> Some g)) (H(g \<mapsto> thr a))"
proof (rule ownsI)
  have n: "L b \<noteq> Some (Some g)" for b using owns_holder [OF o] assms(3) by fastforce
  fix b c g'
  assume "(L(a \<mapsto> Some g)) b = Some (Some g')" and "(L(a \<mapsto> Some g)) c = Some (Some g')"
  then show "b = c" using owns_unique [OF o] n by (auto split: if_splits)
next
  have n: "L b \<noteq> Some (Some g)" for b using owns_holder [OF o] assms(3) by fastforce
  fix b g' assume "(L(a \<mapsto> Some g)) b = Some (Some g')"
  then show "(H(g \<mapsto> thr a)) g' = Some (thr b)" using owns_holder [OF o] n by (auto split: if_splits)
next
  fix g' t assume h: "(H(g \<mapsto> thr a)) g' = Some t"
  show "\<exists>b. (L(a \<mapsto> Some g)) b = Some (Some g')"
  proof (cases "g' = g")
    case True
    then show ?thesis by auto
  next
    case False
    then obtain b where "L b = Some (Some g')" using h owns_lock_of [OF o] by auto
    then show ?thesis using assms(2) by (intro exI [of _ b]) auto
  qed
qed

lemma owns_move:
  assumes o: "owns thr L H" and "L a = None" and "L b = Some p" and "thr a = thr b"
  shows "owns thr (L(b \<mapsto> None, a \<mapsto> p)) H"
proof (rule ownsI)
  fix c d g
  assume "(L(b \<mapsto> None, a \<mapsto> p)) c = Some (Some g)" and "(L(b \<mapsto> None, a \<mapsto> p)) d = Some (Some g)"
  then show "c = d" using owns_unique [OF o] assms(3) by (auto split: if_splits)
next
  fix c g assume "(L(b \<mapsto> None, a \<mapsto> p)) c = Some (Some g)"
  then show "H g = Some (thr c)" using owns_holder [OF o] assms(3,4) by (auto split: if_splits)
next
  fix g t assume "H g = Some t"
  then obtain c where c: "L c = Some (Some g)" using owns_lock_of [OF o] by auto
  show "\<exists>c. (L(b \<mapsto> None, a \<mapsto> p)) c = Some (Some g)"
  proof (cases "c = b")
    case True
    then show ?thesis using c assms(3) by (intro exI [of _ a]) simp
  next
    case False
    then show ?thesis using c assms(2) by (intro exI [of _ c]) auto
  qed
qed

lemma owns_drop_null:
  assumes o: "owns thr L H" and "L a = Some None"
  shows "owns thr (L(a := None)) H"
proof (rule ownsI)
  fix g t assume "H g = Some t"
  then obtain c where c: "L c = Some (Some g)" using owns_lock_of [OF o] by auto
  then show "\<exists>c. (L(a := None)) c = Some (Some g)" using assms(2) by (intro exI [of _ c]) auto
qed (use owns_unique [OF o] owns_holder [OF o] in \<open>auto split: if_splits\<close>)

lemma owns_unlock:
  assumes o: "owns thr L H" and "L a = Some (Some g)"
  shows "owns thr (L(a := None)) (H(g := None))"
proof (rule ownsI)
  fix b g' assume "(L(a := None)) b = Some (Some g')"
  then show "(H(g := None)) g' = Some (thr b)"
    using owns_unique [OF o assms(2)] owns_holder [OF o] by (auto split: if_splits)
next
  fix g' t assume h: "(H(g := None)) g' = Some t"
  then obtain c where c: "L c = Some (Some g')" using owns_lock_of [OF o] by (auto split: if_splits)
  then show "\<exists>c. (L(a := None)) c = Some (Some g')" using assms(2) h by (intro exI [of _ c]) auto
qed (use owns_unique [OF o] in \<open>auto split: if_splits\<close>)

locale exclusive_mutex = mutexlike M for M :: "'m mutex_ops" +
  fixes holder :: "'m \<Rightarrow> tid option"
  assumes lock_holder: "mx_lock M t m = Some (Inr m') \<Longrightarrow> holder m = None \<and> holder m' = Some t"
    and unlock_holder: "holder m = Some t \<Longrightarrow> \<exists>m'. mx_unlock M t m = Inr m' \<and> holder m' = None"
    and init_holder: "holder (mx_init M) = None"
begin

definition hold :: "('m, 'v) guards \<Rightarrow> nat \<Rightarrow> tid option" where
  "hold s g = (case guard_at s g of None \<Rightarrow> None | Some gd \<Rightarrow> holder (g_mut gd))"

lemma hold_update [simp]:
  "hold (s\<lparr>guard_at := (guard_at s)(g \<mapsto> gd)\<rparr>) = (hold s)(g := holder (g_mut gd))"
  "hold (s\<lparr>lock_at := L\<rparr>) = hold s"
  by (auto simp: hold_def)

lemma hold_lock:
  assumes "guard_lock M t a g s = Some (Inr s')"
  shows "hold s g = None \<and> hold s' = (hold s)(g \<mapsto> t) \<and> lock_at s' = (lock_at s)(a \<mapsto> Some g)"
  using assms
  by (auto simp: guard_lock_def raii_ctor_def result_simps hold_def dest!: lock_holder split: option.splits)

lemma hold_dtor:
  assumes "owns thr (lock_at s) (hold s)" and "lock_at s a = Some p"
  shows "\<exists>s'. raii_dtor M (thr a) a s = Inr s' \<and> lock_at s' = (lock_at s)(a := None) \<and>
    hold s' = (case p of None \<Rightarrow> hold s | Some g \<Rightarrow> (hold s)(g := None))"
proof (cases p)
  case None
  then show ?thesis using assms(2) by (simp add: raii_dtor_def)
next
  case (Some g)
  obtain gd where gd: "guard_at s g = Some gd" "holder (g_mut gd) = Some (thr a)"
    using owns_holder [OF assms(1), of a g] assms(2) Some by (auto simp: hold_def split: option.splits)
  from unlock_holder [OF gd(2)] show ?thesis
    using assms(2) Some gd(1) by (auto simp: raii_dtor_def on_guard_def)
qed

lemma owns_dtor:
  assumes "owns thr (lock_at s) (hold s)" and "raii_dtor M (thr a) a s = Inr s'"
  shows "owns thr (lock_at s') (hold s') \<and> lock_at s' = (lock_at s)(a := None)"
proof -
  obtain p where p: "lock_at s a = Some p" using assms(2) by (auto simp: raii_dtor_def split: option.splits)
  show ?thesis
    using hold_dtor [OF assms(1) p] assms(2) owns_drop_null [OF assms(1)] owns_unlock [OF assms(1)] p
    by (cases p) auto
qed

lemma owns_move_ctor:
  assumes "owns thr (lock_at s) (hold s)" and "lock_at s a = None" and "thr a = thr b"
    and "raii_move_ctor a b s = Inr s'"
  shows "owns thr (lock_at s') (hold s')"
proof -
  from assms(4) obtain p where p: "lock_at s b = Some p"
    and s': "lock_at s' = (lock_at s)(b \<mapsto> None, a \<mapsto> p)" "hold s' = hold s"
    by (auto simp: raii_move_ctor_def split: option.splits)
  show ?thesis unfolding s' by (rule owns_move [OF assms(1,2) p assms(3)])
qed

lemma owns_step:
  "guard_step M bd thr s s' \<Longrightarrow> owns thr (lock_at s) (hold s) \<Longrightarrow> owns thr (lock_at s') (hold s')"
proof (induction rule: guard_step.induct)
  case (step_lock s a g s')
  then show ?case using hold_lock [OF step_lock.hyps(2)] owns_lock [of thr "lock_at s" "hold s" a g] by metis
next
  case (step_move s a b s')
  then show ?case using owns_move_ctor by blast
next
  case (step_assign a b s s')
  then obtain u where u: "raii_dtor M (thr a) a s = Inr u" "raii_move_ctor a b u = Inr s'"
    by (auto simp: raii_move_assign_def result_simps)
  have "owns thr (lock_at u) (hold u)" "lock_at u a = None"
    using owns_dtor [OF step_assign.prems u(1)] by auto
  then show ?case using owns_move_ctor [OF _ _ step_assign.hyps(1) u(2)] by blast
next
  case (step_unlock a s s')
  then show ?case using owns_dtor by blast
next
  case (step_modify a f s s')
  then obtain g gd where "guard_at s g = Some gd" "s' = s\<lparr>guard_at := (guard_at s)(g \<mapsto> gd\<lparr>g_v := f (g_v gd)\<rparr>)\<rparr>"
    by (auto simp: raii_modify_def on_guard_def result_simps split: option.splits)
  moreover from this have "hold s g = holder (g_mut gd)" by (simp add: hold_def)
  ultimately show ?case using step_modify.prems by (simp add: fun_upd_idem)
qed

lemma owns_reach:
  "guard_reach M bd thr s u \<Longrightarrow> owns thr (lock_at s) (hold s) \<Longrightarrow> owns thr (lock_at u) (hold u)"
  by (induction rule: guard_reach.induct) (auto intro: owns_step)

lemma owns_start:
  "lock_at s = Map.empty \<Longrightarrow> (\<And>g gd. guard_at s g = Some gd \<Longrightarrow> g_mut gd = mx_init M) \<Longrightarrow>
    owns thr (lock_at s) (hold s)"
  by (auto simp: owns_def hold_def init_holder split: option.splits)

lemma exclusion:
  assumes "guard_reach M bd thr s u" and "lock_at s = Map.empty"
    and "\<And>g gd. guard_at s g = Some gd \<Longrightarrow> g_mut gd = mx_init M"
    and "lock_at u a = Some (Some g)"
  shows "(\<forall>b. lock_at u b = Some (Some g) \<longrightarrow> b = a) \<and> hold u g = Some (thr a) \<and>
    (\<exists>v. raii_dtor M (thr a) a u = Inr v \<and> hold v g = None)"
proof -
  have o: "owns thr (lock_at u) (hold u)"
    by (rule owns_reach [OF assms(1) owns_start [OF assms(2,3)]])
  then show ?thesis using owns_unique [OF o] owns_holder [OF o] hold_dtor [OF o assms(4)] assms(4) by auto
qed

end

interpretation nop: mutexlike nop_mutex
  by unfold_locales (simp add: nop_mutex_def)

interpretation std: exclusive_mutex std_mutex "\<lambda>m. m"
  by unfold_locales (auto simp: std_mutex_def split: option.splits if_splits)

section \<open>Properties\<close>

text \<open>C16. However the threads interleave their operations on guards with a \<open>std::mutex\<close>, at most one lock
  object holds a guard at a time, the mutex belongs to the thread of that object, and destroying the
  object releases it.\<close>

theorem guard_excludes:
  assumes "guard_reach std_mutex bd thr s u" and "lock_at s = Map.empty"
    and "\<forall>g gd. guard_at s g = Some gd \<longrightarrow> g_mut gd = None"
    and "lock_at u a = Some (Some g)"
  shows "(\<forall>b. lock_at u b = Some (Some g) \<longrightarrow> b = a) \<and>
    (\<exists>gd. guard_at u g = Some gd \<and> g_mut gd = Some (thr a)) \<and>
    (\<exists>v gd. raii_dtor std_mutex (thr a) a u = Inr v \<and> guard_at v g = Some gd \<and> g_mut gd = None)"
proof -
  have e: "(\<forall>b. lock_at u b = Some (Some g) \<longrightarrow> b = a) \<and> std.hold u g = Some (thr a) \<and>
    (\<exists>v. raii_dtor std_mutex (thr a) a u = Inr v \<and> std.hold v g = None)"
    by (rule std.exclusion [OF assms(1,2) _ assms(4)]) (use assms(3) in \<open>auto simp: std_mutex_def\<close>)
  then obtain v gd where v: "raii_dtor std_mutex (thr a) a u = Inr v" "std.hold v g = None"
    and gd: "guard_at u g = Some gd" "g_mut gd = Some (thr a)"
    by (auto simp: std.hold_def split: option.splits)
  have "guard_at v g \<noteq> None"
    using v(1) assms(4) gd(1) by (auto simp: raii_dtor_def on_guard_def result_simps)
  then have "\<exists>gd. guard_at v g = Some gd \<and> g_mut gd = None"
    using v(2) by (auto simp: std.hold_def)
  then show ?thesis using e v(1) gd by blast
qed

theorem guard_excludes_witness:
  "\<exists>u. guard_reach std_mutex Debug (\<lambda>a. a) \<lparr>guard_at = [7 \<mapsto> guard_ctor std_mutex (0::int)], lock_at = Map.empty\<rparr> u \<and>
    lock_at u 1 = Some (Some 7) \<and> (\<forall>b. lock_at u b = Some (Some 7) \<longrightarrow> b = 1)"
proof -
  let ?s = "\<lparr>guard_at = [7 \<mapsto> guard_ctor std_mutex (0::int)], lock_at = Map.empty\<rparr>"
  let ?u = "\<lparr>guard_at = [7 \<mapsto> \<lparr>g_mut = Some (1::nat), g_v = 0::int\<rparr>], lock_at = [1 \<mapsto> Some 7]\<rparr>"
  have "guard_lock std_mutex 1 1 7 ?s = Some (Inr ?u)"
    by (simp add: guard_lock_def raii_ctor_def guard_ctor_def std_mutex_def)
  then have "guard_step std_mutex Debug (\<lambda>a. a) ?s ?u" by (intro step_lock [of _ 1]) simp_all
  then have r: "guard_reach std_mutex Debug (\<lambda>a. a) ?s ?u" by (rule reach_step [OF reach_init])
  have "\<forall>b. lock_at ?u b = Some (Some 7) \<longrightarrow> b = 1"
  proof -
    have "lock_at ?s = Map.empty" "\<forall>g gd. guard_at ?s g = Some gd \<longrightarrow> g_mut gd = None"
      "lock_at ?u 1 = Some (Some 7)" by (simp_all add: guard_ctor_def std_mutex_def)
    from guard_excludes [OF r this] show ?thesis by (rule conjunct1)
  qed
  moreover have "lock_at ?u 1 = Some (Some 7)" by simp
  ultimately show ?thesis using r by blast
qed

text \<open>C17. A thread that waits for a guard with a \<open>std::mutex\<close> can always be let in: whatever the threads
  have done, locking either succeeds, or is undefined because the thread holds the guard itself, or
  blocks because another thread's lock object holds it; that object can be destroyed, and then the
  waiting thread gets the guard.\<close>

theorem guard_waiter_proceeds:
  assumes "guard_reach std_mutex bd thr s u" and "lock_at s = Map.empty"
    and "\<forall>g gd. guard_at s g = Some gd \<longrightarrow> g_mut gd = None"
    and "lock_at u c = None" and "guard_at u g \<noteq> None"
  shows "case guard_lock std_mutex (thr c) c g u of
      Some (Inr v) \<Rightarrow> lock_at v c = Some (Some g)
    | Some (Inl e) \<Rightarrow> e = Undefined \<and> (\<exists>a. lock_at u a = Some (Some g) \<and> thr a = thr c)
    | None \<Rightarrow> (\<exists>a v w. lock_at u a = Some (Some g) \<and> thr a \<noteq> thr c \<and>
        raii_dtor std_mutex (thr a) a u = Inr v \<and> guard_step std_mutex bd thr u v \<and>
        guard_lock std_mutex (thr c) c g v = Some (Inr w) \<and> lock_at w c = Some (Some g))"
proof -
  have o: "owns thr (lock_at u) (std.hold u)"
    by (rule std.owns_reach [OF assms(1)], rule std.owns_start [OF assms(2)])
      (use assms(3) in \<open>auto simp: std_mutex_def\<close>)
  obtain gd where gd: "guard_at u g = Some gd" using assms(5) by blast
  show ?thesis
  proof (cases "g_mut gd")
    case None
    then show ?thesis using gd by (simp add: guard_lock_def raii_ctor_def std_mutex_def)
  next
    case (Some t)
    then have h: "std.hold u g = Some t" using gd by (simp add: std.hold_def)
    then obtain a where a: "lock_at u a = Some (Some g)" using owns_lock_of [OF o] by blast
    have t: "t = thr a" using owns_holder [OF o a] h by simp
    from std.hold_dtor [OF o a] obtain v where
      v: "raii_dtor std_mutex (thr a) a u = Inr v" "std.hold v g = None" by auto
    have "guard_at v g \<noteq> None" using v(1) a gd by (auto simp: raii_dtor_def on_guard_def result_simps)
    then obtain gv where gv: "guard_at v g = Some gv" "g_mut gv = None" using v(2) by (auto simp: std.hold_def)
    have lock_v: "\<exists>w. guard_lock std_mutex (thr c) c g v = Some (Inr w) \<and> lock_at w c = Some (Some g)"
      using gv by (simp add: guard_lock_def raii_ctor_def std_mutex_def)
    have lock_u: "guard_lock std_mutex (thr c) c g u = (if thr a = thr c then Some (Inl Undefined) else None)"
      using Some gd t by (simp add: guard_lock_def raii_ctor_def std_mutex_def)
    have "guard_step std_mutex bd thr u v" using v(1) by (rule step_unlock)
    then show ?thesis using lock_u lock_v a v(1) by (cases "thr a = thr c") auto
  qed
qed

theorem guard_waiter_proceeds_witness:
  "\<exists>u v w. guard_reach std_mutex Debug (\<lambda>a. a) \<lparr>guard_at = [7 \<mapsto> guard_ctor std_mutex (0::int)], lock_at = Map.empty\<rparr> u \<and>
    guard_lock std_mutex 2 2 7 u = None \<and> guard_step std_mutex Debug (\<lambda>a. a) u v \<and>
    guard_lock std_mutex 2 2 7 v = Some (Inr w) \<and> lock_at w 2 = Some (Some 7)"
proof -
  let ?s = "\<lparr>guard_at = [7 \<mapsto> guard_ctor std_mutex (0::int)], lock_at = Map.empty\<rparr>"
  let ?u = "\<lparr>guard_at = [7 \<mapsto> \<lparr>g_mut = Some (1::nat), g_v = 0::int\<rparr>], lock_at = [1 \<mapsto> Some 7]\<rparr>"
  have "guard_lock std_mutex 1 1 7 ?s = Some (Inr ?u)"
    by (simp add: guard_lock_def raii_ctor_def guard_ctor_def std_mutex_def)
  then have "guard_step std_mutex Debug (\<lambda>a. a) ?s ?u" by (intro step_lock [of _ 1]) simp_all
  then have r: "guard_reach std_mutex Debug (\<lambda>a. a) ?s ?u" by (rule reach_step [OF reach_init])
  have b: "guard_lock std_mutex 2 2 7 ?u = None" by (simp add: guard_lock_def raii_ctor_def std_mutex_def)
  have "lock_at ?s = Map.empty" "\<forall>g gd. guard_at ?s g = Some gd \<longrightarrow> g_mut gd = None"
    "lock_at ?u 2 = None" "guard_at ?u 7 \<noteq> None" by (simp_all add: guard_ctor_def std_mutex_def)
  from guard_waiter_proceeds [OF r this] b r show ?thesis by auto
qed

end
