(* ===== verification/Logs_Threads.thy ===== *)
theory Logs_Threads
  imports Logs_Runs Guard
begin

text \<open>
  Threads that use the logging library.  Constructors, destructors and \<open>set_level\<close> take the library's
  mutex; the test in \<open>UPP_LOG\<close> does not: it reads \<open>m_lvl\<close> and then, when that is unset,
  \<open>m_inherited_level\<close>, while another thread may be passing a level on.  The theory makes the states
  that such a reader can meet explicit and interleaves the threads.
\<close>

section \<open>The states between the writes\<close>

text \<open>\<open>sync_inherited_log_levels\<close> again, with the store after each \<open>set_inherited_level\<close>.\<close>

(* logs/lib/logs.cpp 106-121: sync_inherited_log_levels, its writes *)
partial_function (option) sync_trace :: "store \<Rightarrow> sync_call \<Rightarrow> level \<Rightarrow> (ptr \<times> store list) result option" where
  "sync_trace m call lvl = (case call of
     Sync branch \<Rightarrow> (case m branch of
       None \<Rightarrow> Some (Inl Undefined)
     | Some c \<Rightarrow>
       if explicit_level c \<noteq> level_unset
       then obind (find_next_sibling m branch) (\<lambda>p. Some (Inr (p, [])))
       else (case m_next c of
           None \<Rightarrow> Some (Inr (None, [m(branch \<mapsto> c\<lparr>m_inherited_level := lvl\<rparr>)]))
         | Some i \<Rightarrow> (case (m(branch \<mapsto> c\<lparr>m_inherited_level := lvl\<rparr>)) i of
             None \<Rightarrow> Some (Inl Undefined)
           | Some ic \<Rightarrow>
             Option.bind (if m_parent ic = m_parent c
               then sync_trace (m(branch \<mapsto> c\<lparr>m_inherited_level := lvl\<rparr>)) (Sync i) lvl
               else sync_trace (m(branch \<mapsto> c\<lparr>m_inherited_level := lvl\<rparr>)) (Children branch (Some i)) lvl) (\<lambda>r. case r of
               Inl e \<Rightarrow> Some (Inl e)
             | Inr s \<Rightarrow> Some (Inr (fst s, m(branch \<mapsto> c\<lparr>m_inherited_level := lvl\<rparr>) # snd s))))))
   | Children branch i \<Rightarrow> (case i of
       None \<Rightarrow> Some (Inr (None, []))
     | Some a \<Rightarrow> (case m a of
         None \<Rightarrow> Some (Inl Undefined)
       | Some c \<Rightarrow>
         if m_parent c = Some branch
         then Option.bind (sync_trace m (Sync a) lvl) (\<lambda>r. case r of
             Inl e \<Rightarrow> Some (Inl e)
           | Inr s \<Rightarrow> Option.bind (sync_trace (last (m # snd s)) (Children branch (fst s)) lvl) (\<lambda>r. case r of
               Inl e \<Rightarrow> Some (Inl e)
             | Inr s' \<Rightarrow> Some (Inr (fst s', snd s @ snd s'))))
         else Some (Inr (i, [])))))"

declare sync_trace.simps [code]

(* logs/lib/logs.cpp 197-200: context_base::set_level, the writes of its loop *)
partial_function (option) set_level_loop_trace :: "store \<Rightarrow> nat \<Rightarrow> ptr \<Rightarrow> level \<Rightarrow> store list result option" where
  "set_level_loop_trace m this i lvl = (case i of
     None \<Rightarrow> Some (Inr [])
   | Some a \<Rightarrow> (case m a of
       None \<Rightarrow> Some (Inl Undefined)
     | Some c \<Rightarrow>
       if m_parent c = Some this then
         (case obind (sync_trace m (Sync a) lvl) (\<lambda>s.
             obind (find_next_sibling (last (m # snd s)) a) (\<lambda>n. Some (Inr (n, snd s)))) of
           None \<Rightarrow> None
         | Some r \<Rightarrow> (case r of
             Inl e \<Rightarrow> Some (Inl e)
           | Inr s \<Rightarrow> Option.bind (set_level_loop_trace (last (m # snd s)) this (fst s) lvl) (\<lambda>r. case r of
               Inl e \<Rightarrow> Some (Inl e)
             | Inr ms \<Rightarrow> Some (Inr (snd s @ ms)))))
       else Some (Inr [])))"

declare set_level_loop_trace.simps [code]

text \<open>What a reader relies on: the inherited level of a context only changes while the context has no level of
  its own, before and after; names and parents do not change; a context only goes when it is no
  context's parent, and a new one has a parent that was there before.\<close>

definition keeps_levels :: "store \<Rightarrow> store \<Rightarrow> bool" where
  "keeps_levels m m' \<longleftrightarrow> (\<forall>a c c'. m a = Some c \<longrightarrow> m' a = Some c' \<longrightarrow>
     m_inherited_level c' = m_inherited_level c \<or> m_lvl c = level_unset \<and> m_lvl c' = level_unset)"

definition keeps_paths :: "store \<Rightarrow> store \<Rightarrow> bool" where
  "keeps_paths m m' \<longleftrightarrow>
     (\<forall>a c c'. m a = Some c \<longrightarrow> m' a = Some c' \<longrightarrow> m_parent c' = m_parent c \<and> m_name c' = m_name c) \<and>
     (\<forall>a \<in> dom m - dom m'. a \<noteq> root_context \<and> (\<forall>x. parent_of m x \<noteq> Some a)) \<and>
     (\<forall>a \<in> dom m' - dom m. a \<noteq> root_context \<and> (\<exists>p \<in> dom m \<inter> dom m'. parent_of m' a = Some p))"

lemma keeps_pathsI:
  assumes "\<And>a c c'. m a = Some c \<Longrightarrow> m' a = Some c' \<Longrightarrow> m_parent c' = m_parent c \<and> m_name c' = m_name c"
    and "\<And>a. a \<in> dom m - dom m' \<Longrightarrow> a \<noteq> root_context \<and> (\<forall>x. parent_of m x \<noteq> Some a)"
    and "\<And>a. a \<in> dom m' - dom m \<Longrightarrow> a \<noteq> root_context \<and> (\<exists>p \<in> dom m \<inter> dom m'. parent_of m' a = Some p)"
  shows "keeps_paths m m'"
  unfolding keeps_paths_def using assms(1,2,3) by (intro conjI allI ballI impI) metis+

definition keeps_reads :: "store \<Rightarrow> store \<Rightarrow> bool" where
  "keeps_reads m m' \<longleftrightarrow> keeps_levels m m' \<and> keeps_paths m m'"

fun reads_chain :: "store \<Rightarrow> store list \<Rightarrow> bool" where
  "reads_chain m [] \<longleftrightarrow> True"
| "reads_chain m (m' # ms) \<longleftrightarrow> keeps_reads m m' \<and> reads_chain m' ms"

lemma reads_chain_append: "reads_chain m (ms @ ms') \<longleftrightarrow> reads_chain m ms \<and> reads_chain (last (m # ms)) ms'"
  by (induction ms arbitrary: m) auto

lemma keeps_reads_inherit: "m a = Some c \<Longrightarrow> m_lvl c = level_unset \<Longrightarrow> keeps_reads m (m(a \<mapsto> c\<lparr>m_inherited_level := lvl\<rparr>))"
  by (auto simp: keeps_reads_def keeps_levels_def keeps_paths_def)

lemma keeps_reads_lvl: "m a = Some c \<Longrightarrow> keeps_reads m (m(a \<mapsto> c\<lparr>m_lvl := lvl\<rparr>))"
  by (auto simp: keeps_reads_def keeps_levels_def keeps_paths_def)

lemma sync_trace_states:
  assumes "sync_run m call lvl = Some (Inr (p, m'))"
  shows "\<exists>ms. sync_trace m call lvl = Some (Inr (p, ms)) \<and> last (m # ms) = m' \<and> reads_chain m ms"
proof -
  let ?P = "\<lambda>m call lvl (r :: (ptr \<times> store) result). \<forall>p m'. r = Inr (p, m') \<longrightarrow>
      (\<exists>ms. sync_trace m call lvl = Some (Inr (p, ms)) \<and> last (m # ms) = m' \<and> reads_chain m ms)"
  have "?P m call lvl (Inr (p, m'))"
  proof (rule sync_run.raw_induct [where P = ?P, OF _ assms], intro allI impI)
    fix f and m :: store and call lvl and r :: "(ptr \<times> store) result" and p m'
    assume IH: "\<And>m call lvl r. f m call lvl = Some r \<Longrightarrow> ?P m call lvl r"
    assume body: "(case call of
         Sync branch \<Rightarrow> (case m branch of
           None \<Rightarrow> Some (Inl Undefined)
         | Some c \<Rightarrow>
           if explicit_level c \<noteq> level_unset
           then obind (find_next_sibling m branch) (\<lambda>p. Some (Inr (p, m)))
           else (case m_next c of
               None \<Rightarrow> Some (Inr (None, m(branch \<mapsto> c\<lparr>m_inherited_level := lvl\<rparr>)))
             | Some i \<Rightarrow> (case (m(branch \<mapsto> c\<lparr>m_inherited_level := lvl\<rparr>)) i of
                 None \<Rightarrow> Some (Inl Undefined)
               | Some ic \<Rightarrow>
                 if m_parent ic = m_parent c
                 then f (m(branch \<mapsto> c\<lparr>m_inherited_level := lvl\<rparr>)) (Sync i) lvl
                 else f (m(branch \<mapsto> c\<lparr>m_inherited_level := lvl\<rparr>)) (Children branch (Some i)) lvl)))
       | Children branch i \<Rightarrow> (case i of
           None \<Rightarrow> Some (Inr (None, m))
         | Some a \<Rightarrow> (case m a of
             None \<Rightarrow> Some (Inl Undefined)
           | Some c \<Rightarrow>
             if m_parent c = Some branch
             then Option.bind (f m (Sync a) lvl) (\<lambda>r. case r of
                 Inl e \<Rightarrow> Some (Inl e)
               | Inr s \<Rightarrow> f (snd s) (Children branch (fst s)) lvl)
             else Some (Inr (i, m))))) = Some r" and r: "r = Inr (p, m')"
    show "\<exists>ms. sync_trace m call lvl = Some (Inr (p, ms)) \<and> last (m # ms) = m' \<and> reads_chain m ms"
    proof (cases call)
      case (Sync a)
      obtain c where c: "m a = Some c" using body r Sync by (auto split: option.splits)
      show ?thesis
      proof (cases "m_lvl c = level_unset")
        case False
        then have "find_next_sibling m a = Some (Inr p)" "m' = m"
          using body r Sync c by (auto simp: explicit_level_def result_simps)
        then show ?thesis using Sync c False by (simp add: sync_trace.simps [of m "Sync a"] explicit_level_def)
      next
        case True
        let ?m = "m(a \<mapsto> c\<lparr>m_inherited_level := lvl\<rparr>)"
        have k: "keeps_reads m ?m" using c True by (rule keeps_reads_inherit)
        show ?thesis
        proof (cases "m_next c")
          case None
          then show ?thesis using body r Sync c True k by (simp add: sync_trace.simps [of m "Sync a"] explicit_level_def)
        next
          case (Some i)
          obtain ic where ic: "?m i = Some ic"
            using body r Sync c True Some by (cases "?m i") (auto simp: explicit_level_def)
          define call' where "call' = (if m_parent ic = m_parent c then Sync i else Children a (Some i))"
          have "f ?m call' lvl = Some (Inr (p, m'))"
            using body r Sync c True Some ic by (auto simp: explicit_level_def call'_def split: if_splits)
          from IH [OF this] obtain ms where
            ms: "sync_trace ?m call' lvl = Some (Inr (p, ms))" "last (?m # ms) = m'" "reads_chain ?m ms" by blast
          then have "sync_trace m call lvl = Some (Inr (p, ?m # ms))"
            using Sync c True Some ic by (simp add: sync_trace.simps [of m "Sync a"] explicit_level_def call'_def split: if_splits)
          then show ?thesis using ms k by (intro exI [of _ "?m # ms"]) simp
        qed
      qed
    next
      case (Children a i)
      show ?thesis
      proof (cases i)
        case None
        then show ?thesis using body r Children by (simp add: sync_trace.simps)
      next
        case (Some j)
        obtain c where c: "m j = Some c" using body r Children Some by (auto split: option.splits)
        show ?thesis
        proof (cases "m_parent c = Some a")
          case False
          then have "p = Some j" "m' = m" using body r Children Some c by auto
          then show ?thesis using False Children Some c
            by (intro exI [of _ "[]"]) (simp add: sync_trace.simps [of m "Children a (Some j)"])
        next
          case True
          then obtain q m1 where run: "f m (Sync j) lvl = Some (Inr (q, m1))" "f m1 (Children a q) lvl = Some (Inr (p, m'))"
            using body r Children Some c by (auto split: option.splits sum.splits bind_splits)
          from IH [OF run(1)] obtain ms1 where
            ms1: "sync_trace m (Sync j) lvl = Some (Inr (q, ms1))" "last (m # ms1) = m1" "reads_chain m ms1" by blast
          from IH [OF run(2)] obtain ms2 where
            ms2: "sync_trace m1 (Children a q) lvl = Some (Inr (p, ms2))" "last (m1 # ms2) = m'" "reads_chain m1 ms2" by blast
          have "sync_trace m call lvl = Some (Inr (p, ms1 @ ms2))"
            using Children Some c True ms1(1,2) ms2(1)
            by (simp add: sync_trace.simps [of m "Children a (Some j)"] del: last.simps)
          moreover have "last (m # ms1 @ ms2) = m'" using ms1(2) ms2(2) by (cases ms2) auto
          ultimately show ?thesis using ms1 ms2 by (intro exI [of _ "ms1 @ ms2"]) (simp add: reads_chain_append)
        qed
      qed
    qed
  qed
  then show ?thesis by blast
qed


lemma set_level_loop_trace_states:
  assumes "set_level_loop m this i lvl = Some (Inr m')"
  shows "\<exists>ms. set_level_loop_trace m this i lvl = Some (Inr ms) \<and> last (m # ms) = m' \<and> reads_chain m ms"
proof -
  let ?P = "\<lambda>m this i lvl (r :: store result). \<forall>m'. r = Inr m' \<longrightarrow>
      (\<exists>ms. set_level_loop_trace m this i lvl = Some (Inr ms) \<and> last (m # ms) = m' \<and> reads_chain m ms)"
  have "?P m this i lvl (Inr m')"
  proof (rule set_level_loop.raw_induct [where P = ?P, OF _ assms], intro allI impI)
    fix f and m :: store and this i lvl and r :: "store result" and m'
    assume IH: "\<And>m this i lvl r. f m this i lvl = Some r \<Longrightarrow> ?P m this i lvl r"
    assume body: "(case i of
         None \<Rightarrow> Some (Inr m)
       | Some a \<Rightarrow> (case m a of
           None \<Rightarrow> Some (Inl Undefined)
         | Some c \<Rightarrow>
           if m_parent c = Some this then
             (case obind (sync_run m (Sync a) lvl) (\<lambda>s.
                 obind (find_next_sibling (snd s) a) (\<lambda>n. Some (Inr (n, snd s)))) of
               None \<Rightarrow> None
             | Some r \<Rightarrow> (case r of
                 Inl e \<Rightarrow> Some (Inl e)
               | Inr s \<Rightarrow> f (snd s) this (fst s) lvl))
           else Some (Inr m))) = Some r" and r: "r = Inr m'"
    show "\<exists>ms. set_level_loop_trace m this i lvl = Some (Inr ms) \<and> last (m # ms) = m' \<and> reads_chain m ms"
    proof (cases i)
      case None
      then show ?thesis using body r by (simp add: set_level_loop_trace.simps)
    next
      case (Some a)
      obtain c where c: "m a = Some c" using body r Some by (auto split: option.splits)
      show ?thesis
      proof (cases "m_parent c = Some this")
        case False
        then have "m' = m" using body r Some c by auto
        then show ?thesis using False Some c
          by (intro exI [of _ "[]"]) (simp add: set_level_loop_trace.simps [of m this "Some a"])
      next
        case True
        then obtain q m1 n where run: "sync_run m (Sync a) lvl = Some (Inr (q, m1))"
            "find_next_sibling m1 a = Some (Inr n)" "f m1 this n lvl = Some (Inr m')"
          using body r Some c by (auto simp: result_simps split: option.splits sum.splits)
        from sync_trace_states [OF run(1)] obtain ms1 where
          ms1: "sync_trace m (Sync a) lvl = Some (Inr (q, ms1))" "last (m # ms1) = m1" "reads_chain m ms1" by blast
        from IH [OF run(3)] obtain ms2 where
          ms2: "set_level_loop_trace m1 this n lvl = Some (Inr ms2)" "last (m1 # ms2) = m'" "reads_chain m1 ms2" by blast
        have "set_level_loop_trace m this i lvl = Some (Inr (ms1 @ ms2))"
          using Some c True ms1(1,2) ms2(1) run(2)
          by (simp add: set_level_loop_trace.simps [of m this "Some a"] del: last.simps)
        moreover have "last (m # ms1 @ ms2) = m'" using ms1(2) ms2(2) by (cases ms2) auto
        ultimately show ?thesis using ms1 ms2 by (intro exI [of _ "ms1 @ ms2"]) (simp add: reads_chain_append)
      qed
    qed
  qed
  then show ?thesis by blast
qed


section \<open>The states an operation goes through\<close>

datatype logs_op = Construct nat string nat | Destroy nat | Set_level nat level

fun op_result :: "build \<Rightarrow> logs_op \<Rightarrow> logs \<Rightarrow> logs result option" where
  "op_result b (Construct parent name this) L = ctx_ctor b parent name this L"
| "op_result b (Destroy this) L = ctx_dtor b this L"
| "op_result b (Set_level this lvl) L = set_level b this lvl L"

text \<open>The objects an operation uses are alive.\<close>

fun op_allowed :: "logs \<Rightarrow> logs_op \<Rightarrow> bool" where
  "op_allowed L (Construct parent name this) \<longleftrightarrow> parent \<in> dom (contexts L) \<and> this \<notin> dom (contexts L)"
| "op_allowed L (Destroy this) \<longleftrightarrow> this \<in> dom (contexts L) \<and> this \<noteq> root_context \<and>
     (\<forall>x. parent_of (contexts L) x \<noteq> Some this)"
| "op_allowed L (Set_level this lvl) \<longleftrightarrow> this \<in> dom (contexts L)"

lemma op_step: "op_allowed L op \<Longrightarrow> op_result b op L = Some (Inr L') \<Longrightarrow> logs_step b L L'"
  by (cases op) (auto intro: logs_step.intros)

text \<open>What other threads can meet: a constructor or destructor changes no level that a reader of another
  live context looks at, so its links appear at once; \<open>set_level\<close> shows its level, the order of the
  list and then each inherited level.\<close>

(* logs/lib/logs.cpp 191-201: context_base::set_level, its writes *)
definition set_level_states :: "build \<Rightarrow> nat \<Rightarrow> level \<Rightarrow> logs \<Rightarrow> logs list result option" where
  "set_level_states b this new_lvl L =
     obind (Some (get_ctx (contexts L) (Some this))) (\<lambda>c.
     let L0 = L\<lparr>contexts := (contexts L)(this \<mapsto> c\<lparr>m_lvl := new_lvl\<rparr>)\<rparr> in
     obind (ensure_organized b L0) (\<lambda>L1.
     obind (Some (get_ctx (contexts L1) (Some this))) (\<lambda>c1.
     obind (set_level_loop_trace (contexts L1) this (m_next c1)
        (if m_lvl c1 \<noteq> level_unset then m_lvl c1 else m_inherited_level c1)) (\<lambda>ms.
     Some (Inr (L0 # L1 # map (\<lambda>m. L1\<lparr>contexts := m\<rparr>) ms))))))"

fun op_states :: "build \<Rightarrow> logs_op \<Rightarrow> logs \<Rightarrow> logs list result option" where
  "op_states b (Construct parent name this) L = obind (ctx_ctor b parent name this L) (\<lambda>L'. Some (Inr [L']))"
| "op_states b (Destroy this) L = obind (ctx_dtor b this L) (\<lambda>L'. Some (Inr [L']))"
| "op_states b (Set_level this lvl) L = set_level_states b this lvl L"

lemma payload_keeps_reads:
  assumes "\<And>a. a \<in> dom m \<Longrightarrow> a \<in> dom m' \<Longrightarrow> payload m' a = payload m a"
    and "\<And>a. a \<in> dom m - dom m' \<Longrightarrow> a \<noteq> root_context \<and> (\<forall>x. parent_of m x \<noteq> Some a)"
    and "\<And>a. a \<in> dom m' - dom m \<Longrightarrow> a \<noteq> root_context \<and> (\<exists>p \<in> dom m \<inter> dom m'. parent_of m' a = Some p)"
  shows "keeps_reads m m'"
proof -
  have same: "m_inherited_level c' = m_inherited_level c \<and> m_parent c' = m_parent c \<and> m_name c' = m_name c"
    if c: "m a = Some c" "m' a = Some c'" for a c c'
  proof -
    have "payload m' a = payload m a" by (rule assms(1)) (use c in blast)+
    from payload_fun_at [OF this c(2)] obtain c0 where "m a = Some c0" "m_parent c0 = m_parent c'"
      "m_inherited_level c0 = m_inherited_level c'" "m_name c0 = m_name c'" .
    then show ?thesis using c(1) by simp
  qed
  have "keeps_levels m m'"
    unfolding keeps_levels_def using same by blast
  moreover have "keeps_paths m m'"
  proof (rule keeps_pathsI)
    show "m_parent c' = m_parent c \<and> m_name c' = m_name c" if "m a = Some c" "m' a = Some c'" for a c c'
      using same [OF that] by simp
  qed (fact assms(2), fact assms(3))
  ultimately show ?thesis by (simp add: keeps_reads_def)
qed

lemma set_level_states_ok:
  assumes "logs_reach b L" and "this \<in> dom (contexts L)" and "set_level b this lvl L = Some (Inr L')"
  shows "\<exists>ls. set_level_states b this lvl L = Some (Inr ls) \<and> last (L # ls) = L' \<and>
    reads_chain (contexts L) (map contexts ls)"
proof -
  have ok: "logs_ok L" using logs_reach_ok [OF assms(1)] by blast
  obtain c where c: "contexts L this = Some c" using assms(2) by blast
  let ?L0 = "L\<lparr>contexts := (contexts L)(this \<mapsto> c\<lparr>m_lvl := lvl\<rparr>)\<rparr>"
  have ok0: "logs_ok ?L0" by (rule logs_ok_same_links [OF ok]) (simp_all add: same_links_lvl c)
  obtain L1 where L1: "ensure_organized b ?L0 = Some (Inr L1)"
    using assms(3) c by (auto simp: set_level_def result_simps)
  obtain c1 where c1: "get_ctx (contexts L1) (Some this) = Inr c1"
    using assms(3) c L1 by (auto simp: set_level_def result_simps)
  let ?l = "if m_lvl c1 \<noteq> level_unset then m_lvl c1 else m_inherited_level c1"
  obtain m where m: "set_level_loop (contexts L1) this (m_next c1) ?l = Some (Inr m)" "L' = L1\<lparr>contexts := m\<rparr>"
    using assms(3) c L1 c1 by (auto simp: set_level_def result_simps)
  from set_level_loop_trace_states [OF m(1)] obtain ms where
    ms: "set_level_loop_trace (contexts L1) this (m_next c1) ?l = Some (Inr ms)" "last (contexts L1 # ms) = m"
      "reads_chain (contexts L1) ms" by blast
  have pay: "payload (contexts L1) = payload (contexts ?L0)"
    using ensure_organized_ok [OF ok0, of b] L1 by (simp add: returns_def)
  have "dom (contexts L1) = dom (contexts ?L0)" using payload_dom_at [OF fun_cong [OF pay]] by blast
  then have k1: "keeps_reads (contexts ?L0) (contexts L1)" by (intro payload_keeps_reads) (simp_all add: pay)
  let ?ls = "?L0 # L1 # map (\<lambda>m. L1\<lparr>contexts := m\<rparr>) ms"
  have "set_level_states b this lvl L = Some (Inr ?ls)"
    using c L1 c1 ms(1) by (simp add: set_level_states_def Let_def)
  moreover have "last (L # ?ls) = L'" using ms(2) m(2) by (cases ms rule: rev_cases) auto
  moreover have "reads_chain (contexts L) (map contexts ?ls)"
    using keeps_reads_lvl [of "contexts L" this c lvl] c k1 ms(3) by (simp add: o_def)
  ultimately show ?thesis by blast
qed

lemma op_states_ok:
  assumes "logs_reach b L" and "op_allowed L op" and "op_result b op L = Some (Inr L')"
  shows "\<exists>ls. op_states b op L = Some (Inr ls) \<and> last (L # ls) = L' \<and> reads_chain (contexts L) (map contexts ls)"
proof (cases op)
  case (Construct parent name this)
  have ok: "logs_ok L" using logs_reach_ok [OF assms(1)] by blast
  have new: "this \<notin> dom (contexts L)" "parent \<in> dom (contexts L)" using assms(2) Construct by simp_all
  have d: "dom (contexts L') = insert this (dom (contexts L))" "parent_of (contexts L') this = Some parent"
      "\<And>a. a \<noteq> this \<Longrightarrow> payload (contexts L') a = payload (contexts L) a"
    using ctx_ctor_ok [OF ok new, of b name] assms(3) Construct by auto
  have "this \<noteq> root_context" using new(1) logs_ok_root [OF ok] by blast
  have "keeps_reads (contexts L) (contexts L')"
  proof (rule payload_keeps_reads)
    show "payload (contexts L') a = payload (contexts L) a" if "a \<in> dom (contexts L)" for a
      using d(3) new(1) that by metis
    show "a \<noteq> root_context \<and> (\<exists>p \<in> dom (contexts L) \<inter> dom (contexts L'). parent_of (contexts L') a = Some p)"
      if "a \<in> dom (contexts L') - dom (contexts L)" for a
    proof -
      have "a = this" using that d(1) by blast
      then show ?thesis using d(1,2) new(2) \<open>this \<noteq> root_context\<close> by blast
    qed
  qed (use d(1) in auto)
  then show ?thesis using assms(3) Construct by simp
next
  case (Destroy this)
  have ok: "logs_ok L" using logs_reach_ok [OF assms(1)] by blast
  have d: "dom (contexts L') = dom (contexts L) - {this}"
      "\<And>a. a \<noteq> this \<Longrightarrow> payload (contexts L') a = payload (contexts L) a"
    using ctx_dtor_ok [OF ok, of this b] assms(2,3) Destroy by auto
  have "keeps_reads (contexts L) (contexts L')"
  proof (rule payload_keeps_reads)
    show "payload (contexts L') a = payload (contexts L) a" if "a \<in> dom (contexts L')" for a
      using that d by blast
    show "a \<noteq> root_context \<and> (\<forall>x. parent_of (contexts L) x \<noteq> Some a)" if "a \<in> dom (contexts L) - dom (contexts L')" for a
    proof -
      have "a = this" using that d(1) by blast
      then show ?thesis using assms(2) Destroy by simp
    qed
  qed (use d(1) in blast)
  then show ?thesis using assms(3) Destroy by simp
next
  case (Set_level this lvl)
  then show ?thesis using set_level_states_ok assms by simp
qed

section \<open>Threads\<close>

text \<open>A thread is idle, waits for the mutex, writes the states of its operation, or tests the level for a
  message.  The loads of a test are relaxed, so the inherited level may be loaded ahead of the other
  one.  A test also carries, for the proofs, the effective levels the context has had since the
  first load.  A thread whose context is destroyed during the test is lost: the second load would be undefined.\<close>

datatype activity =
    Idle
  | Waiting logs_op
  | Inside "logs list"
  | Testing nat level "level set"
  | Ahead nat level level "level set"
  | Lost
  | Tested nat level bool "level set"

record system =
  sys_mutex :: "tid option"
  sys_logs :: logs
  sys_act :: "tid \<Rightarrow> activity"

definition sys_init :: system where
  "sys_init = \<lparr>sys_mutex = mx_init std_mutex, sys_logs = logs_init, sys_act = (\<lambda>t. Idle)\<rparr>"

definition level_at :: "logs \<Rightarrow> nat \<Rightarrow> level set" where
  "level_at L ctx = (case contexts L ctx of None \<Rightarrow> {} | Some c \<Rightarrow> {effective_level c})"

fun notice :: "logs \<Rightarrow> activity \<Rightarrow> activity" where
  "notice L (Testing ctx lvl seen) =
     (if contexts L ctx = None then Lost else Testing ctx lvl (seen \<union> level_at L ctx))"
| "notice L (Ahead ctx lvl inherited seen) =
     (if contexts L ctx = None then Lost else Ahead ctx lvl inherited (seen \<union> level_at L ctx))"
| "notice L x = x"

abbreviation acting :: "system \<Rightarrow> tid \<Rightarrow> activity \<Rightarrow> system" where
  "acting s t x \<equiv> s\<lparr>sys_act := (sys_act s)(t := x)\<rparr>"

(* logs/lib/logs.cpp 185-189: context_base::effective_level, the first load *)
definition first_load :: "context_base \<Rightarrow> nat \<Rightarrow> level \<Rightarrow> activity" where
  "first_load c ctx lvl = (if m_lvl c \<noteq> level_unset then Tested ctx lvl (m_lvl c \<le> lvl) {m_lvl c}
     else Testing ctx lvl {effective_level c})"

inductive sys_step :: "build \<Rightarrow> system \<Rightarrow> system \<Rightarrow> bool" for b where
  sys_call: "sys_act s t = Idle \<Longrightarrow> sys_step b s (acting s t (Waiting op))"
| sys_enter: "sys_act s t = Waiting op \<Longrightarrow> mx_lock std_mutex t (sys_mutex s) = Some (Inr m) \<Longrightarrow>
    op_allowed (sys_logs s) op \<Longrightarrow> op_result b op (sys_logs s) = Some (Inr L') \<Longrightarrow>
    op_states b op (sys_logs s) = Some (Inr ls) \<Longrightarrow> sys_step b s (acting (s\<lparr>sys_mutex := m\<rparr>) t (Inside ls))"
| sys_write: "sys_act s t = Inside (L # ls) \<Longrightarrow>
    sys_step b s (s\<lparr>sys_logs := L, sys_act := (\<lambda>u. notice L (sys_act s u))(t := Inside ls)\<rparr>)"
| sys_leave: "sys_act s t = Inside [] \<Longrightarrow> mx_unlock std_mutex t (sys_mutex s) = Inr m \<Longrightarrow>
    sys_step b s (acting (s\<lparr>sys_mutex := m\<rparr>) t Idle)"
| sys_test: "sys_act s t = Idle \<Longrightarrow> contexts (sys_logs s) ctx = Some c \<Longrightarrow>
    sys_step b s (acting s t (first_load c ctx lvl))"
| sys_second: "sys_act s t = Testing ctx lvl seen \<Longrightarrow> contexts (sys_logs s) ctx = Some c \<Longrightarrow>
    sys_step b s (acting s t (Tested ctx lvl (m_inherited_level c \<le> lvl) seen))"
| sys_ahead: "sys_act s t = Idle \<Longrightarrow> contexts (sys_logs s) ctx = Some c \<Longrightarrow>
    sys_step b s (acting s t (Ahead ctx lvl (m_inherited_level c) {effective_level c}))"
| sys_ahead_second: "sys_act s t = Ahead ctx lvl inherited seen \<Longrightarrow> contexts (sys_logs s) ctx = Some c \<Longrightarrow>
    sys_step b s (acting s t (Tested ctx lvl ((if m_lvl c \<noteq> level_unset then m_lvl c else inherited) \<le> lvl) seen))"
| sys_done: "sys_act s t = Tested ctx lvl passed seen \<Longrightarrow> sys_step b s (acting s t Idle)"

inductive sys_reach :: "build \<Rightarrow> system \<Rightarrow> bool" for b where
  sys_reach_init: "sys_reach b sys_init"
| sys_reach_step: "sys_reach b s \<Longrightarrow> sys_step b s s' \<Longrightarrow> sys_reach b s'"

text \<open>The mutex belongs to the thread that is inside an operation, and the rest of that operation leads to a
  state a program without threads can reach.\<close>

definition excludes :: "build \<Rightarrow> system \<Rightarrow> bool" where
  "excludes b s \<longleftrightarrow> (case sys_mutex s of
     None \<Rightarrow> (\<forall>t ls. sys_act s t \<noteq> Inside ls) \<and> logs_reach b (sys_logs s)
   | Some u \<Rightarrow> (\<forall>t ls. sys_act s t = Inside ls \<longrightarrow> t = u) \<and> (\<exists>ls. sys_act s u = Inside ls \<and>
       logs_reach b (last (sys_logs s # ls)) \<and> reads_chain (contexts (sys_logs s)) (map contexts ls)))"

text \<open>The level a test would arrive at now has been the effective one.\<close>

fun test_ok :: "logs \<Rightarrow> activity \<Rightarrow> bool" where
  "test_ok L (Testing ctx lvl seen) \<longleftrightarrow> (\<exists>c. contexts L ctx = Some c \<and> m_inherited_level c \<in> seen)"
| "test_ok L (Ahead ctx lvl inherited seen) \<longleftrightarrow> (\<exists>c. contexts L ctx = Some c \<and> effective_level c \<in> seen \<and>
     (inherited \<in> seen \<or> m_lvl c \<noteq> level_unset \<and> m_inherited_level c = inherited))"
| "test_ok L (Tested ctx lvl passed seen) \<longleftrightarrow> (\<exists>l \<in> seen. passed \<longleftrightarrow> l \<le> lvl)"
| "test_ok L x \<longleftrightarrow> True"

lemma notice_Inside [simp]: "notice L x = Inside ls \<longleftrightarrow> x = Inside ls"
  by (cases x) simp_all

lemma notice_Waiting [simp]: "notice L x = Waiting op \<longleftrightarrow> x = Waiting op"
  by (cases x) simp_all

lemma notice_test_ok:
  assumes "test_ok L x" and "keeps_reads (contexts L) (contexts L')"
  shows "test_ok L' (notice L' x)"
proof (cases x)
  case (Testing ctx lvl seen)
  then obtain c where c: "contexts L ctx = Some c" "m_inherited_level c \<in> seen" using assms(1) by auto
  show ?thesis
  proof (cases "contexts L' ctx")
    case (Some c')
    then have "m_inherited_level c' = m_inherited_level c \<or> m_lvl c' = level_unset"
      using assms(2) c(1) unfolding keeps_reads_def keeps_levels_def by blast
    then show ?thesis using Testing Some c(2) by (auto simp: level_at_def effective_level_def)
  qed (use Testing in simp)
next
  case (Ahead ctx lvl inherited seen)
  then obtain c where c: "contexts L ctx = Some c"
      "inherited \<in> seen \<or> m_lvl c \<noteq> level_unset \<and> m_inherited_level c = inherited" using assms(1) by auto
  show ?thesis
  proof (cases "contexts L' ctx")
    case (Some c')
    then have "m_inherited_level c' = m_inherited_level c \<or> m_lvl c = level_unset"
      using assms(2) c(1) unfolding keeps_reads_def keeps_levels_def by blast
    then show ?thesis using Ahead Some c(2) by (auto simp: level_at_def effective_level_def)
  qed (use Ahead in simp)
qed (use assms(1) in auto)

lemma first_load_ok: "contexts L ctx = Some c \<Longrightarrow> test_ok L (first_load c ctx lvl)"
  by (simp add: first_load_def effective_level_def)

lemma first_load_Inside [simp]: "first_load c ctx lvl \<noteq> Inside ls"
  by (simp add: first_load_def)

lemma std_mutex_simps [simp]:
  "mx_lock std_mutex t m = Some (Inr m') \<longleftrightarrow> m = None \<and> m' = Some t"
  "mx_unlock std_mutex t m = Inr m' \<longleftrightarrow> m = Some t \<and> m' = None"
  "mx_init std_mutex = None"
  by (auto simp: std_mutex_def split: option.splits)

lemma excludes_other:
  assumes "excludes b s" and "\<And>ls. sys_act s t \<noteq> Inside ls" and "\<And>ls. x \<noteq> Inside ls"
  shows "excludes b (acting s t x)"
  using assms by (cases "sys_mutex s") (auto simp: excludes_def)

lemma sys_step_excludes: "sys_step b s s' \<Longrightarrow> excludes b s \<Longrightarrow> excludes b s'"
proof (induction rule: sys_step.induct)
  case (sys_enter s t op m L' ls)
  then have free: "sys_mutex s = None" "m = Some t" by simp_all
  then have r: "logs_reach b (sys_logs s)" and none: "\<And>u l. sys_act s u \<noteq> Inside l"
    using sys_enter.prems by (auto simp: excludes_def)
  from op_states_ok [OF r sys_enter.hyps(3,4)] sys_enter.hyps(5) have
    "last (sys_logs s # ls) = L'" "reads_chain (contexts (sys_logs s)) (map contexts ls)" by auto
  moreover have "logs_reach b L'"
    by (rule logs_reach_step [OF r op_step [OF sys_enter.hyps(3,4)]])
  ultimately show ?case using free none by (auto simp: excludes_def simp del: last.simps)
next
  case (sys_write s t L ls)
  then obtain u where "sys_mutex s = Some u" by (auto simp: excludes_def split: option.splits)
  then show ?case using sys_write by (auto simp: excludes_def)
next
  case (sys_leave s t m)
  then show ?case by (auto simp: excludes_def)
qed (auto intro: excludes_other)

lemma sys_step_tests:
  "sys_step b s s' \<Longrightarrow> excludes b s \<Longrightarrow> \<forall>t. test_ok (sys_logs s) (sys_act s t) \<Longrightarrow>
    \<forall>t. test_ok (sys_logs s') (sys_act s' t)"
proof (induction rule: sys_step.induct)
  case (sys_write s t L ls)
  then have "keeps_reads (contexts (sys_logs s)) (contexts L)"
    by (auto simp: excludes_def split: option.splits)
  then show ?case using sys_write.prems(2) notice_test_ok by auto
next
  case (sys_ahead_second s t ctx lvl inherited seen c)
  have "test_ok (sys_logs s) (Ahead ctx lvl inherited seen)" using sys_ahead_second.prems(2) sys_ahead_second.hyps(1) by metis
  then show ?case using sys_ahead_second by (auto simp: effective_level_def)
next
  case (sys_second s t ctx lvl seen c)
  have "test_ok (sys_logs s) (Testing ctx lvl seen)" using sys_second.prems(2) sys_second.hyps(1) by metis
  then show ?case using sys_second by auto
qed (auto simp: first_load_ok effective_level_def)

lemma sys_reach_ok: "sys_reach b s \<Longrightarrow> excludes b s \<and> (\<forall>t. test_ok (sys_logs s) (sys_act s t))"
proof (induction rule: sys_reach.induct)
  case sys_reach_init
  then show ?case by (simp add: sys_init_def excludes_def logs_reach_init)
next
  case (sys_reach_step s s')
  then show ?case using sys_step_excludes sys_step_tests by blast
qed

section \<open>Progress\<close>

abbreviation sys_steps :: "build \<Rightarrow> system \<Rightarrow> system \<Rightarrow> bool" where
  "sys_steps b \<equiv> (sys_step b)\<^sup>*\<^sup>*"

lemma sys_steps_reach: "sys_steps b s s' \<Longrightarrow> sys_reach b s \<Longrightarrow> sys_reach b s'"
  by (induction rule: rtranclp_induct) (auto intro: sys_reach_step)

text \<open>The thread inside an operation needs no other thread to leave it.\<close>

lemma finish_inside:
  assumes "sys_act s u = Inside ls" and "sys_mutex s = Some u"
  shows "\<exists>v. sys_steps b s v \<and> sys_mutex v = None \<and> sys_logs v = last (sys_logs s # ls) \<and>
    sys_act v u = Idle \<and> (\<forall>t op. sys_act s t = Waiting op \<longrightarrow> sys_act v t = Waiting op)"
  using assms
proof (induction ls arbitrary: s)
  case Nil
  have "sys_step b s (acting (s\<lparr>sys_mutex := None\<rparr>) u Idle)" by (rule sys_leave) (use Nil in simp_all)
  then show ?case using Nil by (intro exI [of _ "acting (s\<lparr>sys_mutex := None\<rparr>) u Idle"]) auto
next
  case (Cons L ls)
  let ?s = "s\<lparr>sys_logs := L, sys_act := (\<lambda>t. notice L (sys_act s t))(u := Inside ls)\<rparr>"
  have step: "sys_step b s ?s" by (rule sys_write) (rule Cons.prems(1))
  from Cons.IH [of ?s] Cons.prems(2) obtain v where
    v: "sys_steps b ?s v" "sys_mutex v = None" "sys_logs v = last (L # ls)" "sys_act v u = Idle"
      "\<forall>t op. sys_act ?s t = Waiting op \<longrightarrow> sys_act v t = Waiting op" by auto
  have "sys_act v t = Waiting op" if w: "sys_act s t = Waiting op" for t op
  proof -
    have "t \<noteq> u" using w Cons.prems(1) by auto
    then have "sys_act ?s t = Waiting op" using w by simp
    then show ?thesis using v(5) by blast
  qed
  then show ?case using converse_rtranclp_into_rtranclp [of "sys_step b", OF step v(1)] v(2-4) by auto
qed

lemma free_mutex:
  assumes "sys_reach b s"
  shows "\<exists>v. sys_steps b s v \<and> sys_mutex v = None \<and> (\<forall>t op. sys_act s t = Waiting op \<longrightarrow> sys_act v t = Waiting op)"
proof (cases "sys_mutex s")
  case None
  then show ?thesis by (intro exI [of _ s]) simp
next
  case (Some u)
  then obtain ls where "sys_act s u = Inside ls" using sys_reach_ok [OF assms] by (auto simp: excludes_def)
  from finish_inside [OF this Some, of b] show ?thesis by blast
qed

lemma op_returns:
  assumes "logs_reach Release L" and "op_allowed L op"
  shows "\<exists>L'. op_result Release op L = Some (Inr L')"
proof (cases op)
  case (Construct parent name this)
  then show ?thesis using ctx_ctor_ok [of L this parent Release name] logs_reach_ok [OF assms(1)] assms(2) by auto
next
  case (Destroy this)
  then show ?thesis using ctx_dtor_ok [of L this Release] logs_reach_ok [OF assms(1)] assms(2) by auto
next
  case (Set_level this lvl)
  then obtain c where "contexts L this = Some c" using assms(2) by auto
  with Set_level show ?thesis
    using returns_Release [OF set_level_ok [of L this c Release lvl]] logs_reach_ok [OF assms(1)] by auto
qed

lemma waiter_served:
  assumes "sys_reach Release v" and "sys_mutex v = None" and "sys_act v t = Waiting op" and "op_allowed (sys_logs v) op"
  shows "\<exists>w. sys_steps Release v w \<and> sys_act w t = Idle \<and> sys_mutex w = None \<and>
    op_result Release op (sys_logs v) = Some (Inr (sys_logs w))"
proof -
  have r: "logs_reach Release (sys_logs v)" using sys_reach_ok [OF assms(1)] assms(2) by (simp add: excludes_def)
  from op_returns [OF r assms(4)] obtain L' where L': "op_result Release op (sys_logs v) = Some (Inr L')" by blast
  from op_states_ok [OF r assms(4) L'] obtain ls where
    ls: "op_states Release op (sys_logs v) = Some (Inr ls)" "last (sys_logs v # ls) = L'" by blast
  let ?v = "acting (v\<lparr>sys_mutex := Some t\<rparr>) t (Inside ls)"
  have step: "sys_step Release v ?v"
    by (rule sys_enter [OF assms(3) _ assms(4) L' ls(1)]) (simp add: assms(2))
  from finish_inside [of ?v t ls Release] obtain w where
    "sys_steps Release ?v w" "sys_mutex w = None" "sys_logs w = L'" "sys_act w t = Idle"
    using ls(2) by auto
  then show ?thesis using converse_rtranclp_into_rtranclp [of "sys_step Release", OF step] L' by blast
qed

section \<open>Properties\<close>

text \<open>C6. Threads that construct, destroy (children before their parents), set levels and test levels in any
  interleaving of their writes and loads: at most one thread is inside an operation; whenever the mutex is free, the contexts are in a
  state that a program with one thread can reach; and the test in \<open>UPP_LOG\<close>, which takes no lock and
  loads two levels in either order, decides as for a level that was the effective one at some
  moment of the test.\<close>

theorem logs_threads_consistent:
  assumes "sys_reach b s"
  shows "(\<forall>t u ls ls'. sys_act s t = Inside ls \<and> sys_act s u = Inside ls' \<longrightarrow> t = u) \<and>
    (sys_mutex s = None \<longrightarrow> logs_reach b (sys_logs s)) \<and>
    (\<forall>t ctx lvl passed seen. sys_act s t = Tested ctx lvl passed seen \<longrightarrow> (\<exists>l \<in> seen. passed \<longleftrightarrow> l \<le> lvl))"
proof (intro conjI allI impI)
  note ok = sys_reach_ok [OF assms]
  show "t = u" if "sys_act s t = Inside ls \<and> sys_act s u = Inside ls'" for t u ls ls'
    using that ok by (cases "sys_mutex s") (auto simp: excludes_def)
  show "logs_reach b (sys_logs s)" if "sys_mutex s = None"
    using that ok by (simp add: excludes_def)
  show "\<exists>l \<in> seen. passed \<longleftrightarrow> l \<le> lvl" if t: "sys_act s t = Tested ctx lvl passed seen" for t ctx lvl passed seen
  proof -
    have "test_ok (sys_logs s) (sys_act s t)" using ok by blast
    then show ?thesis using t by simp
  qed
qed

theorem logs_threads_consistent_witness:
  "\<exists>s. sys_reach Release s \<and> sys_mutex s = Some 1 \<and> (\<exists>ls. sys_act s 1 = Inside ls) \<and>
    lvl_of (contexts (sys_logs s)) root_context = level_debug \<and>
    sys_act s 2 = Tested root_context level_info False {level_unset, level_debug} \<and>
    (\<exists>l \<in> {level_unset, level_debug}. \<not> l \<le> level_info)"
proof -
  let ?op = "Set_level root_context level_debug"
  let ?L0 = "logs_init\<lparr>contexts := [root_context \<mapsto> root_ctx\<lparr>m_lvl := level_debug\<rparr>]\<rparr>"
  have "root_context \<in> dom (contexts logs_init)" by (simp add: logs_init_def)
  then have a: "op_allowed logs_init ?op" by simp
  from op_returns [OF logs_reach_init a] obtain L' where L': "op_result Release ?op logs_init = Some (Inr L')" by blast
  from op_states_ok [OF logs_reach_init a L'] obtain l where l: "op_states Release ?op logs_init = Some (Inr l)" by blast
  then obtain ls where ls: "op_states Release ?op logs_init = Some (Inr (?L0 # ls))"
    by (auto simp: set_level_states_def Let_def result_simps logs_init_def)
  define s1 where "s1 = acting sys_init 2 (Testing root_context level_info {level_unset})"
  define s2 where "s2 = acting s1 1 (Waiting ?op)"
  define s3 where "s3 = acting (s2\<lparr>sys_mutex := Some 1\<rparr>) 1 (Inside (?L0 # ls))"
  define s4 where "s4 = s3\<lparr>sys_logs := ?L0, sys_act := (\<lambda>u. notice ?L0 (sys_act s3 u))(1 := Inside ls)\<rparr>"
  define s5 where "s5 = acting s4 2 (Tested root_context level_info (level_unset \<le> level_info) {level_unset, level_debug})"
  have "sys_step Release sys_init s1"
    using sys_test [of sys_init 2 root_context root_ctx Release level_info]
    by (simp add: s1_def sys_init_def logs_init_def first_load_def root_ctx_def effective_level_def)
  then have r1: "sys_reach Release s1" by (rule sys_reach_step [OF sys_reach_init])
  have "sys_step Release s1 s2" unfolding s2_def by (rule sys_call) (simp add: s1_def sys_init_def)
  then have r2: "sys_reach Release s2" by (rule sys_reach_step [OF r1])
  have "sys_step Release s2 s3" unfolding s3_def
    by (rule sys_enter [where op = ?op]) (use a L' ls in \<open>simp_all add: s2_def s1_def sys_init_def\<close>)
  then have r3: "sys_reach Release s3" by (rule sys_reach_step [OF r2])
  have "sys_step Release s3 s4" unfolding s4_def by (rule sys_write) (simp add: s3_def)
  then have r4: "sys_reach Release s4" by (rule sys_reach_step [OF r3])
  have t4: "sys_act s4 2 = Testing root_context level_info {level_unset, level_debug}"
    by (auto simp: s4_def s3_def s2_def s1_def level_at_def effective_level_def)
  have "sys_step Release s4 s5"
    using sys_second [OF t4, of "root_ctx\<lparr>m_lvl := level_debug\<rparr>" Release]
    by (simp add: s5_def s4_def root_ctx_def)
  then have r5: "sys_reach Release s5" by (rule sys_reach_step [OF r4])
  have not: "\<not> level_unset \<le> level_info" by (simp add: less_eq_level_def)
  then have t5: "sys_act s5 2 = Tested root_context level_info False {level_unset, level_debug}" by (simp add: s5_def)
  have rest: "sys_mutex s5 = Some 1" "sys_act s5 1 = Inside ls" "lvl_of (contexts (sys_logs s5)) root_context = level_debug"
    by (simp_all add: s5_def s4_def s3_def lvl_of_def)
  from logs_threads_consistent [OF r5, THEN conjunct2, THEN conjunct2] t5 not
  have "\<exists>l \<in> {level_unset, level_debug}. \<not> l \<le> level_info" by blast
  with r5 t5 rest show ?thesis by blast
qed

text \<open>C8. In a release build a thread that waits to construct, destroy or set a level is never shut out:
  whatever the threads have done, the operation in progress can end without help from the waiting
  ones.  Then the waiting thread gets the mutex, completes its operation with the result it has without other
  threads, and gives the mutex back, provided that the operation is still one a program may do: the context it sets
  the level of, destroys or constructs a child for is alive, a new context has an address of its own, and no context
  has a context that is destroyed as its parent.\<close>

theorem logs_waiter_served:
  assumes "sys_reach Release s" and "sys_act s t = Waiting op"
  shows "\<exists>v. sys_steps Release s v \<and> sys_mutex v = None \<and> (\<forall>u op'. sys_act s u = Waiting op' \<longrightarrow> sys_act v u = Waiting op') \<and>
    (op_allowed (sys_logs v) op \<longrightarrow> (\<exists>w. sys_steps Release v w \<and> sys_act w t = Idle \<and> sys_mutex w = None \<and>
      op_result Release op (sys_logs v) = Some (Inr (sys_logs w))))"
proof -
  from free_mutex [OF assms(1)] obtain v where v: "sys_steps Release s v" "sys_mutex v = None"
    "\<forall>u op'. sys_act s u = Waiting op' \<longrightarrow> sys_act v u = Waiting op'" by blast
  have "sys_act v t = Waiting op" using v(3) assms(2) by blast
  from waiter_served [OF sys_steps_reach [OF v(1) assms(1)] v(2) this] v show ?thesis by blast
qed

theorem logs_waiter_served_witness:
  "\<exists>v w. sys_steps Release (acting sys_init 1 (Waiting (Set_level root_context level_debug))) v \<and> sys_mutex v = None \<and>
    sys_steps Release v w \<and> sys_act w 1 = Idle \<and> sys_mutex w = None \<and>
    set_level Release root_context level_debug (sys_logs v) = Some (Inr (sys_logs w))"
proof -
  let ?op = "Set_level root_context level_debug"
  let ?s = "acting sys_init 1 (Waiting ?op)"
  have "sys_step Release sys_init ?s" by (rule sys_call) (simp add: sys_init_def)
  then have r: "sys_reach Release ?s" by (rule sys_reach_step [OF sys_reach_init])
  have w: "sys_act ?s 1 = Waiting ?op" by simp
  from logs_waiter_served [OF r w] obtain v where v: "sys_steps Release ?s v" "sys_mutex v = None"
    and served: "op_allowed (sys_logs v) ?op \<Longrightarrow> \<exists>w. sys_steps Release v w \<and> sys_act w 1 = Idle \<and>
      sys_mutex w = None \<and> op_result Release ?op (sys_logs v) = Some (Inr (sys_logs w))" by blast
  have "logs_reach Release (sys_logs v)"
    using sys_reach_ok [OF sys_steps_reach [OF v(1) r]] v(2) by (simp add: excludes_def)
  then have "root_context \<in> dom (contexts (sys_logs v))" using logs_reach_ok logs_ok_root by blast
  then show ?thesis using served v by auto
qed

end
