(* ===== verification/Logs_Path.thy ===== *)
theory Logs_Path
  imports Logs_Threads
begin

text \<open>
  The path of a context is read without the mutex, one pointer and one name after the other, while
  other threads construct and destroy contexts and pass levels on.  The functions of Logs_Output are
  repeated here with every load at a moment of its own.  As long as the context of the message is alive,
  what they compute is what the program without threads would compute from the first of these moments.
\<close>

section \<open>Loads at different moments\<close>

text \<open>\<open>\<sigma> t\<close> is the store the load number \<open>t\<close> meets; the functions return the number of the next load.\<close>

type_synonym moments = "nat \<Rightarrow> store"

(* logs/lib/logs.cpp 224-228: ctx_buf_size, its loads *)
partial_function (option) ctx_buf_size_at :: "moments \<Rightarrow> nat \<Rightarrow> ptr \<Rightarrow> nat \<Rightarrow> (nat \<times> nat) result option" where
  "ctx_buf_size_at \<sigma> t ctx counter =
     (if ctx = Some root_context then Some (Inr (0, t))
      else (case get_ctx (\<sigma> t) ctx of
        Inl e \<Rightarrow> Some (Inl e)
      | Inr c \<Rightarrow>
        if m_parent c = Some root_context
        then (case get_ctx (\<sigma> (t + 1)) ctx of
            Inl e \<Rightarrow> Some (Inl e)
          | Inr c1 \<Rightarrow> Some (Inr (counter + length (m_name c1), t + 2)))
        else (case get_ctx (\<sigma> (t + 1)) ctx of
            Inl e \<Rightarrow> Some (Inl e)
          | Inr c1 \<Rightarrow> (case get_ctx (\<sigma> (t + 2)) ctx of
              Inl e \<Rightarrow> Some (Inl e)
            | Inr c2 \<Rightarrow> ctx_buf_size_at \<sigma> (t + 3) (m_parent c1) (counter + length (m_name c2) + 1)))))"

(* logs/lib/logs.cpp 230-238: context_path_recurse, its loads *)
partial_function (option) context_path_recurse_at :: "moments \<Rightarrow> nat \<Rightarrow> ptr \<Rightarrow> string \<Rightarrow> (string \<times> nat) result option" where
  "context_path_recurse_at \<sigma> t ctx buf = (case get_ctx (\<sigma> t) ctx of
     Inl e \<Rightarrow> Some (Inl e)
   | Inr c \<Rightarrow>
     if m_parent c \<noteq> Some root_context
     then (case get_ctx (\<sigma> (t + 1)) ctx of
         Inl e \<Rightarrow> Some (Inl e)
       | Inr c1 \<Rightarrow> Option.bind (context_path_recurse_at \<sigma> (t + 2) (m_parent c1) buf) (\<lambda>r. case r of
           Inl e \<Rightarrow> Some (Inl e)
         | Inr s \<Rightarrow> (case get_ctx (\<sigma> (snd s)) ctx of
             Inl e \<Rightarrow> Some (Inl e)
           | Inr c2 \<Rightarrow> Some (Inr ((fst s @ [CHR ''.'']) @ m_name c2, snd s + 1)))))
     else (case get_ctx (\<sigma> (t + 1)) ctx of
         Inl e \<Rightarrow> Some (Inl e)
       | Inr c1 \<Rightarrow> Some (Inr (m_name c1, t + 2))))"

declare ctx_buf_size_at.simps [code] context_path_recurse_at.simps [code]

(* logs/lib/logs.cpp 240-245: context_path, its loads *)
definition context_path_at :: "moments \<Rightarrow> nat \<Rightarrow> nat \<Rightarrow> (string \<times> nat) result option" where
  "context_path_at \<sigma> t ctx = obind (ctx_buf_size_at \<sigma> t (Some ctx) 0) (\<lambda>s.
     context_path_recurse_at \<sigma> (snd s) (Some ctx) [])"

text \<open>The assertion of a debug build loads the parent first, then the name is tested.\<close>

(* logs/lib/logs.cpp 250-270: default_consumer_impl::operator(), its loads *)
definition default_consumer_at :: "build \<Rightarrow> bool \<Rightarrow> moments \<Rightarrow> nat \<Rightarrow> level \<Rightarrow> string \<Rightarrow> string result option" where
  "default_consumer_at b tty_output \<sigma> ctx lvl msg =
     obind (Some (if b = Debug \<and> ctx \<noteq> root_context
         then rbind (get_ctx (\<sigma> 0) (Some ctx)) (\<lambda>c. cassert b (m_parent c \<noteq> None)) else Inr ())) (\<lambda>_.
     obind (Some (rbind prefixes (\<lambda>p. ea_get (enum_index levels) p lvl))) (\<lambda>prefix.
     let buf = (if tty_output then color_on lvl else []) @ prefix in
     obind (Some (get_ctx (\<sigma> 1) (Some ctx))) (\<lambda>c.
     obind (if m_name c \<noteq> [] then
          obind (context_path_at \<sigma> 2 ctx) (\<lambda>path.
            Some (Inr ((((buf @ [CHR ''['']) @ fst path) @ [CHR '']'']) @ [CHR '' ''])))
        else Some (Inr buf)) (\<lambda>buf.
     let buf = buf @ msg;
         buf = (if tty_output then buf @ color_off lvl else buf) in
     Some (Inr (fputs_text (buf @ [CHR 0x0A])))))))"

section \<open>Stores that agree on a path\<close>

definition agrees :: "nat list \<Rightarrow> store \<Rightarrow> store \<Rightarrow> bool" where
  "agrees as m m' \<longleftrightarrow> (\<forall>a \<in> set as. \<exists>c c'. m a = Some c \<and> m' a = Some c' \<and>
     m_parent c' = m_parent c \<and> m_name c' = m_name c)"

lemma agrees_Cons:
  "agrees (a # as) m m' \<longleftrightarrow> (\<exists>c c'. m a = Some c \<and> m' a = Some c' \<and> m_parent c' = m_parent c \<and> m_name c' = m_name c) \<and>
    agrees as m m'"
  by (simp add: agrees_def)

lemma agrees_load:
  assumes "agrees (a # as) m (\<sigma> t)" and "m a = Some c"
  obtains c' where "get_ctx (\<sigma> t) (Some a) = Inr c'" "m_parent c' = m_parent c" "m_name c' = m_name c"
  using assms by (auto simp: agrees_Cons)

lemma agrees_trans: "agrees as m m' \<Longrightarrow> agrees as m' m'' \<Longrightarrow> agrees as m m''"
  by (induction as) (auto simp: agrees_def)

lemma agrees_upwards: "upwards m as \<Longrightarrow> agrees as m m' \<Longrightarrow> upwards m' as \<and> dotted m' as = dotted m as"
  by (induction m as rule: upwards.induct) (auto simp: agrees_Cons)

lemma ctx_buf_size_at_agrees:
  assumes "upwards m as" and "\<And>t. agrees as m (\<sigma> t)"
  shows "\<exists>t'. ctx_buf_size_at \<sigma> t (Some (hd as)) k = Some (Inr (k + length (dotted m as), t'))"
  using assms
proof (induction m as arbitrary: k t rule: upwards.induct)
  case (2 m a)
  then obtain c where c: "a \<noteq> root_context" "m a = Some c" "m_parent c = Some root_context" by auto
  obtain c0 where "get_ctx (\<sigma> t) (Some a) = Inr c0" "m_parent c0 = m_parent c" by (rule agrees_load [OF 2(2) c(2)])
  moreover obtain c1 where "get_ctx (\<sigma> (t + 1)) (Some a) = Inr c1" "m_name c1 = m_name c" by (rule agrees_load [OF 2(2) c(2)])
  ultimately show ?case using c by (simp add: ctx_buf_size_at.simps [of \<sigma> t "Some a"])
next
  case (3 m a b as)
  then obtain c where c: "a \<noteq> root_context" "m a = Some c" "m_parent c = Some b" "upwards m (b # as)" by auto
  have "b \<noteq> root_context" using c(4) by (rule upwards_not_root)
  have tail: "agrees (b # as) m (\<sigma> t)" for t using 3(3) [of t] by (simp add: agrees_Cons)
  obtain c0 where "get_ctx (\<sigma> t) (Some a) = Inr c0" "m_parent c0 = m_parent c" by (rule agrees_load [OF 3(3) c(2)])
  moreover obtain c1 where "get_ctx (\<sigma> (t + 1)) (Some a) = Inr c1" "m_parent c1 = m_parent c" by (rule agrees_load [OF 3(3) c(2)])
  moreover obtain c2 where "get_ctx (\<sigma> (t + 2)) (Some a) = Inr c2" "m_name c2 = m_name c" by (rule agrees_load [OF 3(3) c(2)])
  moreover obtain t' where "ctx_buf_size_at \<sigma> (t + 3) (Some b) (k + length (m_name c) + 1) =
      Some (Inr (k + length (m_name c) + 1 + length (dotted m (b # as)), t'))"
    using 3(1) [where t = "t + 3" and k = "k + length (m_name c) + 1"] c(4) tail by auto
  ultimately show ?case using c \<open>b \<noteq> root_context\<close>
    by (simp add: ctx_buf_size_at.simps [of \<sigma> t "Some a"])
qed simp

lemma context_path_recurse_at_agrees:
  assumes "upwards m as" and "\<And>t. agrees as m (\<sigma> t)"
  shows "\<exists>t'. context_path_recurse_at \<sigma> t (Some (hd as)) buf = Some (Inr (dotted m as, t'))"
  using assms
proof (induction m as arbitrary: t rule: upwards.induct)
  case (2 m a)
  then obtain c where c: "m a = Some c" "m_parent c = Some root_context" by auto
  obtain c0 where "get_ctx (\<sigma> t) (Some a) = Inr c0" "m_parent c0 = m_parent c" by (rule agrees_load [OF 2(2) c(1)])
  moreover obtain c1 where "get_ctx (\<sigma> (t + 1)) (Some a) = Inr c1" "m_name c1 = m_name c" by (rule agrees_load [OF 2(2) c(1)])
  ultimately show ?case using c by (simp add: context_path_recurse_at.simps [of \<sigma> t "Some a"])
next
  case (3 m a b as)
  then obtain c where c: "m a = Some c" "m_parent c = Some b" "upwards m (b # as)" by auto
  have "b \<noteq> root_context" using c(3) by (rule upwards_not_root)
  have tail: "agrees (b # as) m (\<sigma> t)" for t using 3(3) [of t] by (simp add: agrees_Cons)
  obtain c0 where "get_ctx (\<sigma> t) (Some a) = Inr c0" "m_parent c0 = m_parent c" by (rule agrees_load [OF 3(3) c(1)])
  moreover obtain c1 where "get_ctx (\<sigma> (t + 1)) (Some a) = Inr c1" "m_parent c1 = m_parent c" by (rule agrees_load [OF 3(3) c(1)])
  moreover obtain t' where "context_path_recurse_at \<sigma> (t + 2) (Some b) buf = Some (Inr (dotted m (b # as), t'))"
    using 3(1) [where t = "t + 2"] c(3) tail by auto
  moreover obtain c2 where "get_ctx (\<sigma> t') (Some a) = Inr c2" "m_name c2 = m_name c" by (rule agrees_load [OF 3(3) c(1)])
  ultimately show ?case using c \<open>b \<noteq> root_context\<close>
    by (simp add: context_path_recurse_at.simps [of \<sigma> t "Some a"])
qed simp

lemma context_path_at_agrees:
  assumes "upwards m (a # as)" and "\<And>t. agrees (a # as) m (\<sigma> t)"
  shows "\<exists>t'. context_path_at \<sigma> t a = Some (Inr (dotted m (a # as), t'))"
proof -
  obtain t1 where "ctx_buf_size_at \<sigma> t (Some a) 0 = Some (Inr (length (dotted m (a # as)), t1))"
    using ctx_buf_size_at_agrees [OF assms(1), of \<sigma> t 0] assms(2) by auto
  moreover obtain t' where "context_path_recurse_at \<sigma> t1 (Some a) [] = Some (Inr (dotted m (a # as), t'))"
    using context_path_recurse_at_agrees [OF assms(1), of \<sigma> t1] assms(2) by auto
  ultimately show ?thesis by (simp add: context_path_at_def)
qed

text \<open>The line is the same for a context below the root, and for the root, which has no name.\<close>

lemma default_consumer_at_agrees:
  assumes "upwards (contexts L) (ctx # as)" and "\<And>t. agrees (ctx # as) (contexts L) (\<sigma> t)"
  shows "\<exists>line. default_consumer_at b tty_output \<sigma> ctx lvl msg = Some (Inr line) \<and>
    default_consumer b tty_output L ctx lvl msg = Some (Inr line)"
proof -
  from assms(1) obtain c where c: "contexts L ctx = Some c" "m_parent c \<noteq> None" "ctx \<noteq> root_context"
    by (cases as) auto
  obtain c0 where c0: "get_ctx (\<sigma> 0) (Some ctx) = Inr c0" "m_parent c0 = m_parent c" by (rule agrees_load [OF assms(2) c(1)])
  obtain c1 where c1: "get_ctx (\<sigma> 1) (Some ctx) = Inr c1" "m_name c1 = m_name c" by (rule agrees_load [OF assms(2) c(1)])
  obtain t' where path: "context_path_at \<sigma> 2 ctx = Some (Inr (dotted (contexts L) (ctx # as), t'))"
    using context_path_at_agrees [OF assms(1), of \<sigma> 2] assms(2) by auto
  show ?thesis
    using c c0 c1 path context_path_upwards [OF assms(1)]
    by (simp add: default_consumer_at_def default_consumer_def prefix_lookup Let_def)
qed

lemma default_consumer_at_root:
  assumes "contexts L root_context = Some c" and "m_name c = []" and "\<sigma> 1 root_context = Some c1" and "m_name c1 = []"
  shows "\<exists>line. default_consumer_at b tty_output \<sigma> root_context lvl msg = Some (Inr line) \<and>
    default_consumer b tty_output L root_context lvl msg = Some (Inr line)"
  using assms by (simp add: default_consumer_at_def default_consumer_def prefix_lookup Let_def)

section \<open>What other threads leave alone\<close>

text \<open>The parents of every live context lead to the root, which has no name.\<close>

definition grounded :: "store \<Rightarrow> bool" where
  "grounded m \<longleftrightarrow> (\<exists>c. m root_context = Some c \<and> m_name c = []) \<and>
     (\<forall>a \<in> dom m. a \<noteq> root_context \<longrightarrow> (\<exists>as. upwards m (a # as)))"

lemma keeps_paths_refl: "keeps_paths m m"
  by (simp add: keeps_paths_def)

text \<open>The three parts of \<open>keeps_paths\<close>.\<close>

lemma keeps_paths_same:
  assumes "keeps_paths m m'" and "m a = Some c" and "m' a = Some c'"
  shows "m_parent c' = m_parent c" and "m_name c' = m_name c"
  using assms unfolding keeps_paths_def by blast+

lemma keeps_paths_stays:
  assumes "keeps_paths m m'" and "a \<in> dom m" and "a = root_context \<or> parent_of m x = Some a"
  shows "a \<in> dom m'"
proof (rule ccontr)
  assume "a \<notin> dom m'"
  with assms(2) have "a \<in> dom m - dom m'" by (rule DiffI)
  moreover have "\<forall>a \<in> dom m - dom m'. a \<noteq> root_context \<and> (\<forall>x. parent_of m x \<noteq> Some a)"
    using assms(1) unfolding keeps_paths_def by (elim conjE)
  ultimately show False using assms(3) by simp
qed

lemma keeps_paths_new:
  assumes "keeps_paths m m'" and "a \<in> dom m'" and "a \<notin> dom m"
  obtains p where "p \<in> dom m" "p \<in> dom m'" "parent_of m' a = Some p"
proof -
  have "\<forall>a \<in> dom m' - dom m. a \<noteq> root_context \<and> (\<exists>p \<in> dom m \<inter> dom m'. parent_of m' a = Some p)"
    using assms(1) unfolding keeps_paths_def by (elim conjE)
  moreover have "a \<in> dom m' - dom m" using assms(2,3) by (rule DiffI)
  ultimately show thesis using that by blast
qed

lemma keeps_paths_agrees:
  assumes "keeps_paths m m'" and "upwards m as" and "hd as \<in> dom m'"
  shows "agrees as m m'"
  using assms
proof (induction m as rule: upwards.induct)
  case (2 m a)
  then obtain c c' where "m a = Some c" "m' a = Some c'" by auto
  then show ?case using keeps_paths_same [OF 2(1), of a c c'] by (intro iffD2 [OF agrees_Cons]) (simp add: agrees_def)
next
  case (3 m a b as)
  then obtain c c' where c: "m a = Some c" "m_parent c = Some b" "m' a = Some c'" and up: "upwards m (b # as)" by auto
  have "b \<in> dom m" using up by (cases as) auto
  moreover have "parent_of m a = Some b" using c by (simp add: parent_of_def)
  ultimately have "b \<in> dom m'" using keeps_paths_stays [OF 3(2)] by blast
  then have "agrees (b # as) m m'" using 3(1) [OF 3(2) up] by simp
  then show ?case using c keeps_paths_same [OF 3(2) c(1,3)] by (simp add: agrees_Cons)
qed simp

lemma keeps_paths_root:
  assumes "keeps_paths m m'" and "m root_context = Some c" and "m_name c = []"
  shows "\<exists>c'. m' root_context = Some c' \<and> m_name c' = []"
proof -
  have "root_context \<in> dom m'" using keeps_paths_stays [OF assms(1), of root_context] assms(2) by blast
  then obtain c' where "m' root_context = Some c'" by blast
  with keeps_paths_same(2) [OF assms(1,2) this] assms(3) show ?thesis by (intro exI [of _ c']) simp
qed

lemma keeps_paths_grounded:
  assumes "keeps_paths m m'" and "grounded m"
  shows "grounded m'"
proof -
  have old: "\<exists>as. upwards m' (a # as)" if a: "a \<in> dom m" "a \<in> dom m'" "a \<noteq> root_context" for a
  proof -
    from assms(2) a obtain as where as: "upwards m (a # as)" unfolding grounded_def by blast
    have "agrees (a # as) m m'" by (rule keeps_paths_agrees [OF assms(1) as]) (simp add: a(2))
    from agrees_upwards [OF as this] show ?thesis by blast
  qed
  have "\<exists>as. upwards m' (a # as)" if a: "a \<in> dom m'" "a \<noteq> root_context" for a
  proof (cases "a \<in> dom m")
    case True
    then show ?thesis using old a by blast
  next
    case False
    obtain p where p: "p \<in> dom m" "p \<in> dom m'" "parent_of m' a = Some p"
      by (rule keeps_paths_new [OF assms(1) a(1) False])
    from p(3) obtain c where c: "m' a = Some c" "m_parent c = Some p" by (auto simp: parent_of_def split: option.splits)
    show ?thesis
    proof (cases "p = root_context")
      case True
      then have "upwards m' [a]" using c a(2) by simp
      then show ?thesis by blast
    next
      case False
      then obtain as where "upwards m' (p # as)" using old p by blast
      then have "upwards m' (a # p # as)" using c a(2) by simp
      then show ?thesis by blast
    qed
  qed
  moreover have "\<exists>c. m' root_context = Some c \<and> m_name c = []"
    using assms(2) keeps_paths_root [OF assms(1)] unfolding grounded_def by blast
  ultimately show ?thesis unfolding grounded_def by blast
qed

lemma sys_step_keeps_paths:
  "sys_step b s s' \<Longrightarrow> excludes b s \<Longrightarrow> keeps_paths (contexts (sys_logs s)) (contexts (sys_logs s'))"
proof (induction rule: sys_step.induct)
  case (sys_write s t L ls)
  then show ?case by (auto simp: excludes_def keeps_reads_def split: option.splits)
qed (simp_all add: keeps_paths_refl)

lemma sys_reach_grounded: "sys_reach b s \<Longrightarrow> grounded (contexts (sys_logs s))"
proof (induction rule: sys_reach.induct)
  case sys_reach_init
  then show ?case by (auto simp: sys_init_def logs_init_def grounded_def root_ctx_def)
next
  case (sys_reach_step s s')
  have "excludes b s" using sys_reach_ok [OF sys_reach_step.hyps(1)] by blast
  then show ?case using sys_step_keeps_paths [OF sys_reach_step.hyps(2)] keeps_paths_grounded sys_reach_step.IH by blast
qed

section \<open>Runs during a message\<close>

text \<open>Steps of the threads that leave a context alive.\<close>

definition steps_alive :: "build \<Rightarrow> nat \<Rightarrow> system \<Rightarrow> system \<Rightarrow> bool" where
  "steps_alive b ctx = (\<lambda>s s'. sys_step b s s' \<and> ctx \<in> dom (contexts (sys_logs s')))\<^sup>*\<^sup>*"

lemma steps_alive_keeps:
  assumes "steps_alive b ctx s s'" and "sys_reach b s" and "ctx \<in> dom (contexts (sys_logs s))"
  shows "sys_reach b s' \<and> ctx \<in> dom (contexts (sys_logs s')) \<and>
    (\<forall>as. upwards (contexts (sys_logs s)) (ctx # as) \<longrightarrow> agrees (ctx # as) (contexts (sys_logs s)) (contexts (sys_logs s')))"
  using assms(1) unfolding steps_alive_def
proof (induction rule: rtranclp_induct)
  case base
  have "agrees (ctx # as) m m" if "upwards m (ctx # as)" and "ctx \<in> dom m" for as m
    by (rule keeps_paths_agrees [OF keeps_paths_refl that(1)]) (simp add: that(2))
  then show ?case using assms(2,3) by blast
next
  case (step s1 s2)
  let ?m = "\<lambda>s. contexts (sys_logs s)"
  have k: "keeps_paths (?m s1) (?m s2)"
    using sys_step_keeps_paths sys_reach_ok step by blast
  have "agrees (ctx # as) (?m s) (?m s2)" if up: "upwards (?m s) (ctx # as)" for as
  proof -
    have a: "agrees (ctx # as) (?m s) (?m s1)" using step.IH up by blast
    then have "upwards (?m s1) (ctx # as)" using agrees_upwards [OF up] by blast
    then have "agrees (ctx # as) (?m s1) (?m s2)" by (rule keeps_paths_agrees [OF k]) (use step.hyps(2) in simp)
    with a show ?thesis by (rule agrees_trans)
  qed
  then show ?case using step sys_reach_step by blast
qed

lemma run_alive:
  assumes "sys_reach b (run 0)" and "ctx \<in> dom (contexts (sys_logs (run 0)))"
    and "\<And>i. steps_alive b ctx (run i) (run (Suc i))"
  shows "steps_alive b ctx (run 0) (run t)"
proof (induction t)
  case 0
  show ?case by (simp add: steps_alive_def)
next
  case (Suc t)
  then show ?case using assms(3) [of t] unfolding steps_alive_def by (rule rtranclp_trans)
qed

section \<open>Properties\<close>

text \<open>C5. The line of a message is made without the mutex.  Let other threads construct and destroy contexts
  and set levels between any two loads, also in the middle of an operation.  As long as they leave the
  context of the message alive, and destroy a context only once no context has it as its parent, so that every
  context above the one of the message stays alive too, the consumer returns, its assertion holds, and the line is
  the one it makes of the state at the start.\<close>

theorem log_line_lock_free:
  assumes "sys_reach b (run 0)" and "ctx \<in> dom (contexts (sys_logs (run 0)))"
    and "\<And>i. steps_alive b ctx (run i) (run (Suc i))"
  shows "\<exists>line. default_consumer_at b tty_output (\<lambda>i. contexts (sys_logs (run i))) ctx lvl msg = Some (Inr line) \<and>
    default_consumer b tty_output (sys_logs (run 0)) ctx lvl msg = Some (Inr line)"
proof -
  let ?m = "\<lambda>i. contexts (sys_logs (run i))"
  have keeps: "sys_reach b (run i) \<and> (\<forall>as. upwards (?m 0) (ctx # as) \<longrightarrow> agrees (ctx # as) (?m 0) (?m i))" for i
    using steps_alive_keeps [OF run_alive [OF assms] assms(1,2)] by blast
  have grounded: "grounded (?m i)" for i using sys_reach_grounded keeps by blast
  show ?thesis
  proof (cases "ctx = root_context")
    case True
    obtain c where c: "?m 0 root_context = Some c" "m_name c = []" using grounded unfolding grounded_def by blast
    obtain c1 where c1: "?m 1 root_context = Some c1" "m_name c1 = []" using grounded unfolding grounded_def by blast
    show ?thesis unfolding True
      by (rule default_consumer_at_root [where \<sigma> = ?m and L = "sys_logs (run 0)", OF c c1])
  next
    case False
    then obtain as where as: "upwards (?m 0) (ctx # as)" using grounded assms(2) unfolding grounded_def by blast
    show ?thesis by (rule default_consumer_at_agrees [OF as]) (use keeps as in blast)
  qed
qed

lemma step_alive:
  "steps_alive b ctx s s1 \<Longrightarrow> sys_step b s1 s' \<Longrightarrow> ctx \<in> dom (contexts (sys_logs s')) \<Longrightarrow> steps_alive b ctx s s'"
  unfolding steps_alive_def by (rule rtranclp.rtrancl_into_rtrancl) simp_all

lemma construct_alive:
  assumes "sys_reach Release s" and "sys_mutex s = None" and "sys_act s t = Idle"
    and "parent \<in> dom (contexts (sys_logs s))" and "this \<notin> dom (contexts (sys_logs s))"
  shows "\<exists>w. (\<forall>ctx \<in> dom (contexts (sys_logs s)). steps_alive Release ctx s w) \<and> sys_mutex w = None \<and>
    sys_act w t = Idle \<and> dom (contexts (sys_logs w)) = insert this (dom (contexts (sys_logs s)))"
proof -
  let ?op = "Construct parent name this"
  have r: "logs_reach Release (sys_logs s)" using sys_reach_ok [OF assms(1)] assms(2) by (simp add: excludes_def)
  have ok: "logs_ok (sys_logs s)" using logs_reach_ok [OF r] by blast
  from ctx_ctor_ok [OF ok assms(5,4), of Release name] obtain L where
    L: "ctx_ctor Release parent name this (sys_logs s) = Some (Inr L)"
      "dom (contexts L) = insert this (dom (contexts (sys_logs s)))" by blast
  define s1 where "s1 = acting s t (Waiting ?op)"
  define s2 where "s2 = acting (s1\<lparr>sys_mutex := Some t\<rparr>) t (Inside [L])"
  define s3 where "s3 = s2\<lparr>sys_logs := L, sys_act := (\<lambda>u. notice L (sys_act s2 u))(t := Inside [])\<rparr>"
  define s4 where "s4 = acting (s3\<lparr>sys_mutex := None\<rparr>) t Idle"
  have "sys_step Release s s1" unfolding s1_def by (rule sys_call) (rule assms(3))
  moreover have "sys_step Release s1 s2" unfolding s2_def
    by (rule sys_enter [where op = ?op]) (use assms L in \<open>simp_all add: s1_def\<close>)
  moreover have "sys_step Release s2 s3" unfolding s3_def by (rule sys_write) (simp add: s2_def)
  moreover have "sys_step Release s3 s4" unfolding s4_def by (rule sys_leave) (simp_all add: s3_def s2_def)
  moreover have logs: "sys_logs s1 = sys_logs s" "sys_logs s2 = sys_logs s" "sys_logs s3 = L" "sys_logs s4 = L"
    by (simp_all add: s1_def s2_def s3_def s4_def)
  ultimately have "steps_alive Release ctx s s4" if "ctx \<in> dom (contexts (sys_logs s))" for ctx
  proof -
    have "steps_alive Release ctx s s" by (simp add: steps_alive_def)
    from step_alive [OF this \<open>sys_step Release s s1\<close>] have "steps_alive Release ctx s s1" using that logs by simp
    from step_alive [OF this \<open>sys_step Release s1 s2\<close>] have "steps_alive Release ctx s s2" using that logs by simp
    from step_alive [OF this \<open>sys_step Release s2 s3\<close>] have "steps_alive Release ctx s s3"
      unfolding logs L(2) using that by simp
    from step_alive [OF this \<open>sys_step Release s3 s4\<close>] show ?thesis unfolding logs L(2) using that by simp
  qed
  then show ?thesis using L(2) by (intro exI [of _ s4]) (simp add: s4_def s3_def)
qed

text \<open>A thread constructs a context while another one's message is on its way.\<close>

theorem log_line_lock_free_witness:
  "\<exists>run :: nat \<Rightarrow> system. 8 \<notin> dom (contexts (sys_logs (run 0))) \<and> 8 \<in> dom (contexts (sys_logs (run (Suc 0)))) \<and>
    (\<exists>line. default_consumer_at Release False (\<lambda>i. contexts (sys_logs (run i))) 7 level_info ''hi'' = Some (Inr line) \<and>
      default_consumer Release False (sys_logs (run 0)) 7 level_info ''hi'' = Some (Inr line))"
proof -
  have d0: "dom (contexts (sys_logs sys_init)) = {root_context}" by (simp add: sys_init_def logs_init_def)
  have new: "7 \<notin> {root_context}" "8 \<notin> insert 7 {root_context}" by (simp_all add: root_context_def)
  obtain v where v: "steps_alive Release root_context sys_init v" "sys_mutex v = None" "sys_act v 1 = Idle"
    "dom (contexts (sys_logs v)) = insert 7 {root_context}"
    using construct_alive [OF sys_reach_init, of 1 root_context 7] d0 new(1) by (auto simp: sys_init_def)
  have rv: "sys_reach Release v" using steps_alive_keeps [OF v(1) sys_reach_init] d0 by blast
  obtain w where w: "steps_alive Release 7 v w" "dom (contexts (sys_logs w)) = insert 8 (insert 7 {root_context})"
    using construct_alive [OF rv v(2,3), of 7 8] v(4) new(2) by auto
  define run where "run = (\<lambda>i :: nat. if i = 0 then v else w)"
  have alive: "steps_alive Release 7 (run i) (run (Suc i))" for i
    using w(1) by (cases i) (simp_all add: run_def, simp add: steps_alive_def)
  have "\<exists>line. default_consumer_at Release False (\<lambda>i. contexts (sys_logs (run i))) 7 level_info ''hi'' = Some (Inr line) \<and>
      default_consumer Release False (sys_logs (run 0)) 7 level_info ''hi'' = Some (Inr line)"
    by (rule log_line_lock_free [where run = run and b = Release and ctx = 7]) (use rv v(4) alive in \<open>simp_all add: run_def\<close>)
  moreover have "8 \<notin> dom (contexts (sys_logs (run 0)))" using v(4) new(2) by (simp add: run_def)
  moreover have "8 \<in> dom (contexts (sys_logs (run (Suc 0))))" using w(2) by (simp add: run_def)
  ultimately show ?thesis by blast
qed

end
