(* ===== verification/Logs_Orphans.thy ===== *)
theory Logs_Orphans
  imports Logs_Output
begin

text \<open>
  Contexts that outlive their parents.  \<open>logs.hpp\<close> allows it for contexts of static storage, as long as they are
  not used for logging any more, and says that assertions forbid that.  The theory shows which uses
  the assertion of the default consumer catches.
\<close>

text \<open>\<open>below m p as\<close>: the contexts from one of them up to one whose parent pointer is \<open>p\<close>.\<close>

fun below :: "store \<Rightarrow> ptr \<Rightarrow> nat list \<Rightarrow> bool" where
  "below m p [] \<longleftrightarrow> False"
| "below m p [a] \<longleftrightarrow> a \<noteq> root_context \<and> (\<exists>c. m a = Some c \<and> m_parent c = p)"
| "below m p (a # b # as) \<longleftrightarrow> a \<noteq> root_context \<and> (\<exists>c. m a = Some c \<and> m_parent c = Some b) \<and> below m p (b # as)"

lemma below_hd: "below m p (a # as) \<Longrightarrow> a \<noteq> root_context"
  by (cases as) auto

text \<open>The walk up to the root follows the dangling or null pointer.\<close>

lemma ctx_buf_size_below:
  assumes "get_ctx m p = Inl Undefined" and "p \<noteq> Some root_context"
  shows "below m p as \<Longrightarrow> ctx_buf_size m (Some (hd as)) k = Some (Inl Undefined)"
  using assms
proof (induction m p as arbitrary: k rule: below.induct)
  case (2 m p a)
  have "ctx_buf_size m p n = Some (Inl Undefined)" for n
    using 2(2,3) by (simp add: ctx_buf_size.simps [of m p])
  then show ?case using 2 by (auto simp: ctx_buf_size.simps [of m "Some a"])
next
  case (3 m p a b as)
  then obtain c where c: "m a = Some c" "m_parent c = Some b" "a \<noteq> root_context" "below m p (b # as)" by auto
  then have "b \<noteq> root_context" by (blast dest: below_hd)
  with c 3 show ?case by (simp add: ctx_buf_size.simps [of m "Some a"])
qed simp

lemma below_orphaned:
  assumes "below m (Some this) as" and "this \<notin> set as"
    and "\<And>a. a \<in> set as \<Longrightarrow> payload m' a = payload (orphaned b this m) a"
  shows "below m' (if b = Debug then None else Some this) as"
  using assms
proof (induction m "Some this" as rule: below.induct)
  case (2 m a)
  then obtain c where c: "m a = Some c" "m_parent c = Some this" by auto
  have "orphaned b this m a = Some ((if b = Debug then unparented this else id) c)" using c(1) by simp
  from payload_fun_at [OF 2(3) [of a, symmetric] this] obtain c' where
    "m' a = Some c'" "m_parent c' = m_parent ((if b = Debug then unparented this else id) c)" by auto
  then show ?case using 2(1) c by (simp add: orphaned_fields)
next
  case (3 m a d as)
  then obtain c where c: "m a = Some c" "m_parent c = Some d" "d \<noteq> this" by auto
  have "orphaned b this m a = Some ((if b = Debug then unparented this else id) c)" using c(1) by simp
  from payload_fun_at [OF 3(4) [of a, symmetric] this] obtain c' where
    "m' a = Some c'" "m_parent c' = m_parent ((if b = Debug then unparented this else id) c)" by auto
  then have "\<exists>c'. m' a = Some c' \<and> m_parent c' = Some d" using c by (simp add: orphaned_fields)
  then show ?case using 3 by auto
qed simp

text \<open>C35. Logging with a context after one above it was destroyed: in a debug build the assertion of the
  default consumer stops the program when the context was a child of the destroyed one; a context
  further below passes the assertion, and reading the path then follows the child's null parent.  A release build
  follows the dangling pointer in either case.\<close>

theorem orphan_logging:
  assumes "linked (contexts L) (A @ this # B)" and "this \<noteq> root_context"
    and "below (contexts L) (Some this) (ctx # as)" and "set (ctx # as) \<subseteq> set (A @ B)"
    and "contexts L ctx = Some c" and "m_name c \<noteq> []" and "effective_level c \<le> lvl"
  shows "\<exists>L'. ctx_dtor b this L = Some (Inr L') \<and>
    upp_log (Some (default_consumer b tty_output)) L' ctx lvl msg =
      Some (Inl (if b = Debug \<and> as = [] then Assertion else Undefined))"
proof -
  let ?p = "if b = Debug then None else Some this"
  from ctx_dtor_spec [OF assms(1,2), of b] obtain L' where L': "ctx_dtor b this L = Some (Inr L')"
      "contexts L' this = None"
    and pay: "\<And>a. a \<in> set (A @ B) \<Longrightarrow> payload (contexts L') a = payload (orphaned b this (contexts L)) a" by blast
  have "this \<notin> set (A @ B)" using assms(1) by (auto simp: linked_def)
  then have bel: "below (contexts L') ?p (ctx # as)"
    by (intro below_orphaned [OF assms(3)]) (use assms(4) pay in auto)
  have "orphaned b this (contexts L) ctx = Some ((if b = Debug then unparented this else id) c)" using assms(5) by simp
  from payload_fun_at [OF pay [of ctx, symmetric] this] assms(4) obtain c' where
    c': "contexts L' ctx = Some c'" "m_lvl c' = m_lvl c" "m_inherited_level c' = m_inherited_level c" "m_name c' = m_name c"
    unfolding orphaned_fields by auto
  have "effective_level c' = effective_level c" using c' by (simp add: effective_level_def)
  then have on: "logs_at L' ctx lvl = Inr True" using c'(1) assms(7) by (simp add: logs_at_def)
  have "get_ctx (contexts L') ?p = Inl Undefined" "?p \<noteq> Some root_context"
    using L'(2) assms(2) by (auto simp: get_ctx_def)
  from ctx_buf_size_below [OF this bel, of 0] have path: "context_path (contexts L') ctx = Some (Inl Undefined)"
    by (simp add: context_path_def)
  have "m_parent c' \<noteq> None \<longleftrightarrow> \<not> (b = Debug \<and> as = [])"
    using bel c'(1) by (cases as) auto
  moreover have "ctx \<noteq> root_context" using bel by (rule below_hd)
  ultimately have "default_consumer b tty_output L' ctx lvl msg =
      Some (Inl (if b = Debug \<and> as = [] then Assertion else Undefined))"
    using c' assms(6) path by (auto simp: default_consumer_def prefix_lookup Let_def cassert_def)
  then show ?thesis using L'(1) on by (simp add: upp_log_def push_log_def)
qed

theorem orphan_logging_witness:
  "\<exists>L L'. linked (contexts L) [root_context, 7, 8, 9] \<and> ctx_dtor Debug 7 L = Some (Inr L') \<and>
    upp_log (Some (default_consumer Debug False)) L' 8 level_error ''late'' = Some (Inl Assertion) \<and>
    upp_log (Some (default_consumer Debug False)) L' 9 level_error ''late'' = Some (Inl Undefined)"
proof -
  let ?c = "\<lambda>p n l. \<lparr>m_parent = Some p, m_next = n, m_prev = Some l, m_lvl = level_info,
    m_inherited_level = level_unset, m_name = ''x''\<rparr>"
  let ?L = "\<lparr>contexts = [root_context \<mapsto> root_ctx\<lparr>m_next := Some 7\<rparr>, 7 \<mapsto> ?c root_context (Some 8) root_context,
    8 \<mapsto> ?c 7 (Some 9) 7, 9 \<mapsto> ?c 8 None 8], g_organized = True\<rparr>"
  have l: "linked (contexts ?L) ([root_context] @ 7 # [8, 9])"
    by (simp add: linked_def root_ctx_def root_context_def)
  have r: "(7 :: nat) \<noteq> root_context" by (simp add: root_context_def)
  have b: "below (contexts ?L) (Some 7) [8]" "below (contexts ?L) (Some 7) [9, 8]"
    by (simp_all add: root_context_def)
  have e: "effective_level (?c p n q) \<le> level_error" for p n q
    by (simp add: effective_level_def less_eq_level_def)
  have c: "contexts ?L 8 = Some (?c 7 (Some 9) 7)" "contexts ?L 9 = Some (?c 8 None 8)" by simp_all
  from orphan_logging [OF l r b(1) _ c(1) _ e, of Debug False "''late''"] obtain L1 where
    L1: "ctx_dtor Debug 7 ?L = Some (Inr L1)"
      "upp_log (Some (default_consumer Debug False)) L1 8 level_error ''late'' = Some (Inl Assertion)" by auto
  from orphan_logging [OF l r b(2) _ c(2) _ e, of Debug False "''late''"] obtain L2 where
    L2: "ctx_dtor Debug 7 ?L = Some (Inr L2)"
      "upp_log (Some (default_consumer Debug False)) L2 9 level_error ''late'' = Some (Inl Undefined)" by auto
  from L1 L2 have "L2 = L1" by simp
  with l L1 L2 show ?thesis by (intro exI [of _ ?L] exI [of _ L1]) simp
qed

end
