(* ===== verification/Matrix.thy ===== *)
theory Matrix
  imports Prelude "HOL-Library.Code_Target_Numeral"
begin

text \<open>
  Dense matrices, \<open>math/include/upp/math/detail\<close>: \<open>mat\<close> with its storage on the heap, \<open>static_mat\<close>
  with an array, and the arithmetic operators, which are written once for every type that satisfies
  the concept \<open>matrixlike\<close>.  The concept is a locale here and both matrix types interpret it.  The
  elements are from a semiring, such as the words of an unsigned integer type; \<open>size_t\<close> has 64 bits.
\<close>

section \<open>The concept\<close>

(* math/include/upp/math/detail/traits.hpp 11-19: matrixlike *)
record ('m, 'a) matrix_ops =
  op_height :: "'m \<Rightarrow> nat"
  op_width :: "'m \<Rightarrow> nat"
  op_get :: "'m \<Rightarrow> nat \<Rightarrow> nat \<Rightarrow> 'a result"
  op_put :: "'m \<Rightarrow> nat \<Rightarrow> nat \<Rightarrow> 'a \<Rightarrow> 'm result"

(* math/include/upp/math/detail/traits.hpp 21-34: flatten_index *)
definition flatten_index :: "nat \<Rightarrow> nat \<Rightarrow> nat \<Rightarrow> nat" where
  "flatten_index w i j = (w * i + j) mod 2 ^ 64"

section \<open>Dense matrices\<close>

(* math/include/upp/math/detail/mat.hpp 14-22: mat_store *)
record 'a mat_store =
  ms_h :: nat
  ms_w :: nat
  ms_data :: "'a list"

(* math/include/upp/math/detail/mat.hpp 36-47: make_mat_store *)
definition make_mat_store :: "nat \<Rightarrow> nat \<Rightarrow> 'a::zero mat_store" where
  "make_mat_store h w = \<lparr>ms_h = h, ms_w = w, ms_data = replicate ((h * w) mod 2 ^ 64) 0\<rparr>"

(* math/include/upp/math/detail/mat.hpp 102-110: mat::zeros *)
definition mat_zeros :: "nat \<Rightarrow> nat \<Rightarrow> 'a::zero mat_store" where
  "mat_zeros h w = make_mat_store h w"

(* math/include/upp/math/detail/mat.hpp 112-124: mat::eye *)
definition mat_eye :: "nat \<Rightarrow> nat \<Rightarrow> 'a::zero_neq_one mat_store result" where
  "mat_eye h w = rfold (\<lambda>i s.
     rbind (write_at (ms_data s) (flatten_index w i i) 1) (\<lambda>d. Inr (s\<lparr>ms_data := d\<rparr>)))
     [0..<min h w] (make_mat_store h w)"

definition in_range :: "build \<Rightarrow> nat \<Rightarrow> nat \<Rightarrow> nat \<Rightarrow> nat \<Rightarrow> unit result" where
  "in_range b h w i j = rbind (cassert b (i < h)) (\<lambda>_. cassert b (j < w))"

(* math/include/upp/math/detail/mat.hpp 148-160: mat::operator[] *)
definition mat_get :: "build \<Rightarrow> 'a mat_store \<Rightarrow> nat \<Rightarrow> nat \<Rightarrow> 'a result" where
  "mat_get b m i j = rbind (in_range b (ms_h m) (ms_w m) i j) (\<lambda>_.
     read_at (ms_data m) (flatten_index (ms_w m) i j))"

definition mat_put :: "build \<Rightarrow> 'a mat_store \<Rightarrow> nat \<Rightarrow> nat \<Rightarrow> 'a \<Rightarrow> 'a mat_store result" where
  "mat_put b m i j x = rbind (in_range b (ms_h m) (ms_w m) i j) (\<lambda>_.
     rbind (write_at (ms_data m) (flatten_index (ms_w m) i j) x) (\<lambda>d. Inr (m\<lparr>ms_data := d\<rparr>)))"

text \<open>A \<open>mat\<close> owns its storage; it has none once it has been moved from.  Copies do not
  compile: \<open>cpy_mat_store\<close> asks for the \<open>data\<close> of a constant storage, which makes a \<open>span<T>\<close> of a \<open>const T*\<close>.\<close>

type_synonym 'a mat = "'a mat_store option"

(* math/include/upp/math/detail/mat.hpp 97-97: mat(mat&&) *)
definition mat_move_ctor :: "'a mat \<Rightarrow> 'a mat \<times> 'a mat" where
  "mat_move_ctor other = (other, None)"

text \<open>The target's old storage is released; assigning to itself changes nothing.\<close>

(* math/include/upp/math/detail/mat.hpp 98-98: operator=(mat&&) *)
definition mat_move_assign :: "bool \<Rightarrow> 'a mat \<Rightarrow> 'a mat \<Rightarrow> 'a mat \<times> 'a mat" where
  "mat_move_assign same this other = (if same then (this, this) else (other, None))"

text \<open>The deleter of the storage destroys the elements and hands the storage back; what remains are its
  slots at that moment.\<close>

(* math/include/upp/math/detail/mat.hpp 24-31: mat_store_deleter *)
definition mat_delete :: "nat \<Rightarrow> nat \<Rightarrow> 'a option list \<Rightarrow> 'a option list result" where
  "mat_delete h w slots = rfold (\<lambda>i s. destroy_slot s i) [0..<(h * w) mod 2 ^ 64] slots"

text \<open>No element is left behind, and none is destroyed twice.\<close>

lemma mat_delete_all:
  assumes "length xs = (h * w) mod 2 ^ 64"
  shows "mat_delete h w (map Some xs) = Inr (replicate (length xs) None)"
proof -
  let ?P = "\<lambda>k s. s = replicate k None @ map Some (drop k xs)"
  have "\<exists>s. rfold (\<lambda>i s. destroy_slot s i) [0..<length xs] (map Some xs) = Inr s \<and> ?P (length xs) s"
  proof (rule rfold_upt_invariant)
    fix k s assume k: "k < length xs" and s: "s = replicate k None @ map Some (drop k xs)"
    have "drop k xs = xs ! k # drop (Suc k) xs" using k by (rule Cons_nth_drop_Suc [symmetric])
    then have "destroy_slot s k = Inr (replicate k None @ None # map Some (drop (Suc k) xs))"
      using s by (simp add: destroy_slot_def live_at_def list_update_append nth_append)
    then show "\<exists>s'. destroy_slot s k = Inr s' \<and> s' = replicate (Suc k) None @ map Some (drop (Suc k) xs)"
      by (simp add: replicate_append_same)
  qed simp_all
  then show ?thesis using assms by (simp add: mat_delete_def)
qed

(* math/include/upp/math/detail/mat.hpp 138-146: mat::dims *)
definition mat_dims :: "'a mat_store \<Rightarrow> nat \<times> nat" where
  "mat_dims m = (ms_h m, ms_w m)"

(* math/include/upp/math/detail/mat.hpp 126-130: mat::height, mat::width *)
definition mat_ops :: "build \<Rightarrow> ('a mat_store, 'a) matrix_ops" where
  "mat_ops b = \<lparr>op_height = ms_h, op_width = ms_w, op_get = mat_get b, op_put = mat_put b\<rparr>"

section \<open>Static matrices\<close>

text \<open>The dimensions are template arguments.\<close>

(* math/include/upp/math/detail/static_mat.hpp 21-26: static_mat *)
definition static_new :: "nat \<Rightarrow> nat \<Rightarrow> 'a::zero list" where
  "static_new H W = replicate (H * W) 0"

(* math/include/upp/math/detail/static_mat.hpp 35-35: static_mat::zeros *)
definition static_zeros :: "nat \<Rightarrow> nat \<Rightarrow> 'a::zero list" where
  "static_zeros H W = static_new H W"

(* math/include/upp/math/detail/static_mat.hpp 43-55: static_mat::operator[] *)
definition static_get :: "build \<Rightarrow> nat \<Rightarrow> nat \<Rightarrow> 'a list \<Rightarrow> nat \<Rightarrow> nat \<Rightarrow> 'a result" where
  "static_get b H W m i j = rbind (in_range b H W i j) (\<lambda>_. read_at m (flatten_index W i j))"

definition static_put :: "build \<Rightarrow> nat \<Rightarrow> nat \<Rightarrow> 'a list \<Rightarrow> nat \<Rightarrow> nat \<Rightarrow> 'a \<Rightarrow> 'a list result" where
  "static_put b H W m i j x = rbind (in_range b H W i j) (\<lambda>_. write_at m (flatten_index W i j) x)"

(* math/include/upp/math/detail/static_mat.hpp 37-41: static_mat::eye *)
definition static_eye :: "build \<Rightarrow> nat \<Rightarrow> nat \<Rightarrow> 'a::zero_neq_one list result" where
  "static_eye b H W = rfold (\<lambda>i m. static_put b H W m i i 1) [0..<min H W] (static_new H W)"

(* math/include/upp/math/detail/static_mat.hpp 67-68: static_mat::height, static_mat::width *)
definition static_ops :: "build \<Rightarrow> nat \<Rightarrow> nat \<Rightarrow> ('a list, 'a) matrix_ops" where
  "static_ops b H W = \<lparr>op_height = \<lambda>m. H, op_width = \<lambda>m. W, op_get = static_get b H W,
     op_put = static_put b H W\<rparr>"

section \<open>Operators\<close>

text \<open>The dimensions of a type that are known to the compiler, checked by a \<open>static_assert\<close>.\<close>

(* math/include/upp/math/detail/traits.hpp 9-9: dynamic *)
definition dynamic :: nat where
  "dynamic = 2 ^ 64 - 1"

(* math/include/upp/math/detail/operations.hpp 9-12: dimension_match *)
definition dimension_match :: "nat \<Rightarrow> nat \<Rightarrow> bool" where
  "dimension_match a b = (if a = dynamic \<or> b = dynamic then True else a = b)"

(* math/include/upp/math/detail/operations.hpp 14-18: static_dimensions_match *)
definition static_dimensions_match :: "nat \<times> nat \<Rightarrow> nat \<times> nat \<Rightarrow> bool" where
  "static_dimensions_match t u = (dimension_match (fst t) (fst u) \<and> dimension_match (snd t) (snd u))"

text \<open>The check at compile time rejects no operands that pass the one at run time.\<close>

lemma static_check_sound:
  assumes "fst t \<noteq> dynamic \<Longrightarrow> op_height A a = fst t" and "snd t \<noteq> dynamic \<Longrightarrow> op_width A a = snd t"
    and "fst u \<noteq> dynamic \<Longrightarrow> op_height B b = fst u" and "snd u \<noteq> dynamic \<Longrightarrow> op_width B b = snd u"
    and "op_height A a = op_height B b" and "op_width A a = op_width B b"
  shows "static_dimensions_match t u"
  using assms by (auto simp: static_dimensions_match_def dimension_match_def)

abbreviation mismatch :: error where
  "mismatch \<equiv> Out_Of_Range ''matrix dimensions mismatch''"

text \<open>\<open>a[i, j] = f(a[i, j], b[i, j])\<close> for all indices of \<open>b\<close>.\<close>

definition combine :: "('m, 'a) matrix_ops \<Rightarrow> ('n, 'a) matrix_ops \<Rightarrow> ('a \<Rightarrow> 'a \<Rightarrow> 'a) \<Rightarrow> 'm \<Rightarrow> 'n \<Rightarrow> 'm result" where
  "combine A B f a b = rbind (require mismatch (op_height A a = op_height B b \<and> op_width A a = op_width B b)) (\<lambda>_.
     rfold (\<lambda>i a. rfold (\<lambda>j a.
       rbind (op_get A a i j) (\<lambda>x. rbind (op_get B b i j) (\<lambda>y. op_put A a i j (f x y))))
       [0..<op_width B b] a) [0..<op_height B b] a)"

(* math/include/upp/math/detail/operations.hpp 20-29: operator+= *)
definition add_assign :: "('m, 'a::plus) matrix_ops \<Rightarrow> ('n, 'a) matrix_ops \<Rightarrow> 'm \<Rightarrow> 'n \<Rightarrow> 'm result" where
  "add_assign A B a b = combine A B (\<lambda>x y. x + y) a b"

text \<open>\<open>a + b\<close> copies its left operand first, so that is a static matrix, whose copy is the copy of its array.\<close>

(* math/include/upp/math/detail/operations.hpp 31-38: operator+ *)
definition mat_add :: "build \<Rightarrow> nat \<Rightarrow> nat \<Rightarrow> ('n, 'a::plus) matrix_ops \<Rightarrow> 'a list \<Rightarrow> 'n \<Rightarrow> 'a list result" where
  "mat_add build H W B a b = (let out = a in add_assign (static_ops build H W) B out b)"

(* math/include/upp/math/detail/operations.hpp 40-48: operator-= *)
definition sub_assign :: "('m, 'a::minus) matrix_ops \<Rightarrow> ('n, 'a) matrix_ops \<Rightarrow> 'm \<Rightarrow> 'n \<Rightarrow> 'm result" where
  "sub_assign A B a b = combine A B (\<lambda>x y. x - y) a b"

text \<open>\<open>operator-\<close> has no model: its exception specification applies \<open>+=\<close> to the constant left operand, which does not
  compile for a static matrix, and its copy does not for a dense one.\<close>

text \<open>\<open>operator*=\<close> collects each row of the product in a vector before it overwrites the row.  The right operand
  is read through \<open>get\<close> from the state the loop has reached: the left operand itself when the two
  are the same object.\<close>

definition dot_step :: "('m \<Rightarrow> nat \<Rightarrow> nat \<Rightarrow> 'a::semiring_0 result) \<Rightarrow> ('m \<Rightarrow> nat \<Rightarrow> nat \<Rightarrow> 'a result) \<Rightarrow>
    'm \<Rightarrow> nat \<Rightarrow> nat \<Rightarrow> nat \<Rightarrow> 'a list \<Rightarrow> 'a list result" where
  "dot_step geta getb a i j k vec =
     rbind (geta a i k) (\<lambda>x. rbind (getb a k j) (\<lambda>y. rbind (read_at vec j) (\<lambda>v. write_at vec j (v + x * y))))"

definition mul_row :: "('m, 'a::semiring_0) matrix_ops \<Rightarrow> ('m \<Rightarrow> nat \<Rightarrow> nat \<Rightarrow> 'a result) \<Rightarrow> nat \<Rightarrow> nat \<Rightarrow>
    nat \<Rightarrow> 'm \<times> 'a list \<Rightarrow> ('m \<times> 'a list) result" where
  "mul_row A getb w intermediate i st =
     rbind (rfold (\<lambda>j. rfold (dot_step (op_get A) getb (fst st) i j) [0..<intermediate]) [0..<w] (snd st)) (\<lambda>vec.
     rfold (\<lambda>j (a, vec). rbind (read_at vec j) (\<lambda>v. rbind (op_put A a i j v) (\<lambda>a'.
       rbind (write_at vec j 0) (\<lambda>vec'. Inr (a', vec'))))) [0..<w] (fst st, vec))"

(* math/include/upp/math/detail/operations.hpp 57-78: operator*= *)
definition mul_assign :: "('m, 'a::semiring_0) matrix_ops \<Rightarrow> ('n, 'a) matrix_ops \<Rightarrow> 'm \<Rightarrow> 'n \<Rightarrow> 'm result" where
  "mul_assign A B a b =
     rbind (require mismatch (op_width A a = op_height B b)) (\<lambda>_.
     rbind (rfold (mul_row A (\<lambda>_. op_get B b) (op_width B b) (op_width A a)) [0..<op_height A a]
       (a, replicate (op_width B b) 0)) (\<lambda>st. Inr (fst st)))"

text \<open>\<open>a *= a\<close>.\<close>

(* math/include/upp/math/detail/operations.hpp 57-78: operator*= *)
definition mul_assign_self :: "('m, 'a::semiring_0) matrix_ops \<Rightarrow> 'm \<Rightarrow> 'm result" where
  "mul_assign_self A a =
     rbind (require mismatch (op_width A a = op_height A a)) (\<lambda>_.
     rbind (rfold (mul_row A (op_get A) (op_width A a) (op_width A a)) [0..<op_height A a]
       (a, replicate (op_width A a) 0)) (\<lambda>st. Inr (fst st)))"

text \<open>\<open>operator*\<close>, with the \<open>zeros(h, w)\<close> of the left operand's type as an argument.  The middle loop
  runs to the height.\<close>

(* math/include/upp/math/detail/operations.hpp 80-98: operator* *)
definition mat_mul :: "('m, 'a::semiring_0) matrix_ops \<Rightarrow> ('n, 'a) matrix_ops \<Rightarrow> (nat \<Rightarrow> nat \<Rightarrow> 'm) \<Rightarrow>
    'm \<Rightarrow> 'n \<Rightarrow> 'm result" where
  "mat_mul A B zeros a b =
     (let h = op_height A a; w = op_width B b in
      rbind (require mismatch (op_width A a = op_height B b)) (\<lambda>_.
      let intermediate = op_width A a in
      rfold (\<lambda>i. rfold (\<lambda>j. rfold (\<lambda>k out.
        rbind (op_get A a i k) (\<lambda>x. rbind (op_get B b k j) (\<lambda>y.
        rbind (op_get A out i j) (\<lambda>v. op_put A out i j (v + x * y)))))
        [0..<intermediate]) [0..<h]) [0..<h] (zeros h w)))"

section \<open>Laws of the concept\<close>

locale matrixlike =
  fixes M :: "('m, 'a::semiring_0) matrix_ops" and rep :: "'m \<Rightarrow> bool"
  assumes get_ok: "rep m \<Longrightarrow> i < op_height M m \<Longrightarrow> j < op_width M m \<Longrightarrow> \<exists>v. op_get M m i j = Inr v"
    and put_ok: "rep m \<Longrightarrow> i < op_height M m \<Longrightarrow> j < op_width M m \<Longrightarrow>
      \<exists>m'. op_put M m i j v = Inr m' \<and> rep m' \<and> op_height M m' = op_height M m \<and> op_width M m' = op_width M m \<and>
        (\<forall>i' < op_height M m. \<forall>j' < op_width M m.
           op_get M m' i' j' = (if i' = i \<and> j' = j then Inr v else op_get M m i' j'))"

text \<open>A well-formed matrix of the given dimensions and elements.\<close>

definition shaped :: "('m, 'a) matrix_ops \<Rightarrow> ('m \<Rightarrow> bool) \<Rightarrow> nat \<Rightarrow> nat \<Rightarrow> (nat \<Rightarrow> nat \<Rightarrow> 'a) \<Rightarrow> 'm \<Rightarrow> bool" where
  "shaped M rep h w f m \<longleftrightarrow> rep m \<and> op_height M m = h \<and> op_width M m = w \<and>
     (\<forall>i < h. \<forall>j < w. op_get M m i j = Inr (f i j))"

context matrixlike
begin

lemma shaped_put:
  assumes "shaped M rep h w f m" and "i < h" and "j < w"
  shows "\<exists>m'. op_put M m i j v = Inr m' \<and>
    shaped M rep h w (\<lambda>i' j'. if i' = i \<and> j' = j then v else f i' j') m'"
  using put_ok [of m i j v] assms by (auto simp: shaped_def)

end

lemma shaped_get: "shaped M rep h w f m \<Longrightarrow> i < h \<Longrightarrow> j < w \<Longrightarrow> op_get M m i j = Inr (f i j)"
  by (simp add: shaped_def)

lemma shaped_cong: "shaped M rep h w f m \<Longrightarrow> (\<And>i j. i < h \<Longrightarrow> j < w \<Longrightarrow> f i j = g i j) \<Longrightarrow> shaped M rep h w g m"
  by (simp add: shaped_def)

section \<open>Correctness of the operators\<close>

context matrixlike
begin

lemma combine_shaped:
  assumes "shaped M rep h w f a" and "shaped B repb h w g b"
  shows "\<exists>m. combine M B \<phi> a b = Inr m \<and> shaped M rep h w (\<lambda>i j. \<phi> (f i j) (g i j)) m"
proof -
  let ?F = "\<lambda>i k i' j'. if i' < i \<or> i' = i \<and> j' < k then \<phi> (f i' j') (g i' j') else f i' j'"
  have inner: "\<exists>m'. rfold (\<lambda>j a. rbind (op_get M a i j) (\<lambda>x. rbind (op_get B b i j) (\<lambda>y. op_put M a i j (\<phi> x y))))
      [0..<w] m = Inr m' \<and> shaped M rep h w (?F (Suc i) 0) m'"
    if i: "i < h" and m: "shaped M rep h w (?F i 0) m" for i m
  proof -
    have "\<exists>m'. rfold (\<lambda>j a. rbind (op_get M a i j) (\<lambda>x. rbind (op_get B b i j) (\<lambda>y. op_put M a i j (\<phi> x y))))
        [0..<w] m = Inr m' \<and> shaped M rep h w (?F i w) m'"
    proof (rule rfold_upt_invariant [where P = "\<lambda>k. shaped M rep h w (?F i k)"])
      fix k t assume k: "k < w" and t: "shaped M rep h w (?F i k) t"
      from shaped_put [OF t i k, of "\<phi> (f i k) (g i k)"] obtain t' where
        t': "op_put M t i k (\<phi> (f i k) (g i k)) = Inr t'"
          "shaped M rep h w (\<lambda>i' j'. if i' = i \<and> j' = k then \<phi> (f i k) (g i k) else ?F i k i' j') t'" by blast
      have "shaped M rep h w (?F i (Suc k)) t'" by (rule shaped_cong [OF t'(2)]) (auto simp: less_Suc_eq)
      then show "\<exists>t'. rbind (op_get M t i k) (\<lambda>x. rbind (op_get B b i k) (\<lambda>y. op_put M t i k (\<phi> x y))) = Inr t' \<and>
          shaped M rep h w (?F i (Suc k)) t'"
        using shaped_get [OF t i k] shaped_get [OF assms(2) i k] t'(1) by simp
    qed (use m in simp_all)
    moreover have "shaped M rep h w (?F i w) m' \<Longrightarrow> shaped M rep h w (?F (Suc i) 0) m'" for m'
      by (erule shaped_cong) (auto simp: less_Suc_eq)
    ultimately show ?thesis by blast
  qed
  have dims: "op_height M a = h" "op_width M a = w" "op_height B b = h" "op_width B b = w"
    using assms by (simp_all add: shaped_def)
  have "\<exists>m. rfold (\<lambda>i. rfold (\<lambda>j a. rbind (op_get M a i j) (\<lambda>x. rbind (op_get B b i j) (\<lambda>y. op_put M a i j (\<phi> x y))))
      [0..<w]) [0..<h] a = Inr m \<and> shaped M rep h w (?F h 0) m"
    by (rule rfold_upt_invariant [where P = "\<lambda>i. shaped M rep h w (?F i 0)"]) (use assms(1) inner in simp_all)
  then obtain m where m: "combine M B \<phi> a b = Inr m" "shaped M rep h w (?F h 0) m"
    using dims by (auto simp: combine_def)
  have "shaped M rep h w (\<lambda>i j. \<phi> (f i j) (g i j)) m" by (rule shaped_cong [OF m(2)]) simp
  with m(1) show ?thesis by blast
qed

lemma dot_fold:
  assumes "\<And>k. k < n \<Longrightarrow> geta a i k = Inr (X k)" and "\<And>k. k < n \<Longrightarrow> getb a k j = Inr (Y k)" and "j < length vec"
  shows "rfold (dot_step geta getb a i j) [0..<n] vec = Inr (vec[j := vec ! j + (\<Sum>k < n. X k * Y k)])"
proof -
  have "\<exists>t. rfold (dot_step geta getb a i j) [0..<n] vec = Inr t \<and> t = vec[j := vec ! j + (\<Sum>k < n. X k * Y k)]"
    by (rule rfold_upt_invariant [where P = "\<lambda>k t. t = vec[j := vec ! j + (\<Sum>k < k. X k * Y k)]"])
      (use assms in \<open>simp_all add: dot_step_def add.assoc\<close>)
  then show ?thesis by simp
qed

lemma row_of_products:
  assumes "\<And>k. k < n \<Longrightarrow> geta a i k = Inr (X k)" and "\<And>k j. k < n \<Longrightarrow> j < w \<Longrightarrow> getb a k j = Inr (Y k j)"
  shows "rfold (\<lambda>j. rfold (dot_step geta getb a i j) [0..<n]) [0..<w] (replicate w 0) =
    Inr (map (\<lambda>j. \<Sum>k < n. X k * Y k j) [0..<w])"
proof -
  let ?V = "\<lambda>c. map (\<lambda>j. if j < c then \<Sum>k < n. X k * Y k j else 0) [0..<w]"
  have "\<exists>t. rfold (\<lambda>j. rfold (dot_step geta getb a i j) [0..<n]) [0..<w] (replicate w 0) = Inr t \<and> t = ?V w"
  proof (rule rfold_upt_invariant [where P = "\<lambda>c t. t = ?V c"])
    show "replicate w 0 = ?V 0" by (simp add: map_replicate_const)
    fix c t assume c: "c < w" and t: "t = ?V c"
    have "rfold (dot_step geta getb a i c) [0..<n] t = Inr (t[c := t ! c + (\<Sum>k < n. X k * Y k c)])"
      by (rule dot_fold) (use assms c t in simp_all)
    moreover have "t[c := t ! c + (\<Sum>k < n. X k * Y k c)] = ?V (Suc c)"
      by (rule nth_equalityI) (use c t in \<open>auto simp: nth_list_update less_Suc_eq\<close>)
    ultimately show "\<exists>t'. rfold (dot_step geta getb a i c) [0..<n] t = Inr t' \<and> t' = ?V (Suc c)" by simp
  qed simp
  then show ?thesis by (auto intro!: map_cong)
qed

lemma store_row:
  assumes "shaped M rep h n f m" and "i < h" and "w \<le> n" and "length vec = w"
  shows "\<exists>m'. rfold (\<lambda>j (a, vec). rbind (read_at vec j) (\<lambda>v. rbind (op_put M a i j v) (\<lambda>a'.
       rbind (write_at vec j 0) (\<lambda>vec'. Inr (a', vec'))))) [0..<w] (m, vec) = Inr (m', replicate w 0) \<and>
    shaped M rep h n (\<lambda>i' j'. if i' = i \<and> j' < w then vec ! j' else f i' j') m'"
proof -
  let ?body = "\<lambda>j (a, vec). rbind (read_at vec j) (\<lambda>v. rbind (op_put M a i j v) (\<lambda>a'.
       rbind (write_at vec j 0) (\<lambda>vec'. Inr (a', vec'))))"
  let ?P = "\<lambda>c st. shaped M rep h n (\<lambda>i' j'. if i' = i \<and> j' < c then vec ! j' else f i' j') (fst st) \<and>
      snd st = replicate c 0 @ drop c vec"
  have "\<exists>st. rfold ?body [0..<w] (m, vec) = Inr st \<and> ?P w st"
  proof (rule rfold_upt_invariant [where P = ?P])
    fix c and st :: "'m \<times> 'a list"
    assume c: "c < w" and st: "?P c st"
    obtain a v where av: "st = (a, v)" by (cases st)
    from st av have v: "v = replicate c 0 @ vec ! c # drop (Suc c) vec"
      using c assms(4) by (simp add: Cons_nth_drop_Suc)
    have "c < n" using c assms(3) by simp
    from shaped_put [OF conjunct1 [OF st] assms(2) this, of "vec ! c"] av obtain a' where
      a': "op_put M a i c (vec ! c) = Inr a'"
        "shaped M rep h n (\<lambda>i' j'. if i' = i \<and> j' = c then vec ! c
          else if i' = i \<and> j' < c then vec ! j' else f i' j') a'" by auto
    have "shaped M rep h n (\<lambda>i' j'. if i' = i \<and> j' < Suc c then vec ! j' else f i' j') a'"
      by (rule shaped_cong [OF a'(2)]) (auto simp: less_Suc_eq)
    moreover have "v[c := 0] = replicate (Suc c) 0 @ drop (Suc c) vec"
      unfolding v by (simp add: list_update_append replicate_append_same flip: replicate_Suc)
    ultimately show "\<exists>st'. ?body c st = Inr st' \<and> ?P (Suc c) st'"
      using av a'(1) v c assms(4) by (simp add: nth_append)
  qed (use assms in simp_all)
  then show ?thesis using assms(4) by auto
qed

end

text \<open>The sum and product the operators are for.\<close>

abbreviation product :: "nat \<Rightarrow> (nat \<Rightarrow> nat \<Rightarrow> 'a::semiring_0) \<Rightarrow> (nat \<Rightarrow> nat \<Rightarrow> 'a) \<Rightarrow> nat \<Rightarrow> nat \<Rightarrow> 'a" where
  "product n f g i j \<equiv> \<Sum>k < n. f i k * g k j"

context matrixlike
begin

lemma mul_assign_shaped:
  assumes "shaped M rep h n f a" and "shaped B repb n w g b" and "w \<le> n"
  shows "\<exists>m. mul_assign M B a b = Inr m \<and>
    shaped M rep h n (\<lambda>i j. if j < w then product n f g i j else f i j) m"
proof -
  let ?F = "\<lambda>c i j. if i < c \<and> j < w then product n f g i j else f i j"
  let ?P = "\<lambda>c st. shaped M rep h n (?F c) (fst st) \<and> snd st = replicate w 0"
  have dims: "op_height M a = h" "op_width M a = n" "op_height B b = n" "op_width B b = w"
    using assms by (simp_all add: shaped_def)
  have "\<exists>st. rfold (mul_row M (\<lambda>_. op_get B b) w n) [0..<h] (a, replicate w 0) = Inr st \<and> ?P h st"
  proof (rule rfold_upt_invariant [where P = ?P])
    fix c and st :: "'m \<times> 'a list"
    assume c: "c < h" and st: "?P c st"
    obtain m where m: "st = (m, replicate w 0)" "shaped M rep h n (?F c) m" using st by (cases st) auto
    let ?vec = "map (\<lambda>j. product n f g c j) [0..<w]"
    have "rfold (\<lambda>j. rfold (dot_step (op_get M) (\<lambda>_. op_get B b) m c j) [0..<n]) [0..<w] (replicate w 0) = Inr ?vec"
      by (rule row_of_products) (use shaped_get [OF m(2) c] shaped_get [OF assms(2)] in simp_all)
    moreover from store_row [OF m(2) c assms(3), of ?vec] obtain m' where
      "rfold (\<lambda>j (a, vec). rbind (read_at vec j) (\<lambda>v. rbind (op_put M a c j v) (\<lambda>a'.
         rbind (write_at vec j 0) (\<lambda>vec'. Inr (a', vec'))))) [0..<w] (m, ?vec) = Inr (m', replicate w 0)"
      and m': "shaped M rep h n (\<lambda>i' j'. if i' = c \<and> j' < w then ?vec ! j' else ?F c i' j') m'" by auto
    ultimately have "mul_row M (\<lambda>_. op_get B b) w n c st = Inr (m', replicate w 0)"
      using m(1) by (simp add: mul_row_def)
    moreover have "shaped M rep h n (?F (Suc c)) m'"
      by (rule shaped_cong [OF m']) (auto simp: less_Suc_eq)
    ultimately show "\<exists>st'. mul_row M (\<lambda>_. op_get B b) w n c st = Inr st' \<and> ?P (Suc c) st'" by auto
  qed (use assms(1) in simp_all)
  then obtain st where st: "mul_assign M B a b = Inr (fst st)" "?P h st"
    using dims by (auto simp: mul_assign_def)
  have "shaped M rep h n (\<lambda>i j. if j < w then product n f g i j else f i j) (fst st)"
    by (rule shaped_cong [OF conjunct1 [OF st(2)]]) auto
  with st(1) show ?thesis by blast
qed

lemma mat_mul_shaped:
  assumes "shaped M rep h n f a" and "shaped B repb n w g b" and "shaped M rep h w (\<lambda>_ _. 0) (zeros h w)"
    and "h \<le> w"
  shows "\<exists>m. mat_mul M B zeros a b = Inr m \<and>
    shaped M rep h w (\<lambda>i j. if j < h then product n f g i j else 0) m"
proof -
  let ?F = "\<lambda>c d e i j. if i < c \<or> i = c \<and> j < d then (if j < h then product n f g i j else 0)
      else if i = c \<and> j = d then \<Sum>k < e. f i k * g k j else 0"
  let ?k = "\<lambda>i j k out. rbind (op_get M a i k) (\<lambda>x. rbind (op_get B b k j) (\<lambda>y.
      rbind (op_get M out i j) (\<lambda>v. op_put M out i j (v + x * y))))"
  have dims: "op_height M a = h" "op_width M a = n" "op_height B b = n" "op_width B b = w"
    using assms by (simp_all add: shaped_def)
  have one: "\<exists>m'. rfold (?k i j) [0..<n] m = Inr m' \<and> shaped M rep h w (?F i (Suc j) 0) m'"
    if i: "i < h" and j: "j < h" and m: "shaped M rep h w (?F i j 0) m" for i j m
  proof -
    have jw: "j < w" using j assms(4) by simp
    have "\<exists>m'. rfold (?k i j) [0..<n] m = Inr m' \<and> shaped M rep h w (?F i j n) m'"
    proof (rule rfold_upt_invariant [where P = "\<lambda>e. shaped M rep h w (?F i j e)"])
      fix e t assume e: "e < n" and t: "shaped M rep h w (?F i j e) t"
      let ?v = "(\<Sum>k < e. f i k * g k j) + f i e * g e j"
      from shaped_put [OF t i jw, of ?v] obtain t' where
        t': "op_put M t i j ?v = Inr t'"
          "shaped M rep h w (\<lambda>i' j'. if i' = i \<and> j' = j then ?v else ?F i j e i' j') t'" by blast
      have "shaped M rep h w (?F i j (Suc e)) t'" by (rule shaped_cong [OF t'(2)]) auto
      then show "\<exists>t'. ?k i j e t = Inr t' \<and> shaped M rep h w (?F i j (Suc e)) t'"
        using shaped_get [OF assms(1) i e] shaped_get [OF assms(2) e jw] shaped_get [OF t i jw] t'(1) by simp
    qed (use m in simp_all)
    moreover have "shaped M rep h w (?F i j n) m' \<Longrightarrow> shaped M rep h w (?F i (Suc j) 0) m'" for m'
      by (erule shaped_cong) (use j in \<open>auto simp: less_Suc_eq\<close>)
    ultimately show ?thesis by blast
  qed
  have row: "\<exists>m'. rfold (\<lambda>j. rfold (?k i j) [0..<n]) [0..<h] m = Inr m' \<and> shaped M rep h w (?F (Suc i) 0 0) m'"
    if i: "i < h" and m: "shaped M rep h w (?F i 0 0) m" for i m
  proof -
    have "\<exists>m'. rfold (\<lambda>j. rfold (?k i j) [0..<n]) [0..<h] m = Inr m' \<and> shaped M rep h w (?F i h 0) m'"
      by (rule rfold_upt_invariant [where P = "\<lambda>d. shaped M rep h w (?F i d 0)"]) (use m one i in simp_all)
    moreover have "shaped M rep h w (?F i h 0) m' \<Longrightarrow> shaped M rep h w (?F (Suc i) 0 0) m'" for m'
      by (erule shaped_cong) (auto simp: less_Suc_eq)
    ultimately show ?thesis by blast
  qed
  have start: "shaped M rep h w (?F 0 0 0) (zeros h w)"
    by (rule shaped_cong [OF assms(3)]) auto
  have "\<exists>m. rfold (\<lambda>i. rfold (\<lambda>j. rfold (?k i j) [0..<n]) [0..<h]) [0..<h] (zeros h w) = Inr m \<and>
      shaped M rep h w (?F h 0 0) m"
    by (rule rfold_upt_invariant [where P = "\<lambda>c. shaped M rep h w (?F c 0 0)"]) (use start row in simp_all)
  then obtain m where m: "mat_mul M B zeros a b = Inr m" "shaped M rep h w (?F h 0 0) m"
    using dims by (auto simp: mat_mul_def Let_def)
  have "shaped M rep h w (\<lambda>i j. if j < h then product n f g i j else 0) m"
    by (rule shaped_cong [OF m(2)]) auto
  with m(1) show ?thesis by blast
qed

end

section \<open>The matrix types\<close>

lemma flatten_less: "i < h \<Longrightarrow> j < w \<Longrightarrow> w * i + j < h * w" for i :: nat
proof -
  assume "i < h" and "j < w"
  then have "w * i + j < w * Suc i" by simp
  also have "\<dots> \<le> w * h" using \<open>i < h\<close> by (intro mult_le_mono2) simp
  finally show ?thesis by (simp add: mult.commute)
qed

lemma flatten_index_eq: "i < h \<Longrightarrow> j < w \<Longrightarrow> h * w < 2 ^ 64 \<Longrightarrow> flatten_index w i j = w * i + j"
  using flatten_less [of i h j w] by (simp add: flatten_index_def)

lemma flatten_inj: "j < w \<Longrightarrow> j' < w \<Longrightarrow> w * i + j = w * i' + j' \<longleftrightarrow> i = i' \<and> j = j'" for i :: nat
proof
  assume jw: "j < w" "j' < w" and eq: "w * i + j = w * i' + j'"
  have "i = i'" using arg_cong [OF eq, of "\<lambda>x. x div w"] jw by simp
  with eq show "i = i' \<and> j = j'" by simp
qed simp

lemma in_range_ok [simp]: "i < h \<Longrightarrow> j < w \<Longrightarrow> in_range b h w i j = Inr ()"
  by (simp add: in_range_def)

definition mat_rep :: "'a mat_store \<Rightarrow> bool" where
  "mat_rep m \<longleftrightarrow> length (ms_data m) = ms_h m * ms_w m \<and> ms_h m * ms_w m < 2 ^ 64"

definition static_rep :: "nat \<Rightarrow> nat \<Rightarrow> 'a list \<Rightarrow> bool" where
  "static_rep H W m \<longleftrightarrow> length m = H * W \<and> H * W < 2 ^ 64"

lemma mat_get_in:
  "mat_rep m \<Longrightarrow> i < ms_h m \<Longrightarrow> j < ms_w m \<Longrightarrow> mat_get b m i j = Inr (ms_data m ! (ms_w m * i + j))"
  using flatten_less [of i "ms_h m" j "ms_w m"]
  by (simp add: mat_get_def mat_rep_def flatten_index_eq [of i "ms_h m"])

lemma mat_put_in:
  "mat_rep m \<Longrightarrow> i < ms_h m \<Longrightarrow> j < ms_w m \<Longrightarrow>
    mat_put b m i j v = Inr (m\<lparr>ms_data := (ms_data m)[ms_w m * i + j := v]\<rparr>)"
  using flatten_less [of i "ms_h m" j "ms_w m"]
  by (simp add: mat_put_def mat_rep_def flatten_index_eq [of i "ms_h m"])

interpretation dense: matrixlike "mat_ops b" mat_rep for b :: build
proof unfold_locales
  fix m :: "'a mat_store" and i j v
  assume m: "mat_rep m" and "i < op_height (mat_ops b) m" and "j < op_width (mat_ops b) m"
  then have ij: "i < ms_h m" "j < ms_w m" by (simp_all add: mat_ops_def)
  then show "\<exists>v. op_get (mat_ops b) m i j = Inr v" using m by (simp add: mat_ops_def mat_get_in)
  let ?m = "m\<lparr>ms_data := (ms_data m)[ms_w m * i + j := v]\<rparr>"
  have rep: "mat_rep ?m" using m by (simp add: mat_rep_def)
  have "mat_get b ?m i' j' = (if i' = i \<and> j' = j then Inr v else mat_get b m i' j')"
    if "i' < ms_h m" "j' < ms_w m" for i' j'
    using that ij m mat_get_in [OF rep, of i' j' b] flatten_less [of i "ms_h m" j "ms_w m"]
      flatten_inj [of j "ms_w m" j' i i']
    by (auto simp: mat_get_in nth_list_update mat_rep_def)
  then show "\<exists>m'. op_put (mat_ops b) m i j v = Inr m' \<and> mat_rep m' \<and>
      op_height (mat_ops b) m' = op_height (mat_ops b) m \<and> op_width (mat_ops b) m' = op_width (mat_ops b) m \<and>
      (\<forall>i' < op_height (mat_ops b) m. \<forall>j' < op_width (mat_ops b) m.
        op_get (mat_ops b) m' i' j' = (if i' = i \<and> j' = j then Inr v else op_get (mat_ops b) m i' j'))"
    using m ij rep by (simp add: mat_ops_def mat_put_in)
qed

interpretation fixed: matrixlike "static_ops b H W" "static_rep H W" for b :: build and H W :: nat
proof unfold_locales
  fix m :: "'a list" and i j v
  assume m: "static_rep H W m" and "i < op_height (static_ops b H W) m" and "j < op_width (static_ops b H W) m"
  then have ij: "i < H" "j < W" "w \<le> w" for w :: nat by (simp_all add: static_ops_def)
  have len: "length m = H * W" "H * W < 2 ^ 64" using m by (simp_all add: static_rep_def)
  have get: "static_get b H W m' i' j' = Inr (m' ! (W * i' + j'))"
    if "i' < H" "j' < W" "length m' = H * W" for i' j' and m' :: "'a list"
    using that len(2) flatten_less [of i' H j' W] by (simp add: static_get_def flatten_index_eq [of i' H])
  show "\<exists>v. op_get (static_ops b H W) m i j = Inr v" using get [OF ij(1,2) len(1)] by (simp add: static_ops_def)
  let ?m = "m[W * i + j := v]"
  have put: "static_put b H W m i j v = Inr ?m"
    using ij len flatten_less [of i H j W] by (simp add: static_put_def flatten_index_eq [of i H])
  have "static_get b H W ?m i' j' = (if i' = i \<and> j' = j then Inr v else static_get b H W m i' j')"
    if "i' < H" "j' < W" for i' j'
    using that ij(1,2) len(1) get flatten_less [of i H j W] flatten_inj [of j W j' i i']
    by (auto simp: nth_list_update)
  then show "\<exists>m'. op_put (static_ops b H W) m i j v = Inr m' \<and> static_rep H W m' \<and>
      op_height (static_ops b H W) m' = op_height (static_ops b H W) m \<and>
      op_width (static_ops b H W) m' = op_width (static_ops b H W) m \<and>
      (\<forall>i' < op_height (static_ops b H W) m. \<forall>j' < op_width (static_ops b H W) m.
        op_get (static_ops b H W) m' i' j' = (if i' = i \<and> j' = j then Inr v else op_get (static_ops b H W) m i' j'))"
    using put len by (simp add: static_ops_def static_rep_def)
qed

lemma mat_zeros_shaped:
  "h * w < 2 ^ 64 \<Longrightarrow> shaped (mat_ops b) mat_rep h w (\<lambda>_ _. 0) (mat_zeros h w)"
  unfolding shaped_def
  by (auto simp: mat_ops_def mat_zeros_def make_mat_store_def mat_rep_def mat_get_in flatten_less)

lemma static_zeros_shaped:
  "H * W < 2 ^ 64 \<Longrightarrow> shaped (static_ops b H W) (static_rep H W) H W (\<lambda>_ _. 0) (static_zeros H W)"
  unfolding shaped_def
  by (auto simp: static_ops_def static_zeros_def static_new_def static_rep_def static_get_def flatten_index_eq [of _ H] flatten_less)

section \<open>A product higher than wide\<close>

text \<open>What an access outside the matrix leads to: a failed assertion, or an access outside the storage.\<close>

definition out_of_range :: "build \<Rightarrow> error" where
  "out_of_range b = (if b = Debug then Assertion else Undefined)"

lemma mat_get_total: "mat_rep m \<Longrightarrow> mat_get b m i j = Inl (out_of_range b) \<or> (\<exists>v. mat_get b m i j = Inr v)"
proof (cases "i < ms_h m \<and> j < ms_w m")
  case False
  then show ?thesis by (cases b) (auto simp: mat_get_def in_range_def out_of_range_def read_at_def cassert_def)
qed (simp add: mat_get_in)

lemma mat_put_total:
  "mat_rep m \<Longrightarrow> mat_put b m i j v = Inl (out_of_range b) \<or> (\<exists>m'. mat_put b m i j v = Inr m' \<and> mat_rep m')"
proof (cases "i < ms_h m \<and> j < ms_w m")
  case False
  then show "mat_rep m \<Longrightarrow> ?thesis"
    by (cases b) (auto simp: mat_put_def in_range_def out_of_range_def write_at_def cassert_def mat_rep_def)
qed (simp add: mat_put_in, simp add: mat_rep_def)

text \<open>The column behind the last one, in the last row: the assertion fails, and the index is that of the end of the
  storage.\<close>

lemma mat_get_behind: "mat_rep m \<Longrightarrow> 0 < ms_h m \<Longrightarrow> mat_get b m (ms_h m - 1) (ms_w m) = Inl (out_of_range b)"
  by (cases b; cases "ms_h m")
    (auto simp: mat_get_def in_range_def out_of_range_def cassert_def mat_rep_def flatten_index_def algebra_simps)

lemma mat_mul_nothing:
  assumes "shaped (mat_ops b) mat_rep h n f x" and "shaped (mat_ops b) mat_rep n w g y" and "h * w < 2 ^ 64" and "n = 0"
  shows "\<exists>m. mat_mul (mat_ops b) (mat_ops b) mat_zeros x y = Inr m \<and>
    shaped (mat_ops b) mat_rep h w (\<lambda>i j. if j < h then \<Sum>k < n. f i k * g k j else 0) m"
proof -
  have "rfold (\<lambda>i. rfold (\<lambda>j. rfold (body i j) []) [0..<h]) [0..<h] m = Inr m"
    for body :: "nat \<Rightarrow> nat \<Rightarrow> nat \<Rightarrow> 'a mat_store \<Rightarrow> 'a mat_store result" and m
    by (intro rfold_idle) simp
  then show ?thesis using assms mat_zeros_shaped [OF assms(3), of b] by (auto simp: mat_mul_def shaped_def Let_def)
qed

lemma mat_mul_high:
  assumes "shaped (mat_ops b) mat_rep h n f x" and "shaped (mat_ops b) mat_rep n w g y" and "h * w < 2 ^ 64"
    and "w < h" and "0 < n"
  shows "mat_mul (mat_ops b) (mat_ops b) mat_zeros x y = Inl (out_of_range b)"
proof -
  let ?e = "out_of_range b"
  let ?k = "\<lambda>i j k out. rbind (mat_get b x i k) (\<lambda>u. rbind (mat_get b y k j) (\<lambda>v.
      rbind (mat_get b out i j) (\<lambda>t. mat_put b out i j (t + u * v))))"
  have reps: "mat_rep x" "mat_rep y" "ms_h x = h" "ms_w x = n" "ms_h y = n" "ms_w y = w"
    using assms(1,2) by (simp_all add: shaped_def mat_ops_def)
  have k: "?k i j k out = Inl ?e \<or> (\<exists>out'. ?k i j k out = Inr out' \<and> mat_rep out')" if "mat_rep out" for i j k out
    using mat_get_total [OF reps(1), of b i k] mat_get_total [OF reps(2), of b k j] mat_get_total [OF that, of b i j]
      mat_put_total [OF that, of b i j] by fastforce
  have ks: "rfold (?k i j) [0..<n] out = Inl ?e \<or> (\<exists>out'. rfold (?k i j) [0..<n] out = Inr out' \<and> mat_rep out')"
    if "mat_rep out" for i j out
    by (rule rfold_may_stop) (use k that in auto)
  have first: "rfold (\<lambda>j. rfold (?k 0 j) [0..<n]) [0..<h] out = Inl ?e" if "mat_rep out" for out
  proof (rule rfold_stops [where P = mat_rep and y = w])
    show "rfold (?k 0 w) [0..<n] t = Inl ?e" if "mat_rep t" for t
    proof (rule rfold_stops [where P = mat_rep and y = "n - 1"])
      have "mat_get b y (n - 1) w = Inl ?e" using mat_get_behind [OF reps(2), of b] reps assms(5) by simp
      moreover obtain u where "mat_get b x 0 (n - 1) = Inr u"
        using mat_get_in [OF reps(1), of 0 "n - 1" b] reps assms(4,5) by auto
      ultimately show "?k 0 w (n - 1) t = Inl ?e" for t by simp
    qed (use k that assms(5) in auto)
  qed (use ks that assms(4) in auto)
  have js: "rfold (\<lambda>j. rfold (?k i j) [0..<n]) [0..<h] out = Inl ?e \<or>
      (\<exists>out'. rfold (\<lambda>j. rfold (?k i j) [0..<n]) [0..<h] out = Inr out' \<and> mat_rep out')" if "mat_rep out" for i out
    by (rule rfold_may_stop) (use ks that in auto)
  have "rfold (\<lambda>i. rfold (\<lambda>j. rfold (?k i j) [0..<n]) [0..<h]) [0..<h] (mat_zeros h w) = Inl ?e"
    by (rule rfold_stops [where P = mat_rep and y = 0])
      (use js first assms(4) mat_zeros_shaped [OF assms(3), of b] in \<open>auto simp: shaped_def\<close>)
  then show ?thesis using reps by (simp add: mat_mul_def mat_ops_def Let_def)
qed

section \<open>Rows and columns\<close>

text \<open>A view reads the matrix when it is iterated; iterating all of it gives a list.\<close>

definition rmap :: "('x \<Rightarrow> 'y result) \<Rightarrow> 'x list \<Rightarrow> 'y list result" where
  "rmap f xs = rfold (\<lambda>x ys. rbind (f x) (\<lambda>y. Inr (ys @ [y]))) xs []"

lemma rmap_all: "(\<And>x. x \<in> set xs \<Longrightarrow> f x = Inr (g x)) \<Longrightarrow> rmap f xs = Inr (map g xs)"
proof -
  assume f: "\<And>x. x \<in> set xs \<Longrightarrow> f x = Inr (g x)"
  have "rfold (\<lambda>x ys. rbind (f x) (\<lambda>y. Inr (ys @ [y]))) xs ys = Inr (ys @ map g xs)" for ys
    using f by (induction xs arbitrary: ys) simp_all
  then show ?thesis by (simp add: rmap_def)
qed

(* math/include/upp/math/detail/views.hpp 25-36: rows_view *)
definition rows_view :: "('m, 'a) matrix_ops \<Rightarrow> 'm \<Rightarrow> nat \<Rightarrow> 'a list result" where
  "rows_view M m row_idx = rmap (op_get M m row_idx) [0..<op_width M m]"

(* math/include/upp/math/detail/views.hpp 38-48: columns_view *)
definition columns_view :: "('m, 'a) matrix_ops \<Rightarrow> 'm \<Rightarrow> nat \<Rightarrow> 'a list result" where
  "columns_view M m col_idx = rmap (\<lambda>row_idx. op_get M m row_idx col_idx) [0..<op_height M m]"

lemma rows_view_shaped: "shaped M rep h w f m \<Longrightarrow> i < h \<Longrightarrow> rows_view M m i = Inr (map (f i) [0..<w])"
  by (auto simp: rows_view_def shaped_def intro: rmap_all)

lemma columns_view_shaped: "shaped M rep h w f m \<Longrightarrow> j < w \<Longrightarrow> columns_view M m j = Inr (map (\<lambda>i. f i j) [0..<h])"
  by (auto simp: columns_view_def shaped_def intro: rmap_all)

section \<open>Construction from rows\<close>

text \<open>The range that \<open>rows\<close> gives, as the list of its rows.\<close>

(* math/include/upp/math/detail/mat.hpp 165-165: mat::rows *)
definition all_rows :: "('m, 'a) matrix_ops \<Rightarrow> 'm \<Rightarrow> ('a list list) result" where
  "all_rows M m = rmap (rows_view M m) [0..<op_height M m]"

(* math/include/upp/math/detail/mat.hpp 170-170: mat::columns *)
definition all_columns :: "('m, 'a) matrix_ops \<Rightarrow> 'm \<Rightarrow> ('a list list) result" where
  "all_columns M m = rmap (columns_view M m) [0..<op_width M m]"

lemma all_rows_shaped:
  "shaped M rep h w f m \<Longrightarrow> all_rows M m = Inr (map (\<lambda>i. map (f i) [0..<w]) [0..<h])"
  by (auto simp: all_rows_def shaped_def intro!: rmap_all rows_view_shaped)

lemma all_columns_shaped:
  "shaped M rep h w f m \<Longrightarrow> all_columns M m = Inr (map (\<lambda>j. map (\<lambda>i. f i j) [0..<h]) [0..<w])"
  by (auto simp: all_columns_def shaped_def intro!: rmap_all columns_view_shaped)

(* math/include/upp/math/detail/row.hpp 21-24: row_len *)
definition row_len :: "'a list \<Rightarrow> nat" where
  "row_len r = length r"

(* math/include/upp/math/detail/row.hpp 26-32: max_row_len *)
fun max_row_len :: "'a list \<Rightarrow> 'a list list \<Rightarrow> nat" where
  "max_row_len first [] = row_len first"
| "max_row_len first (r # rows) = max (row_len first) (max_row_len r rows)"

lemma max_row_len_Max: "max_row_len first rows = Max (length ` set (first # rows))"
  by (induction first rows rule: max_row_len.induct) (simp_all add: row_len_def)

text \<open>\<open>std::ranges::copy\<close> into a row of the matrix.\<close>

definition copy_row :: "('m, 'a) matrix_ops \<Rightarrow> nat \<Rightarrow> 'a list \<Rightarrow> 'm \<Rightarrow> 'm result" where
  "copy_row M i vals m = rfold (\<lambda>j m. op_put M m i j (vals ! j)) [0..<length vals] m"

(* math/include/upp/math/detail/row.hpp 43-49: assign_rows *)
fun assign_rows :: "build \<Rightarrow> ('m, 'a) matrix_ops \<Rightarrow> nat \<Rightarrow> 'a list list \<Rightarrow> 'm \<Rightarrow> 'm result" where
  "assign_rows b M i [] m = Inr m"
| "assign_rows b M i (row_in # rows_in) m =
     rbind (cassert b (length row_in \<le> op_width M m)) (\<lambda>_.
     rbind (copy_row M i row_in m) (\<lambda>m'. assign_rows b M (i + 1) rows_in m'))"

(* math/include/upp/math/detail/mat.hpp 76-89: mat(rows...) *)
definition mat_of_rows :: "build \<Rightarrow> 'a::zero list \<Rightarrow> 'a list list \<Rightarrow> 'a mat_store result" where
  "mat_of_rows b t ts = assign_rows b (mat_ops b) 0 (t # ts) (make_mat_store (length (t # ts)) (max_row_len t ts))"

(* math/include/upp/math/detail/static_mat.hpp 28-33: static_mat(rows...) *)
definition static_of_rows :: "build \<Rightarrow> nat \<Rightarrow> nat \<Rightarrow> 'a::zero list list \<Rightarrow> 'a list result" where
  "static_of_rows b H W ts = assign_rows b (static_ops b H W) 0 ts (static_new H W)"

(* math/include/upp/math/detail/static_mat.hpp 71-78: make_static_mat *)
definition make_static_mat :: "build \<Rightarrow> 'a::zero list \<Rightarrow> 'a list list \<Rightarrow> 'a list result" where
  "make_static_mat b t ts = static_of_rows b (length (t # ts)) (max_row_len t ts) (t # ts)"

context matrixlike
begin

lemma copy_row_shaped:
  assumes "shaped M rep h w f m" and "i < h" and "length vals \<le> w"
  shows "\<exists>m'. copy_row M i vals m = Inr m' \<and>
    shaped M rep h w (\<lambda>i' j'. if i' = i \<and> j' < length vals then vals ! j' else f i' j') m'"
  unfolding copy_row_def
proof (rule rfold_upt_invariant [where
    P = "\<lambda>c. shaped M rep h w (\<lambda>i' j'. if i' = i \<and> j' < c then vals ! j' else f i' j')"])
  fix c t assume c: "c < length vals" and t: "shaped M rep h w (\<lambda>i' j'. if i' = i \<and> j' < c then vals ! j' else f i' j') t"
  have "c < w" using c assms(3) by simp
  from shaped_put [OF t assms(2) this, of "vals ! c"] obtain t' where
    t': "op_put M t i c (vals ! c) = Inr t'" "shaped M rep h w (\<lambda>i' j'. if i' = i \<and> j' = c then vals ! c
      else if i' = i \<and> j' < c then vals ! j' else f i' j') t'" by blast
  have "shaped M rep h w (\<lambda>i' j'. if i' = i \<and> j' < Suc c then vals ! j' else f i' j') t'"
    by (rule shaped_cong [OF t'(2)]) (auto simp: less_Suc_eq)
  with t'(1) show "\<exists>t'. op_put M t i c (vals ! c) = Inr t' \<and>
      shaped M rep h w (\<lambda>i' j'. if i' = i \<and> j' < Suc c then vals ! j' else f i' j') t'" by blast
qed (use assms in simp_all)

lemma assign_rows_shaped:
  assumes "shaped M rep h w f m" and "i + length rs \<le> h" and "\<And>r. r \<in> set rs \<Longrightarrow> length r \<le> w"
  shows "\<exists>m'. assign_rows b M i rs m = Inr m' \<and>
    shaped M rep h w (\<lambda>i' j'. if i \<le> i' \<and> i' < i + length rs \<and> j' < length (rs ! (i' - i))
      then rs ! (i' - i) ! j' else f i' j') m'"
  using assms
proof (induction rs arbitrary: i f m)
  case Nil
  have "shaped M rep h w (\<lambda>i' j'. if i \<le> i' \<and> i' < i + length [] \<and> j' < length ([] ! (i' - i))
      then [] ! (i' - i) ! j' else f i' j') m"
    by (rule shaped_cong [OF Nil.prems(1)]) auto
  then show ?case by simp
next
  case (Cons r rs)
  let ?f = "\<lambda>i' j'. if i' = i \<and> j' < length r then r ! j' else f i' j'"
  from copy_row_shaped [of h w f m i r] Cons.prems obtain m1 where
    m1: "copy_row M i r m = Inr m1" "shaped M rep h w ?f m1" by auto
  from Cons.IH [OF m1(2), of "Suc i"] Cons.prems obtain m2 where
    m2: "assign_rows b M (Suc i) rs m1 = Inr m2"
    "shaped M rep h w (\<lambda>i' j'. if Suc i \<le> i' \<and> i' < Suc i + length rs \<and> j' < length (rs ! (i' - Suc i))
      then rs ! (i' - Suc i) ! j' else ?f i' j') m2" by auto
  have "op_width M m = w" using Cons.prems(1) by (simp add: shaped_def)
  then have "assign_rows b M i (r # rs) m = Inr m2" using m1(1) m2(1) Cons.prems(3) by simp
  moreover have "shaped M rep h w (\<lambda>i' j'. if i \<le> i' \<and> i' < i + length (r # rs) \<and> j' < length ((r # rs) ! (i' - i))
      then (r # rs) ! (i' - i) ! j' else f i' j') m2"
    by (rule shaped_cong [OF m2(2)]) (auto simp: nth_Cons' not_less le_Suc_eq Suc_diff_Suc)
  ultimately show ?case by blast
qed

end

section \<open>Properties\<close>

text \<open>C27. A matrix built from rows has one row for each and the length of the longest as its width;
  shorter rows are filled up with zeros, and the column views show the transpose.  The assertions of a
  debug build pass.\<close>

theorem mat_of_rows_views:
  fixes t :: "'a::semiring_0 list"
  assumes rs: "rs = t # ts" and w: "w = Max (length ` set rs)"
    and "length rs * w < 2 ^ 64" and "i < length rs" and "j < w"
  shows "\<exists>m. mat_of_rows b t ts = Inr m \<and> ms_h m = length rs \<and> ms_w m = w \<and>
    rows_view (mat_ops b) m i = Inr (rs ! i @ replicate (w - length (rs ! i)) 0) \<and>
    columns_view (mat_ops b) m j = Inr (map (\<lambda>r. if j < length r then r ! j else 0) rs)"
proof -
  let ?h = "length rs"
  have upper: "length r \<le> w" if "r \<in> set rs" for r using that by (simp add: w)
  have "shaped (mat_ops b) mat_rep ?h w (\<lambda>_ _. 0 :: 'a) (make_mat_store ?h w)"
    using mat_zeros_shaped [OF assms(3)] by (simp add: mat_zeros_def)
  from dense.assign_rows_shaped [OF this, of 0 rs b] upper obtain m where
    m: "mat_of_rows b t ts = Inr m" and
    "shaped (mat_ops b) mat_rep ?h w (\<lambda>i j. if 0 \<le> i \<and> i < 0 + ?h \<and> j < length (rs ! (i - 0)) then rs ! (i - 0) ! j else 0) m"
    by (auto simp: mat_of_rows_def max_row_len_Max rs w simp del: assign_rows.simps)
  then have s: "shaped (mat_ops b) mat_rep ?h w (\<lambda>i j. if j < length (rs ! i) then rs ! i ! j else 0) m"
    by (auto elim: shaped_cong)
  have le: "length (rs ! i) \<le> w" by (rule upper) (use assms(4) in simp)
  have "rows_view (mat_ops b) m i = Inr (map (\<lambda>j. if j < length (rs ! i) then rs ! i ! j else 0) [0..<w])"
    by (rule rows_view_shaped [OF s assms(4)])
  also have "map (\<lambda>j. if j < length (rs ! i) then rs ! i ! j else 0) [0..<w] =
      rs ! i @ replicate (w - length (rs ! i)) 0"
    by (rule nth_equalityI) (use le in \<open>auto simp: nth_append\<close>)
  finally have r: "rows_view (mat_ops b) m i = Inr (rs ! i @ replicate (w - length (rs ! i)) 0)" .
  have "columns_view (mat_ops b) m j = Inr (map (\<lambda>i. if j < length (rs ! i) then rs ! i ! j else 0) [0..<?h])"
    by (rule columns_view_shaped [OF s assms(5)])
  also have "map (\<lambda>i. if j < length (rs ! i) then rs ! i ! j else 0) [0..<?h] =
      map (\<lambda>r. if j < length r then r ! j else 0) rs"
    by (rule nth_equalityI) simp_all
  finally show ?thesis using m s r by (simp add: shaped_def mat_ops_def)
qed

theorem mat_of_rows_views_witness:
  "\<exists>m. mat_of_rows Debug [1, 2, 3] [[4 :: int]] = Inr m \<and> ms_w m = 3 \<and> rows_view (mat_ops Debug) m 1 = Inr [4, 0, 0] \<and>
    columns_view (mat_ops Debug) m 2 = Inr [3, 0]"
proof -
  have "3 = Max (length ` set [[1, 2, 3], [4 :: int]])" by simp
  moreover have "replicate 2 0 = [0, 0 :: int]" by (simp add: numeral_2_eq_2)
  ultimately show ?thesis using mat_of_rows_views [OF refl, of 3 "[1, 2, 3 :: int]" "[[4]]" 1 2 Debug] by auto
qed

text \<open>What \<open>+=\<close> and \<open>-=\<close> leave in an operand \<open>a\<close> with the elements \<open>f\<close>, given \<open>b\<close> with the elements \<open>g\<close>.\<close>

abbreviation elementwise :: "('m, 'a::ring) matrix_ops \<Rightarrow> ('m \<Rightarrow> bool) \<Rightarrow> nat \<Rightarrow> nat \<Rightarrow> (nat \<Rightarrow> nat \<Rightarrow> 'a) \<Rightarrow> 'm \<Rightarrow>
    ('n, 'a) matrix_ops \<Rightarrow> nat \<Rightarrow> nat \<Rightarrow> (nat \<Rightarrow> nat \<Rightarrow> 'a) \<Rightarrow> 'n \<Rightarrow> bool" where
  "elementwise A rep h w f a B h' w' g b \<equiv>
    if h = h' \<and> w = w'
    then (\<exists>m. add_assign A B a b = Inr m \<and> shaped A rep h w (\<lambda>i j. f i j + g i j) m) \<and>
      (\<exists>m. sub_assign A B a b = Inr m \<and> shaped A rep h w (\<lambda>i j. f i j - g i j) m)
    else add_assign A B a b = Inl mismatch \<and> sub_assign A B a b = Inl mismatch"

lemma combine_mismatch:
  "shaped A repa h w f a \<Longrightarrow> shaped B repb h' w' g b \<Longrightarrow> h \<noteq> h' \<or> w \<noteq> w' \<Longrightarrow> combine A B \<phi> a b = Inl mismatch"
  by (auto simp: shaped_def combine_def require_def)

context matrixlike
begin

lemma combine_cases:
  assumes "shaped M rep h w f a" and "shaped B repb h' w' g b"
  shows "if h = h' \<and> w = w' then \<exists>m. combine M B \<phi> a b = Inr m \<and> shaped M rep h w (\<lambda>i j. \<phi> (f i j) (g i j)) m
    else combine M B \<phi> a b = Inl mismatch"
  using combine_shaped [of h w f a B repb g b \<phi>] combine_mismatch [OF assms] assms by (cases "h = h' \<and> w = w'") auto

end

text \<open>C26. \<open>+=\<close> and \<open>-=\<close> work element by element, whether the operands are dense or static, and throw when the
  dimensions differ (two static matrices have the same ones, which the compiler checks for \<open>+=\<close>); \<open>+\<close> gives the sum
  for a static left operand.\<close>

theorem add_sub_elementwise:
  fixes f f' g g' :: "nat \<Rightarrow> nat \<Rightarrow> 'a::ring"
  assumes "shaped (mat_ops b) mat_rep h w f x" and "shaped (mat_ops b) mat_rep h' w' f' x'"
    and "shaped (static_ops b H W) (static_rep H W) H W g y" and "shaped (static_ops b H W) (static_rep H W) H W g' y'"
  shows "elementwise (mat_ops b) mat_rep h w f x (mat_ops b) h' w' f' x' \<and>
    elementwise (mat_ops b) mat_rep h w f x (static_ops b H W) H W g y \<and>
    elementwise (static_ops b H W) (static_rep H W) H W g y (mat_ops b) h w f x \<and>
    elementwise (static_ops b H W) (static_rep H W) H W g y (static_ops b H W) H W g' y' \<and>
    mat_add b H W (mat_ops b) y x = add_assign (static_ops b H W) (mat_ops b) y x \<and>
    mat_add b H W (static_ops b H W) y y' = add_assign (static_ops b H W) (static_ops b H W) y y'"
proof (intro conjI)
  show "elementwise (mat_ops b) mat_rep h w f x (mat_ops b) h' w' f' x'"
    using dense.combine_cases [OF assms(1,2), of "(+)"] dense.combine_cases [OF assms(1,2), of "(-)"]
    by (simp add: add_assign_def sub_assign_def split: if_splits)
  show "elementwise (mat_ops b) mat_rep h w f x (static_ops b H W) H W g y"
    using dense.combine_cases [OF assms(1,3), of "(+)"] dense.combine_cases [OF assms(1,3), of "(-)"]
    by (simp add: add_assign_def sub_assign_def split: if_splits)
  show "elementwise (static_ops b H W) (static_rep H W) H W g y (mat_ops b) h w f x"
    using fixed.combine_cases [OF assms(3,1), of "(+)"] fixed.combine_cases [OF assms(3,1), of "(-)"]
    by (cases "H = h \<and> W = w") (auto simp: add_assign_def sub_assign_def)
  show "elementwise (static_ops b H W) (static_rep H W) H W g y (static_ops b H W) H W g' y'"
    using fixed.combine_cases [OF assms(3,4), of "(+)"] fixed.combine_cases [OF assms(3,4), of "(-)"]
    by (simp add: add_assign_def sub_assign_def split: if_splits)
qed (simp_all add: mat_add_def)

lemma mat_shaped_example: "shaped (mat_ops b) mat_rep 1 2 (\<lambda>i j. int j) \<lparr>ms_h = 1, ms_w = 2, ms_data = [0, 1]\<rparr>"
  by (auto simp: shaped_def mat_ops_def mat_rep_def mat_get_in less_2_cases_iff)

theorem add_sub_elementwise_witness:
  "(\<exists>m. add_assign (mat_ops Debug) (static_ops Debug 1 2) \<lparr>ms_h = 1, ms_w = 2, ms_data = [0, 1 :: int]\<rparr> [0, 0] = Inr m \<and>
    shaped (mat_ops Debug) mat_rep 1 2 (\<lambda>i j. int j + 0) m) \<and>
   (\<exists>m. mat_add Debug 1 2 (mat_ops Debug) [0, 0] \<lparr>ms_h = 1, ms_w = 2, ms_data = [0, 1 :: int]\<rparr> = Inr m \<and>
    shaped (static_ops Debug 1 2) (static_rep 1 2) 1 2 (\<lambda>i j. 0 + int j) m)"
proof -
  have "shaped (static_ops Debug 1 2) (static_rep 1 2) 1 2 (\<lambda>i j. 0 :: int) [0, 0]"
    by (auto simp: shaped_def static_ops_def static_rep_def static_get_def flatten_index_def less_2_cases_iff)
  from add_sub_elementwise [OF mat_shaped_example mat_shaped_example this this] show ?thesis by simp
qed

text \<open>C24. For \<open>b\<close> no wider than \<open>a\<close>, \<open>a *= b\<close> leaves the product in the first columns of \<open>a\<close>, as many as \<open>b\<close>
  has; \<open>a\<close> keeps its width, so that further columns keep their old elements.  A wider \<open>b\<close> makes it write out of range.\<close>

theorem mul_assign_product:
  assumes "shaped (mat_ops b) mat_rep h n f x" and "shaped (mat_ops b) mat_rep n w g y" and "w \<le> n"
  shows "\<exists>m. mul_assign (mat_ops b) (mat_ops b) x y = Inr m \<and>
    shaped (mat_ops b) mat_rep h n (\<lambda>i j. if j < w then \<Sum>k < n. f i k * g k j else f i j) m"
  by (rule dense.mul_assign_shaped [OF assms])

theorem mul_assign_product_witness:
  "\<exists>m. mul_assign (mat_ops Debug) (mat_ops Debug) \<lparr>ms_h = 1, ms_w = 2, ms_data = [0, 1 :: int]\<rparr>
      \<lparr>ms_h = 2, ms_w = 1, ms_data = [5, 6]\<rparr> = Inr m \<and>
    shaped (mat_ops Debug) mat_rep 1 2 (\<lambda>i j. if j < 1 then \<Sum>k < 2. int k * [5, 6] ! k else int j) m"
proof -
  have "shaped (mat_ops Debug) mat_rep 2 1 (\<lambda>i j. [5, 6 :: int] ! i) \<lparr>ms_h = 2, ms_w = 1, ms_data = [5, 6]\<rparr>"
    by (auto simp: shaped_def mat_ops_def mat_rep_def mat_get_in less_2_cases_iff)
  from mul_assign_product [OF mat_shaped_example this] show ?thesis by simp
qed

text \<open>C28. \<open>a * b\<close> runs its middle loop to the height of the result instead of its width: the columns
  from the height on stay zero.  A result higher than wide is not produced, unless there is nothing to sum up because
  \<open>a\<close> has no columns: a debug build stops at an index assertion, a release build accesses the storage of a matrix out of range.\<close>

theorem mat_mul_square_only:
  assumes "shaped (mat_ops b) mat_rep h n f x" and "shaped (mat_ops b) mat_rep n w g y" and "h * w < 2 ^ 64"
  shows "if h \<le> w \<or> n = 0
    then \<exists>m. mat_mul (mat_ops b) (mat_ops b) mat_zeros x y = Inr m \<and>
      shaped (mat_ops b) mat_rep h w (\<lambda>i j. if j < h then \<Sum>k < n. f i k * g k j else 0) m
    else mat_mul (mat_ops b) (mat_ops b) mat_zeros x y = Inl (out_of_range b)"
proof (cases "h \<le> w \<or> n = 0")
  case True
  then show ?thesis
    using dense.mat_mul_shaped [where zeros = mat_zeros, OF assms(1,2) mat_zeros_shaped [OF assms(3), of b]] mat_mul_nothing [OF assms] by auto
next
  case False
  then show ?thesis using mat_mul_high [OF assms] by auto
qed

theorem mat_mul_square_only_witness:
  "(\<exists>m. mat_mul (mat_ops Release) (mat_ops Release) mat_zeros \<lparr>ms_h = 1, ms_w = 1, ms_data = [1 :: int]\<rparr>
      \<lparr>ms_h = 1, ms_w = 2, ms_data = [0, 1]\<rparr> = Inr m \<and>
    shaped (mat_ops Release) mat_rep 1 2 (\<lambda>i j. if j < 1 then \<Sum>k < (1::nat). 1 * int j else 0) m) \<and>
   mat_mul (mat_ops Debug) (mat_ops Debug) mat_zeros \<lparr>ms_h = 2, ms_w = 1, ms_data = [0, 0 :: int]\<rparr>
      \<lparr>ms_h = 1, ms_w = 1, ms_data = [0]\<rparr> = Inl Assertion"
proof -
  have "shaped (mat_ops Release) mat_rep 1 1 (\<lambda>i j. 1 :: int) \<lparr>ms_h = 1, ms_w = 1, ms_data = [1]\<rparr>"
    by (auto simp: shaped_def mat_ops_def mat_rep_def mat_get_in)
  note small = mat_mul_square_only [OF this mat_shaped_example]
  have "shaped (mat_ops Debug) mat_rep 2 1 (\<lambda>i j. 0 :: int) \<lparr>ms_h = 2, ms_w = 1, ms_data = [0, 0]\<rparr>"
    and "shaped (mat_ops Debug) mat_rep 1 1 (\<lambda>i j. 0 :: int) \<lparr>ms_h = 1, ms_w = 1, ms_data = [0]\<rparr>"
    by (auto simp: shaped_def mat_ops_def mat_rep_def mat_get_in less_2_cases_iff)
  from mat_mul_square_only [OF this] small show ?thesis by (simp add: out_of_range_def)
qed

text \<open>\<open>a *= a\<close> reads rows it has already overwritten: for a matrix with rows (1, 1) and (1, 0) it leaves
  (2, 1) in both rows, while multiplying by another matrix with the same elements gives (2, 1) and (1, 1).\<close>

theorem mul_assign_self_wrong:
  "mul_assign_self (mat_ops Debug) \<lparr>ms_h = 2, ms_w = 2, ms_data = [1, 1, 1, 0 :: int]\<rparr> =
     Inr \<lparr>ms_h = 2, ms_w = 2, ms_data = [2, 1, 2, 1]\<rparr> \<and>
   mul_assign (mat_ops Debug) (mat_ops Debug) \<lparr>ms_h = 2, ms_w = 2, ms_data = [1, 1, 1, 0 :: int]\<rparr>
     \<lparr>ms_h = 2, ms_w = 2, ms_data = [1, 1, 1, 0]\<rparr> =
     Inr \<lparr>ms_h = 2, ms_w = 2, ms_data = [2, 1, 1, 1]\<rparr>"
  by code_simp

end
