(* ===== verification/Matrix_Alias.thy ===== *)
theory Matrix_Alias
  imports Matrix
begin

text \<open>
  The operators of \<open>math/include/upp/math/detail/operations.hpp\<close> when both operands are the same object:
  \<open>a += a\<close>, \<open>a -= a\<close> and \<open>a *= a\<close>, where the right operand is read from the matrix the loop has reached.
\<close>

section \<open>Sum and difference\<close>

definition combine_self :: "('m, 'a) matrix_ops \<Rightarrow> ('a \<Rightarrow> 'a \<Rightarrow> 'a) \<Rightarrow> 'm \<Rightarrow> 'm result" where
  "combine_self A f a = rbind (require mismatch (op_height A a = op_height A a \<and> op_width A a = op_width A a)) (\<lambda>_.
     rfold (\<lambda>i a. rfold (\<lambda>j a.
       rbind (op_get A a i j) (\<lambda>x. rbind (op_get A a i j) (\<lambda>y. op_put A a i j (f x y))))
       [0..<op_width A a] a) [0..<op_height A a] a)"

(* math/include/upp/math/detail/operations.hpp 20-29: operator+= *)
definition add_assign_self :: "('m, 'a::plus) matrix_ops \<Rightarrow> 'm \<Rightarrow> 'm result" where
  "add_assign_self A a = combine_self A (\<lambda>x y. x + y) a"

(* math/include/upp/math/detail/operations.hpp 40-48: operator-= *)
definition sub_assign_self :: "('m, 'a::minus) matrix_ops \<Rightarrow> 'm \<Rightarrow> 'm result" where
  "sub_assign_self A a = combine_self A (\<lambda>x y. x - y) a"

context matrixlike
begin

text \<open>Each element is read before it is written and not read again, so sharing does no harm.\<close>

lemma combine_self_shaped:
  assumes "shaped M rep h w f a"
  shows "\<exists>m. combine_self M \<phi> a = Inr m \<and> shaped M rep h w (\<lambda>i j. \<phi> (f i j) (f i j)) m"
proof -
  let ?F = "\<lambda>i k i' j'. if i' < i \<or> i' = i \<and> j' < k then \<phi> (f i' j') (f i' j') else f i' j'"
  let ?body = "\<lambda>i j a. rbind (op_get M a i j) (\<lambda>x. rbind (op_get M a i j) (\<lambda>y. op_put M a i j (\<phi> x y)))"
  have row: "\<exists>m'. rfold (?body i) [0..<op_width M m] m = Inr m' \<and> shaped M rep h w (?F (Suc i) 0) m'"
    if i: "i < h" and m: "shaped M rep h w (?F i 0) m" for i m
  proof -
    have "\<exists>m'. rfold (?body i) [0..<w] m = Inr m' \<and> shaped M rep h w (?F i w) m'"
    proof (rule rfold_upt_invariant [where P = "\<lambda>k. shaped M rep h w (?F i k)"])
      fix k t assume k: "k < w" and t: "shaped M rep h w (?F i k) t"
      from shaped_put [OF t i k, of "\<phi> (f i k) (f i k)"] obtain t' where
        t': "op_put M t i k (\<phi> (f i k) (f i k)) = Inr t'"
          "shaped M rep h w (\<lambda>i' j'. if i' = i \<and> j' = k then \<phi> (f i k) (f i k) else ?F i k i' j') t'" by blast
      have "shaped M rep h w (?F i (Suc k)) t'" by (rule shaped_cong [OF t'(2)]) (auto simp: less_Suc_eq)
      then show "\<exists>t'. ?body i k t = Inr t' \<and> shaped M rep h w (?F i (Suc k)) t'"
        using shaped_get [OF t i k] t'(1) by simp
    qed (use m in simp_all)
    moreover have "shaped M rep h w (?F i w) m' \<Longrightarrow> shaped M rep h w (?F (Suc i) 0) m'" for m'
      by (erule shaped_cong) (auto simp: less_Suc_eq)
    moreover have "op_width M m = w" using m by (simp add: shaped_def)
    ultimately show ?thesis by auto
  qed
  have "\<exists>m. rfold (\<lambda>i a. rfold (?body i) [0..<op_width M a] a) [0..<h] a = Inr m \<and> shaped M rep h w (?F h 0) m"
    by (rule rfold_upt_invariant [where P = "\<lambda>i. shaped M rep h w (?F i 0)"]) (use assms row in simp_all)
  moreover have "op_height M a = h" using assms by (simp add: shaped_def)
  ultimately obtain m where m: "combine_self M \<phi> a = Inr m" "shaped M rep h w (?F h 0) m"
    by (auto simp: combine_self_def)
  have "shaped M rep h w (\<lambda>i j. \<phi> (f i j) (f i j)) m" by (rule shaped_cong [OF m(2)]) simp
  with m(1) show ?thesis by blast
qed

end

section \<open>Product\<close>

text \<open>The rows \<open>a *= a\<close> leaves: a row of the product, where the rows above it have been replaced already.\<close>

fun self_product :: "nat \<Rightarrow> (nat \<Rightarrow> nat \<Rightarrow> 'a::semiring_0) \<Rightarrow> nat \<Rightarrow> nat \<Rightarrow> 'a" where
  "self_product n f i j = (\<Sum>k < n. f i k * (if k < i then self_product n f k j else f k j))"

declare self_product.simps [simp del]

context matrixlike
begin

lemma mul_assign_self_shaped:
  assumes "shaped M rep n n f a"
  shows "\<exists>m. mul_assign_self M a = Inr m \<and> shaped M rep n n (self_product n f) m"
proof -
  let ?F = "\<lambda>c i j. if i < c then self_product n f i j else f i j"
  let ?P = "\<lambda>c st. shaped M rep n n (?F c) (fst st) \<and> snd st = replicate n 0"
  have dims: "op_height M a = n" "op_width M a = n" using assms by (simp_all add: shaped_def)
  have "\<exists>st. rfold (mul_row M (op_get M) n n) [0..<n] (a, replicate n 0) = Inr st \<and> ?P n st"
  proof (rule rfold_upt_invariant [where P = ?P])
    fix c and st :: "'m \<times> 'a list"
    assume c: "c < n" and st: "?P c st"
    obtain m where m: "st = (m, replicate n 0)" "shaped M rep n n (?F c) m" using st by (cases st) auto
    let ?vec = "map (\<lambda>j. self_product n f c j) [0..<n]"
    have "rfold (\<lambda>j. rfold (dot_step (op_get M) (op_get M) m c j) [0..<n]) [0..<n] (replicate n 0) =
        Inr (map (\<lambda>j. \<Sum>k < n. f c k * ?F c k j) [0..<n])"
      by (rule row_of_products) (use shaped_get [OF m(2)] c in simp_all)
    then have "rfold (\<lambda>j. rfold (dot_step (op_get M) (op_get M) m c j) [0..<n]) [0..<n] (replicate n 0) = Inr ?vec"
      by (simp add: self_product.simps [of n f c])
    moreover from store_row [OF m(2) c order_refl, of ?vec] obtain m' where
      "rfold (\<lambda>j (a, vec). rbind (read_at vec j) (\<lambda>v. rbind (op_put M a c j v) (\<lambda>a'.
         rbind (write_at vec j 0) (\<lambda>vec'. Inr (a', vec'))))) [0..<n] (m, ?vec) = Inr (m', replicate n 0)"
      and m': "shaped M rep n n (\<lambda>i' j'. if i' = c \<and> j' < n then ?vec ! j' else ?F c i' j') m'" by auto
    ultimately have "mul_row M (op_get M) n n c st = Inr (m', replicate n 0)"
      using m(1) by (simp add: mul_row_def)
    moreover have "shaped M rep n n (?F (Suc c)) m'"
      by (rule shaped_cong [OF m']) (auto simp: less_Suc_eq)
    ultimately show "\<exists>st'. mul_row M (op_get M) n n c st = Inr st' \<and> ?P (Suc c) st'" by auto
  qed (use assms in simp_all)
  then obtain st where st: "mul_assign_self M a = Inr (fst st)" "?P n st"
    using dims by (auto simp: mul_assign_self_def)
  have "shaped M rep n n (self_product n f) (fst st)"
    by (rule shaped_cong [OF conjunct1 [OF st(2)]]) simp
  with st(1) show ?thesis by blast
qed

end

text \<open>The rows agree with the product as long as nothing below the diagonal is used.\<close>

lemma self_product_upper:
  assumes "\<And>k. k < i \<Longrightarrow> f i k = 0"
  shows "self_product n f i j = product n f f i j"
  by (subst self_product.simps, rule sum.cong) (use assms in auto)

section \<open>Properties\<close>

text \<open>C25. Operands that are the same matrix: \<open>a += a\<close> doubles every element and \<open>a -= a\<close> clears it, whatever the height
  and width.  \<open>a *= a\<close>, for which \<open>a\<close> must be square, overwrites rows it still reads: row \<open>i\<close> of the result uses the new rows above it, so the first row is
  that of the product, and the whole result is the product when \<open>a\<close> is upper triangular.\<close>

theorem same_operand_rows:
  fixes f g :: "nat \<Rightarrow> nat \<Rightarrow> 'a::ring"
  assumes "shaped (mat_ops b) mat_rep h w g y" and "shaped (mat_ops b) mat_rep n n f x"
  shows "(\<exists>m. add_assign_self (mat_ops b) y = Inr m \<and> shaped (mat_ops b) mat_rep h w (\<lambda>i j. g i j + g i j) m) \<and>
    (\<exists>m. sub_assign_self (mat_ops b) y = Inr m \<and> shaped (mat_ops b) mat_rep h w (\<lambda>i j. 0) m) \<and>
    (\<exists>m. mul_assign_self (mat_ops b) x = Inr m \<and> shaped (mat_ops b) mat_rep n n (self_product n f) m) \<and>
    (\<forall>j. self_product n f 0 j = product n f f 0 j) \<and>
    ((\<forall>i k. k < i \<longrightarrow> f i k = 0) \<longrightarrow>
      (\<exists>m. mul_assign_self (mat_ops b) x = Inr m \<and> shaped (mat_ops b) mat_rep n n (product n f f) m))"
proof (intro conjI allI impI)
  show "\<exists>m. add_assign_self (mat_ops b) y = Inr m \<and> shaped (mat_ops b) mat_rep h w (\<lambda>i j. g i j + g i j) m"
    unfolding add_assign_self_def by (rule dense.combine_self_shaped [OF assms(1)])
  show "\<exists>m. sub_assign_self (mat_ops b) y = Inr m \<and> shaped (mat_ops b) mat_rep h w (\<lambda>i j. 0) m"
    using dense.combine_self_shaped [OF assms(1), of "\<lambda>x y. x - y"] by (simp add: sub_assign_self_def)
  show sq: "\<exists>m. mul_assign_self (mat_ops b) x = Inr m \<and> shaped (mat_ops b) mat_rep n n (self_product n f) m"
    by (rule dense.mul_assign_self_shaped [OF assms(2)])
  show "self_product n f 0 j = product n f f 0 j" for j by (rule self_product_upper) simp
  assume "\<forall>i k. k < i \<longrightarrow> f i k = 0"
  then have "self_product n f = product n f f" by (intro ext self_product_upper) simp
  with sq show "\<exists>m. mul_assign_self (mat_ops b) x = Inr m \<and> shaped (mat_ops b) mat_rep n n (product n f f) m"
    by (elim subst)
qed

theorem same_operand_rows_witness:
  "(\<exists>m. add_assign_self (mat_ops Debug) \<lparr>ms_h = 1, ms_w = 2, ms_data = [0, 1 :: int]\<rparr> = Inr m \<and>
      shaped (mat_ops Debug) mat_rep 1 2 (\<lambda>i j. int j + int j) m) \<and>
   (\<exists>m. mul_assign_self (mat_ops Debug) \<lparr>ms_h = 2, ms_w = 2, ms_data = [1, 1, 1, 0 :: int]\<rparr> = Inr m \<and>
    shaped (mat_ops Debug) mat_rep 2 2 (self_product 2 (\<lambda>i j. if i + j < 2 then 1 else 0)) m)"
proof -
  have "shaped (mat_ops Debug) mat_rep 2 2 (\<lambda>i j. if i + j < 2 then 1 else 0 :: int)
      \<lparr>ms_h = 2, ms_w = 2, ms_data = [1, 1, 1, 0]\<rparr>"
    by (auto simp: shaped_def mat_ops_def mat_rep_def mat_get_in less_2_cases_iff)
  from same_operand_rows [OF mat_shaped_example this] show ?thesis by blast
qed

text \<open>The static matrices behave alike.\<close>

lemma static_same_operand:
  fixes f :: "nat \<Rightarrow> nat \<Rightarrow> 'a::semiring_0"
  assumes "shaped (static_ops b n n) (static_rep n n) n n f x"
  shows "\<exists>m. mul_assign_self (static_ops b n n) x = Inr m \<and> shaped (static_ops b n n) (static_rep n n) n n (self_product n f) m"
  by (rule fixed.mul_assign_self_shaped [OF assms])

end
