(* ===== verification/Maybe.thy ===== *)
theory Maybe
  imports Prelude
begin

text \<open>
  \<open>core/include/upp/maybe.hpp\<close>: an optional value without an extra flag.  A value of the stored type
  that stands for "none" is chosen by \<open>maybe_traits\<close>, a record here; the locale states what the
  class needs of it, and the specialisations for pointers, unsigned integers, spans and string views
  interpret it.
\<close>

section \<open>Traits\<close>

record 'v maybe_traits =
  is_null :: "'v \<Rightarrow> bool"
  null_value :: 'v

(* core/include/upp/maybe.hpp 14-18: maybe_traits<T*> *)
definition ptr_traits :: "ptr maybe_traits" where
  "ptr_traits = \<lparr>is_null = (\<lambda>val. val = None), null_value = None\<rparr>"

text \<open>A span is the address of its first element, null for a default-constructed one, and its length.
  \<open>dummy\<close> is the address of the static object that the traits reserve.\<close>

record span =
  sp_data :: ptr
  sp_size :: nat

(* core/include/upp/maybe.hpp 20-33: maybe_traits<span> *)
definition span_traits :: "nat \<Rightarrow> span maybe_traits" where
  "span_traits dummy =
     \<lparr>is_null = (\<lambda>val. sp_data val = Some dummy),
      null_value = \<lparr>sp_data = Some dummy, sp_size = 0\<rparr>\<rparr>"

(* core/include/upp/maybe.hpp 35-48: maybe_traits<basic_string_view> *)
definition string_view_traits :: "nat \<Rightarrow> span maybe_traits" where
  "string_view_traits dummy =
     \<lparr>is_null = (\<lambda>val. sp_data val = Some dummy),
      null_value = \<lparr>sp_data = Some dummy, sp_size = 0\<rparr>\<rparr>"

(* core/include/upp/maybe.hpp 50-59: maybe_traits<unsigned_integral> *)
definition unsigned_traits :: "'w::len word maybe_traits" where
  "unsigned_traits = \<lparr>is_null = (\<lambda>val. val = - 1), null_value = - 1\<rparr>"

section \<open>The class\<close>

(* core/include/upp/maybe.hpp 71-74: maybe *)
record 'v maybe =
  m_val :: 'v

(* core/include/upp/maybe.hpp 85-90: maybe() *)
definition maybe_null :: "'v maybe_traits \<Rightarrow> 'v maybe" where
  "maybe_null T = \<lparr>m_val = null_value T\<rparr>"

(* core/include/upp/maybe.hpp 92-103: maybe(T) *)
definition maybe_of :: "'v \<Rightarrow> 'v maybe" where
  "maybe_of t = \<lparr>m_val = t\<rparr>"

text \<open>Copies and moves are those of the stored type; \<open>moved v\<close> is what a move of that type leaves of \<open>v\<close>.\<close>

(* core/include/upp/maybe.hpp 105-109: maybe(const maybe&) *)
definition maybe_copy :: "'v maybe \<Rightarrow> 'v maybe" where
  "maybe_copy other = \<lparr>m_val = m_val other\<rparr>"

(* core/include/upp/maybe.hpp 111-115: maybe(maybe&&) *)
definition maybe_move :: "('v \<Rightarrow> 'v) \<Rightarrow> 'v maybe \<Rightarrow> 'v maybe \<times> 'v maybe" where
  "maybe_move moved other = (\<lparr>m_val = m_val other\<rparr>, other\<lparr>m_val := moved (m_val other)\<rparr>)"

(* core/include/upp/maybe.hpp 121-123: has_value *)
definition has_value :: "'v maybe_traits \<Rightarrow> 'v maybe \<Rightarrow> bool" where
  "has_value T m \<longleftrightarrow> \<not> is_null T (m_val m)"

(* core/include/upp/maybe.hpp 119-119: operator bool *)
definition maybe_bool :: "'v maybe_traits \<Rightarrow> 'v maybe \<Rightarrow> bool" where
  "maybe_bool T m \<longleftrightarrow> has_value T m"

(* core/include/upp/maybe.hpp 125-128: operator* *)
definition maybe_deref :: "'v maybe \<Rightarrow> 'v" where
  "maybe_deref m = m_val m"

text \<open>\<open>*m = v\<close>: the reference that \<open>operator*\<close> and \<open>operator->\<close> give writes the stored value.\<close>

(* core/include/upp/maybe.hpp 130-133: operator-> *)
definition maybe_write :: "'v \<Rightarrow> 'v maybe \<Rightarrow> 'v maybe" where
  "maybe_write v m = m\<lparr>m_val := v\<rparr>"

(* core/include/upp/maybe.hpp 135-147: as_optional *)
definition as_optional :: "'v maybe_traits \<Rightarrow> 'v maybe \<Rightarrow> 'v option" where
  "as_optional T m = (if has_value T m then Some (m_val m) else None)"

section \<open>The contract of the traits\<close>

locale null_traits =
  fixes T :: "'v maybe_traits"
  assumes null_is_null: "is_null T (null_value T)"
begin

lemma null_empty: "\<not> has_value T (maybe_null T)" "as_optional T (maybe_null T) = None"
  by (simp_all add: has_value_def maybe_null_def as_optional_def null_is_null)

lemma as_optional_of: "as_optional T (maybe_of v) = (if is_null T v then None else Some v)"
  by (simp add: as_optional_def has_value_def maybe_of_def)

lemma as_optional_write: "as_optional T (maybe_write v m) = (if is_null T v then None else Some v)"
  by (simp add: as_optional_def has_value_def maybe_write_def)

lemma has_value_deref: "has_value T m \<longleftrightarrow> as_optional T m = Some (maybe_deref m)"
  by (simp add: as_optional_def maybe_deref_def)

text \<open>A moved-from \<open>maybe\<close> is empty exactly when moving the stored value leaves a null value behind; one of a
  pointer, an integer or a view, whose move is a copy, still has its value.\<close>

lemma as_optional_move:
  "maybe_move moved m = (a, r) \<Longrightarrow> as_optional T a = as_optional T (maybe_copy m) \<and> as_optional T a = as_optional T m \<and>
    (maybe_bool T r \<longleftrightarrow> \<not> is_null T (moved (maybe_deref m)))"
  by (auto simp: maybe_move_def maybe_copy_def maybe_bool_def as_optional_def has_value_def maybe_deref_def)

text \<open>Every optional value but those the traits call null has a representation, and only one when there
  is one null value.\<close>

lemma represented: "(\<exists>m. as_optional T m = x) \<longleftrightarrow> (case x of None \<Rightarrow> True | Some v \<Rightarrow> \<not> is_null T v)"
proof (cases x)
  case None
  then show ?thesis using null_empty(2) by auto
next
  case (Some v)
  then show ?thesis
    by (auto simp: as_optional_def has_value_def intro!: exI [of _ "\<lparr>m_val = v\<rparr>"] split: if_splits)
qed

end

interpretation ptr: null_traits ptr_traits
  by unfold_locales (simp add: ptr_traits_def)

interpretation uint: null_traits unsigned_traits
  by unfold_locales (simp add: unsigned_traits_def)

interpretation spans: null_traits "span_traits dummy" for dummy
  by unfold_locales (simp add: span_traits_def)

interpretation views: null_traits "string_view_traits dummy" for dummy
  by unfold_locales (simp add: string_view_traits_def)

lemma unat_largest: "unat (n :: 'w::len word) = 2 ^ LENGTH('w) - 1 \<longleftrightarrow> n = - 1"
  by (metis mask_eq_exp_minus_1 unsigned_minus_1_eq_mask word_eq_iff_unsigned)

text \<open>A \<open>maybe\<close> of an unsigned integer holds every value but the largest, one of a pointer every pointer
  but null, one of a span or a string view every one that does not start at the reserved object,
  among them the empty ones without data; a default-constructed \<open>maybe\<close> holds none.\<close>

lemma maybe_as_optional:
  "as_optional unsigned_traits (maybe_of n) = (if unat n = 2 ^ LENGTH('w) - 1 then None else Some (n :: 'w::len word)) \<and>
   as_optional ptr_traits (maybe_of p) = (case p of None \<Rightarrow> None | Some a \<Rightarrow> Some p) \<and>
   as_optional (span_traits d) (maybe_of s) = (if sp_data s = Some d then None else Some s) \<and>
   as_optional (string_view_traits d) (maybe_of s) = (if sp_data s = Some d then None else Some s) \<and>
   as_optional unsigned_traits (maybe_null unsigned_traits :: 'w word maybe) = None \<and>
   as_optional ptr_traits (maybe_null ptr_traits) = None \<and>
   as_optional (span_traits d) (maybe_null (span_traits d)) = None \<and>
   as_optional (string_view_traits d) (maybe_null (string_view_traits d)) = None"
  by (simp add: ptr.as_optional_of uint.as_optional_of spans.as_optional_of views.as_optional_of
      ptr.null_empty uint.null_empty spans.null_empty views.null_empty)
    (simp add: ptr_traits_def unsigned_traits_def span_traits_def string_view_traits_def unat_largest [simplified] split: option.split)

section \<open>Programs over optional values\<close>

text \<open>A program over several objects: it resets one, constructs one from a value, copies or moves one to another, and
  writes a value through \<open>*\<close> or \<open>->\<close>.\<close>

datatype 'v maybe_cmd = Reset nat | Put nat 'v | Copy nat nat | Move nat nat | Write nat 'v

fun maybe_exec :: "'v maybe_traits \<Rightarrow> ('v \<Rightarrow> 'v) \<Rightarrow> 'v maybe_cmd \<Rightarrow> (nat \<rightharpoonup> 'v maybe) \<Rightarrow> (nat \<rightharpoonup> 'v maybe) option" where
  "maybe_exec T moved (Reset i) s = Some (s(i \<mapsto> maybe_null T))"
| "maybe_exec T moved (Put i v) s = Some (s(i \<mapsto> maybe_of v))"
| "maybe_exec T moved (Copy i j) s = map_option (\<lambda>m. s(i \<mapsto> maybe_copy m)) (s j)"
| "maybe_exec T moved (Move i j) s = map_option (\<lambda>m. case maybe_move moved m of (a, r) \<Rightarrow> s(j \<mapsto> r, i \<mapsto> a)) (s j)"
| "maybe_exec T moved (Write i v) s = map_option (\<lambda>m. s(i \<mapsto> maybe_write v m)) (s i)"

text \<open>The same program over \<open>std::optional\<close>, which stops where a null value would be stored, where an empty optional
  is written through, and at a move from an object to itself.\<close>

fun optional_exec :: "('v \<Rightarrow> bool) \<Rightarrow> ('v \<Rightarrow> 'v) \<Rightarrow> 'v maybe_cmd \<Rightarrow> (nat \<rightharpoonup> 'v option) \<Rightarrow> (nat \<rightharpoonup> 'v option) option" where
  "optional_exec null moved (Reset i) s = Some (s(i \<mapsto> None))"
| "optional_exec null moved (Put i v) s = (if null v then None else Some (s(i \<mapsto> Some v)))"
| "optional_exec null moved (Copy i j) s = map_option (\<lambda>x. s(i \<mapsto> x)) (s j)"
| "optional_exec null moved (Move i j) s =
     (if i = j then None else map_option (\<lambda>x. s(j \<mapsto> map_option moved x, i \<mapsto> x)) (s j))"
| "optional_exec null moved (Write i v) s =
     (case s i of Some (Some x) \<Rightarrow> if null v then None else Some (s(i \<mapsto> Some v)) | _ \<Rightarrow> None)"

fun exec_all :: "('c \<Rightarrow> 's \<Rightarrow> 's option) \<Rightarrow> 'c list \<Rightarrow> 's \<Rightarrow> 's option" where
  "exec_all step [] s = Some s"
| "exec_all step (c # cs) s = Option.bind (step c s) (exec_all step cs)"

definition same_values :: "'v maybe_traits \<Rightarrow> (nat \<rightharpoonup> 'v maybe) \<Rightarrow> (nat \<rightharpoonup> 'v option) \<Rightarrow> bool" where
  "same_values T ms os \<longleftrightarrow> (\<forall>i. map_option (as_optional T) (ms i) = os i)"

lemma maybe_exec_step:
  assumes "null_traits T" and "\<And>v. is_null T (moved v) \<longleftrightarrow> is_null T v"
    and "same_values T ms os" and "optional_exec (is_null T) moved c os = Some os'"
  shows "\<exists>ms'. maybe_exec T moved c ms = Some ms' \<and> same_values T ms' os'"
proof -
  note laws = null_traits.null_empty [OF assms(1)] null_traits.as_optional_of [OF assms(1)]
    null_traits.as_optional_write [OF assms(1)]
  have at: "os i = map_option (as_optional T) (ms i)" for i using assms(3) by (simp add: same_values_def)
  have keep: "as_optional T (maybe_copy m) = as_optional T m" for m
    by (simp add: as_optional_def has_value_def maybe_copy_def)
  have move: "as_optional T \<lparr>m_val = m_val m\<rparr> = as_optional T m"
    "as_optional T (m\<lparr>m_val := moved (m_val m)\<rparr>) = map_option moved (as_optional T m)" for m
    using assms(2) by (simp_all add: as_optional_def has_value_def)
  show ?thesis
    using assms(4)
    by (cases c)
      (auto simp: same_values_def at laws keep move maybe_move_def split: option.splits if_splits)
qed

section \<open>Properties\<close>

text \<open>C40. A \<open>maybe\<close> is a \<open>std::optional\<close> as long as no null value is stored in it: any program that constructs, resets,
  copies, moves and writes objects of either kind, and runs over \<open>std::optional\<close>, runs over \<open>maybe\<close> too and leaves the
  same values, for any traits whose null value is null and a type whose moves leave neither a null value nor one where there
  was none.\<close>

theorem maybe_runs_optional:
  assumes "is_null T (null_value T)" and "\<And>v. is_null T (moved v) \<longleftrightarrow> is_null T v"
    and "exec_all (optional_exec (is_null T) moved) cs Map.empty = Some os"
  shows "\<exists>ms. exec_all (maybe_exec T moved) cs Map.empty = Some ms \<and> dom ms = dom os \<and>
    (\<forall>i m. ms i = Some m \<longrightarrow> os i = Some (as_optional T m) \<and> (has_value T m \<longleftrightarrow> the (os i) \<noteq> None) \<and>
      (\<forall>v. os i = Some (Some v) \<longrightarrow> maybe_deref m = v))"
proof -
  have "\<exists>ms'. exec_all (maybe_exec T moved) cs ms = Some ms' \<and> same_values T ms' os"
    if "exec_all (optional_exec (is_null T) moved) cs os0 = Some os" "same_values T ms os0" for ms os0
    using that
  proof (induction cs arbitrary: ms os0)
    case (Cons c cs)
    then obtain os1 where os1: "optional_exec (is_null T) moved c os0 = Some os1"
      "exec_all (optional_exec (is_null T) moved) cs os1 = Some os"
      by (auto split: Option.bind_splits)
    from maybe_exec_step [OF null_traits.intro [OF assms(1)] assms(2) Cons.prems(2) os1(1)] Cons.IH [OF os1(2)] show ?case by auto
  qed simp
  from this [OF assms(3), of Map.empty] obtain ms where
    ms: "exec_all (maybe_exec T moved) cs Map.empty = Some ms" "\<And>i. map_option (as_optional T) (ms i) = os i"
    by (auto simp: same_values_def)
  have "dom ms = dom os" by (auto simp: ms(2) [symmetric])
  moreover have "os i = Some (as_optional T m) \<and> (has_value T m \<longleftrightarrow> the (os i) \<noteq> None) \<and>
      (\<forall>v. os i = Some (Some v) \<longrightarrow> maybe_deref m = v)" if "ms i = Some m" for i m
    using that by (auto simp: ms(2) [symmetric] as_optional_def maybe_deref_def split: if_splits)
  ultimately show ?thesis using ms(1) by blast
qed

text \<open>Pointers: object 1 is constructed, written, copied to 2 and reset.\<close>

theorem maybe_runs_optional_witness:
  "\<exists>ms. exec_all (maybe_exec ptr_traits id) [Put 1 (Some 7), Write 1 (Some 8), Copy 2 1, Reset 1] Map.empty = Some ms \<and>
    map_option (as_optional ptr_traits) (ms 2) = Some (Some (Some 8)) \<and> map_option (as_optional ptr_traits) (ms 1) = Some None"
proof -
  let ?cs = "[Put 1 (Some 7), Write 1 (Some 8), Copy 2 1, Reset 1]"
  have "is_null ptr_traits (id v) \<longleftrightarrow> is_null ptr_traits v" for v by simp
  moreover have run: "exec_all (optional_exec (is_null ptr_traits) id) ?cs Map.empty = Some [1 \<mapsto> None, 2 \<mapsto> Some (Some 8)]"
    by (auto simp: ptr_traits_def fun_eq_iff)
  ultimately obtain ms where ms: "exec_all (maybe_exec ptr_traits id) ?cs Map.empty = Some ms"
    "dom ms = {1, 2}" "\<And>i m. ms i = Some m \<Longrightarrow> [1 \<mapsto> None, 2 \<mapsto> Some (Some (8 :: nat))] i = Some (as_optional ptr_traits m)"
    using maybe_runs_optional [OF ptr.null_is_null, of id ?cs] by fastforce
  then have "\<exists>m. ms 1 = Some m" "\<exists>m. ms 2 = Some m" by blast+
  then show ?thesis using ms(1) ms(3) [of 1] ms(3) [of 2] by auto
qed

end
