(* ===== verification/Values.thy ===== *)
theory Values
  imports Prelude "HOL-Library.Signed_Division"
begin

text \<open>
  Small value types of the core library: fractions (\<open>frac.hpp\<close>), the matchers \<open>any_of\<close>, \<open>all_of\<close> and
  \<open>none_of\<close> (\<open>matcher.hpp\<close>), the boolean without implicit conversions (\<open>sbool.hpp\<close>), clean-up at the
  end of a scope (\<open>cleanup.hpp\<close>) and the exception for a failed system call (\<open>exceptions.hpp\<close>).
\<close>

section \<open>Signed integers\<close>

text \<open>The result of an operation on \<open>int\<close>: outside its 32 bits the behaviour is undefined.\<close>

definition int_range :: "int \<Rightarrow> bool" where
  "int_range x \<longleftrightarrow> - (2 ^ 31) \<le> x \<and> x < 2 ^ 31"

definition checked :: "int \<Rightarrow> int result" where
  "checked x = rbind (require Undefined (int_range x)) (\<lambda>_. Inr x)"

lemma checked_in [simp]: "int_range x \<Longrightarrow> checked x = Inr x"
  by (simp add: checked_def)

lemma checked_eq_Inr [result_simps]: "checked x = Inr y \<longleftrightarrow> int_range x \<and> y = x"
  by (auto simp: checked_def require_def)

section \<open>Fractions\<close>

(* core/include/upp/frac.hpp 8-11: frac *)
record frac =
  m_num :: int
  m_den :: int

(* core/include/upp/frac.hpp 14-14: frac() *)
definition frac_default :: frac where
  "frac_default = \<lparr>m_num = 0, m_den = 1\<rparr>"

(* core/include/upp/frac.hpp 15-16: frac(N, N) *)
definition frac_ctor :: "int \<Rightarrow> int \<Rightarrow> frac" where
  "frac_ctor num den = \<lparr>m_num = num, m_den = den\<rparr>"

text \<open>The conversion to a floating-point type gives NaN for the denominator 0, here \<open>None\<close>; for any other
  it ends without a \<open>return\<close>.\<close>

(* core/include/upp/frac.hpp 18-21: operator F *)
definition frac_to_float :: "frac \<Rightarrow> 'f option result" where
  "frac_to_float q = (if m_den q = 0 then Inr None else Inl Undefined)"

(* core/include/upp/frac.hpp 23-23: is_nan *)
definition frac_is_nan :: "frac \<Rightarrow> bool" where
  "frac_is_nan q \<longleftrightarrow> m_den q = 0"

(* core/include/upp/frac.hpp 25-25: reciprocal *)
definition frac_reciprocal :: "frac \<Rightarrow> frac" where
  "frac_reciprocal q = \<lparr>m_num = m_den q, m_den = m_num q\<rparr>"

(* core/include/upp/frac.hpp 33-37: operator+= *)
definition frac_add_assign :: "build \<Rightarrow> frac \<Rightarrow> frac \<Rightarrow> frac result" where
  "frac_add_assign b q other =
     rbind (cassert b (m_den q = m_den other)) (\<lambda>_.
     rbind (checked (m_num q + m_num other)) (\<lambda>n. Inr (q\<lparr>m_num := n\<rparr>)))"

text \<open>Division truncates; by zero, or of the smallest number by -1, it is undefined.\<close>

definition int_div :: "int \<Rightarrow> int \<Rightarrow> int result" where
  "int_div x y = rbind (require Undefined (y \<noteq> 0)) (\<lambda>_. checked (x sdiv y))"

definition int_mod :: "int \<Rightarrow> int \<Rightarrow> int result" where
  "int_mod x y = rbind (int_div x y) (\<lambda>_. Inr (x smod y))"

(* core/include/upp/frac.hpp 39-47: operator* *)
definition frac_scale :: "frac \<Rightarrow> int \<Rightarrow> frac result" where
  "frac_scale q scalar =
     rbind (checked (m_num q * scalar)) (\<lambda>num.
     rbind (int_mod num (m_den q)) (\<lambda>r.
       if r = 0 then rbind (int_div num (m_den q)) (\<lambda>num'. Inr \<lparr>m_num = num', m_den = 1\<rparr>)
       else Inr \<lparr>m_num = num, m_den = m_den q\<rparr>))"

lemma smod_0_iff: "(x :: int) smod y = 0 \<longleftrightarrow> y dvd x"
  by (auto simp: signed_modulo_int_def sgn_0_0 simp flip: dvd_eq_mod_eq_0)

lemma sdiv_dvd: "(y :: int) dvd x \<Longrightarrow> x sdiv y * y = x"
  using smod_0_iff [of x y] sdiv_mult_smod_eq [of x y] by simp

text \<open>Scaling keeps the value of the fraction and cancels the denominator where it divides.\<close>

lemma frac_scale_value:
  assumes "frac_scale q k = Inr r"
  shows "m_den q \<noteq> 0 \<and> m_num r * m_den q = m_num q * k * m_den r \<and>
    m_den r = (if m_den q dvd m_num q * k then 1 else m_den q)"
  using assms
  by (auto simp: frac_scale_def int_mod_def int_div_def result_simps smod_0_iff sdiv_dvd split: if_splits)

lemma sdiv_range:
  assumes "int_range x" and "y \<noteq> 0" and "y \<noteq> - 1"
  shows "int_range (x sdiv y)"
proof -
  have e: "x sdiv y = sgn x * sgn y * (\<bar>x\<bar> div \<bar>y\<bar>)" by (simp add: signed_divide_int_def)
  have x: "\<bar>x\<bar> \<le> 2 ^ 31" using assms(1) by (auto simp: int_range_def)
  show ?thesis
  proof (cases "y > 0")
    case True
    have "\<bar>x\<bar> div \<bar>y\<bar> \<le> \<bar>x\<bar>" using zdiv_mono2 [of "\<bar>x\<bar>" 1 "\<bar>y\<bar>"] assms(2) by simp
    moreover have "0 \<le> \<bar>x\<bar> div \<bar>y\<bar>" by (simp add: pos_imp_zdiv_nonneg_iff assms(2))
    ultimately show ?thesis using True assms(1) unfolding e int_range_def by (cases "x < 0"; cases "x = 0") auto
  next
    case False
    have "\<bar>x\<bar> div \<bar>y\<bar> \<le> \<bar>x\<bar> div 2" using False assms(2,3) by (intro zdiv_mono2) auto
    also have "\<dots> \<le> 2 ^ 30" using x by simp
    finally have "\<bar>x\<bar> div \<bar>y\<bar> \<le> 2 ^ 30" .
    moreover have "0 \<le> \<bar>x\<bar> div \<bar>y\<bar>" by (simp add: pos_imp_zdiv_nonneg_iff assms(2))
    ultimately show ?thesis unfolding e int_range_def by (auto simp: sgn_if)
  qed
qed

lemma frac_scale_defined:
  assumes "int_range (m_num q * k)" and "m_den q \<noteq> 0" and "m_den q \<noteq> - 1"
  shows "\<exists>r. frac_scale q k = Inr r"
  using assms sdiv_range
  by (auto simp: frac_scale_def int_mod_def int_div_def)

lemma frac_scale_nan: "frac_is_nan q \<Longrightarrow> frac_scale q k = Inl Undefined"
  by (simp add: frac_is_nan_def frac_scale_def int_mod_def int_div_def checked_def require_def)

lemma frac_reciprocal_twice [simp]: "frac_reciprocal (frac_reciprocal q) = q"
  by (simp add: frac_reciprocal_def)

section \<open>Matchers\<close>

text \<open>A matcher is compared with a value from the left, element by element.\<close>

datatype 't matcher = Any_Of "'t list" | All_Of "'t list" | None_Of "'t list"

(* core/include/upp/matcher.hpp 29-60: operator== *)
fun matches :: "'t \<Rightarrow> 't matcher \<Rightarrow> bool" where
  "matches lhs (Any_Of ps) = foldr (\<lambda>p r. lhs = p \<or> r) ps False"
| "matches lhs (All_Of ps) = foldr (\<lambda>p r. lhs = p \<and> r) ps True"
| "matches lhs (None_Of ps) = foldr (\<lambda>p r. lhs \<noteq> p \<and> r) ps True"

lemma matches_iff:
  "matches x (Any_Of ps) \<longleftrightarrow> x \<in> set ps"
  "matches x (All_Of ps) \<longleftrightarrow> set ps \<subseteq> {x}"
  "matches x (None_Of ps) \<longleftrightarrow> x \<notin> set ps"
  by (induction ps) auto

section \<open>Booleans\<close>

(* core/include/upp/sbool.hpp 14-19: sbool *)
record sbool =
  sb_v :: bool

(* core/include/upp/sbool.hpp 27-27: operator bool *)
definition sbool_value :: "sbool \<Rightarrow> bool" where
  "sbool_value x = sb_v x"

definition sbool_oper :: "(nat \<Rightarrow> nat \<Rightarrow> bool) \<Rightarrow> sbool \<Rightarrow> sbool \<Rightarrow> sbool" where
  "sbool_oper oper x other = \<lparr>sb_v = oper (of_bool (sb_v x)) (of_bool (sb_v other))\<rparr>"

text \<open>The operators compare the numbers 0 and 1 that the booleans are promoted to.\<close>

(* core/include/upp/sbool.hpp 29-40: OPER *)
definition sbool_operators :: "(string \<times> (sbool \<Rightarrow> sbool \<Rightarrow> sbool)) list" where
  "sbool_operators =
     [(''=='', sbool_oper (=)), (''!='', sbool_oper (\<noteq>)), (''<='', sbool_oper (\<le>)),
      (''>='', sbool_oper (\<ge>)), (''<'', sbool_oper (<)), (''>'', sbool_oper (>))]"

lemma sbool_le: "sb_v (sbool_oper (\<le>) x y) \<longleftrightarrow> (sb_v x \<longrightarrow> sb_v y)"
  by (simp add: sbool_oper_def)

section \<open>Clean-up\<close>

text \<open>When a clean-up runs depends on the number of exceptions in flight.\<close>

(* core/include/upp/cleanup.hpp 37-39: always_traits *)
definition always_traits :: "nat \<Rightarrow> bool" where
  "always_traits uncaught = True"

(* core/include/upp/cleanup.hpp 40-44: throw_traits *)
definition throw_traits :: "nat \<Rightarrow> bool" where
  "throw_traits uncaught \<longleftrightarrow> uncaught > 0"

(* core/include/upp/cleanup.hpp 45-49: success_traits *)
definition success_traits :: "nat \<Rightarrow> bool" where
  "success_traits uncaught \<longleftrightarrow> uncaught = 0"

(* core/include/upp/cleanup.hpp 33-34: basic_cleanup *)
record 's cleanup =
  m_fn :: "'s \<Rightarrow> 's result"
  m_cancelled :: bool

(* core/include/upp/cleanup.hpp 12-14: basic_cleanup(Fn) *)
definition cleanup_ctor :: "('s \<Rightarrow> 's result) \<Rightarrow> 's cleanup" where
  "cleanup_ctor fn = \<lparr>m_fn = fn, m_cancelled = False\<rparr>"

(* core/include/upp/cleanup.hpp 22-24: cancel *)
definition cleanup_cancel :: "bool \<Rightarrow> 's cleanup \<Rightarrow> 's cleanup" where
  "cleanup_cancel cancelled c = c\<lparr>m_cancelled := cancelled\<rparr>"

(* core/include/upp/cleanup.hpp 26-30: ~basic_cleanup *)
definition cleanup_dtor :: "(nat \<Rightarrow> bool) \<Rightarrow> nat \<Rightarrow> 's cleanup \<Rightarrow> 's \<Rightarrow> 's result" where
  "cleanup_dtor need uncaught c s =
     (if m_cancelled c then Inr s else if \<not> need uncaught then Inr s else m_fn c s)"

text \<open>A scope that holds a clean-up: the body may cancel it and may throw; \<open>u\<close> exceptions are in flight
  outside.  The result tells whether the body threw.\<close>

definition cleanup_scope ::
    "(nat \<Rightarrow> bool) \<Rightarrow> nat \<Rightarrow> ('s \<Rightarrow> 's result) \<Rightarrow> ('s \<times> 's cleanup \<Rightarrow> ('s \<times> 's cleanup \<times> bool) result) \<Rightarrow>
      's \<Rightarrow> ('s \<times> bool) result" where
  "cleanup_scope need u fn body s =
     rbind (body (s, cleanup_ctor fn)) (\<lambda>(s', c, thrown).
     rbind (cleanup_dtor need (if thrown then Suc u else u) c s') (\<lambda>s''. Inr (s'', thrown)))"

text \<open>Outside of an unwinding the three kinds run always, on a throw and on success; in a destructor that
  runs during an unwinding the last two take the outer exception for one of their own scope.\<close>

lemma cleanup_scope_runs:
  assumes "body (s, cleanup_ctor fn) = Inr (s', cleanup_ctor fn, thrown)"
  shows "cleanup_scope always_traits u fn body s = rbind (fn s') (\<lambda>t. Inr (t, thrown))"
    and "cleanup_scope throw_traits u fn body s =
      (if thrown \<or> u > 0 then rbind (fn s') (\<lambda>t. Inr (t, thrown)) else Inr (s', thrown))"
    and "cleanup_scope success_traits u fn body s =
      (if thrown \<or> u > 0 then Inr (s', thrown) else rbind (fn s') (\<lambda>t. Inr (t, thrown)))"
  using assms
  by (simp_all add: cleanup_scope_def cleanup_dtor_def cleanup_ctor_def always_traits_def throw_traits_def success_traits_def)

section \<open>System calls\<close>

text \<open>\<open>strerror\<close> is the C library's text for an error number.\<close>

(* core/lib/exceptions.cpp 8-11: throw_errno *)
definition throw_errno :: "(int \<Rightarrow> string) \<Rightarrow> int \<Rightarrow> 'a result" where
  "throw_errno strerror ec = Inl (Runtime_Error (strerror ec))"

end
