(* ===== verification/Handles.thy ===== *)
theory Handles
  imports Prelude
begin

text \<open>
  Unique ownership of a handle, the pattern that the classes of \<open>fs\<close>, \<open>linux\<close> and \<open>codec\<close> share: an
  object holds a handle or a null value, a move takes it over and leaves null behind, the destructor
  gives a valid handle back to its provider, and move assignment destroys the target and constructs it
  anew.  The objects live in a store, the provider in the world.  The locale collects the laws of such
  a class and proves, once for all of them, that no handle is given back twice and none is lost.
\<close>

section \<open>Effects\<close>

text \<open>A call that may fail and changes the world.\<close>

type_synonym ('a, 'w) io = "'w \<Rightarrow> 'a result \<times> 'w"

definition io_return :: "'a \<Rightarrow> ('a, 'w) io" where
  "io_return x = (\<lambda>w. (Inr x, w))"

definition io_fail :: "error \<Rightarrow> ('a, 'w) io" where
  "io_fail e = (\<lambda>w. (Inl e, w))"

definition io_bind :: "('a, 'w) io \<Rightarrow> ('a \<Rightarrow> ('b, 'w) io) \<Rightarrow> ('b, 'w) io" where
  "io_bind m f = (\<lambda>w. case m w of (Inl e, w') \<Rightarrow> (Inl e, w') | (Inr x, w') \<Rightarrow> f x w')"

definition io_lift :: "'a result \<Rightarrow> ('a, 'w) io" where
  "io_lift r = (\<lambda>w. (r, w))"

lemma io_simps [simp]:
  "io_return x w = (Inr x, w)" "io_fail e w = (Inl e, w)" "io_lift r w = (r, w)"
  by (simp_all add: io_return_def io_fail_def io_lift_def)

lemma io_bind_Inr [simp]: "m w = (Inr x, w') \<Longrightarrow> io_bind m f w = f x w'"
  by (simp add: io_bind_def)

lemma io_bind_Inl [simp]: "m w = (Inl e, w') \<Longrightarrow> io_bind m f w = (Inl e, w')"
  by (simp add: io_bind_def)

section \<open>Objects that own a handle\<close>

record ('h, 'w) owners =
  obj_at :: "nat \<Rightarrow> 'h option"
  world :: 'w

definition own_ctor :: "nat \<Rightarrow> ('h, 'w) io \<Rightarrow> ('h, 'w) owners \<Rightarrow> error option \<times> ('h, 'w) owners" where
  "own_ctor a create s = (case create (world s) of
      (Inl e, w) \<Rightarrow> (Some e, s\<lparr>world := w\<rparr>)
    | (Inr h, w) \<Rightarrow> (None, s\<lparr>obj_at := (obj_at s)(a \<mapsto> h), world := w\<rparr>))"

text \<open>\<open>m_handle(std::exchange(other.m_handle, null))\<close>\<close>

definition own_move_ctor :: "'h \<Rightarrow> nat \<Rightarrow> nat \<Rightarrow> ('h, 'w) owners \<Rightarrow> ('h, 'w) owners result" where
  "own_move_ctor null a b s = (case obj_at s b of None \<Rightarrow> Inl Undefined
    | Some h \<Rightarrow> Inr (s\<lparr>obj_at := (obj_at s)(b \<mapsto> null, a \<mapsto> h)\<rparr>))"

definition own_dtor :: "('h \<Rightarrow> bool) \<Rightarrow> ('h \<Rightarrow> 'w \<Rightarrow> 'w) \<Rightarrow> nat \<Rightarrow> ('h, 'w) owners \<Rightarrow> ('h, 'w) owners result" where
  "own_dtor valid close a s = (case obj_at s a of None \<Rightarrow> Inl Undefined
    | Some h \<Rightarrow> Inr (s\<lparr>obj_at := (obj_at s)(a := None), world := (if valid h then close h (world s) else world s)\<rparr>))"

text \<open>\<open>std::destroy_at(this); std::construct_at(this, std::move(other));\<close>, which reads an object
  after its lifetime when it is assigned to itself.\<close>

definition own_move_assign ::
    "'h \<Rightarrow> ('h \<Rightarrow> bool) \<Rightarrow> ('h \<Rightarrow> 'w \<Rightarrow> 'w) \<Rightarrow> nat \<Rightarrow> nat \<Rightarrow> ('h, 'w) owners \<Rightarrow> ('h, 'w) owners result" where
  "own_move_assign null valid close a b s = rbind (own_dtor valid close a s) (own_move_ctor null a b)"

record ('h, 'w) owner_class =
  oc_move_ctor :: "nat \<Rightarrow> nat \<Rightarrow> ('h, 'w) owners \<Rightarrow> ('h, 'w) owners result"
  oc_move_assign :: "nat \<Rightarrow> nat \<Rightarrow> ('h, 'w) owners \<Rightarrow> ('h, 'w) owners result"
  oc_dtor :: "nat \<Rightarrow> ('h, 'w) owners \<Rightarrow> ('h, 'w) owners result"

text \<open>One operation on the objects of a class; \<open>create\<close> says what its other constructors do.\<close>

inductive owner_step ::
    "('h, 'w) owner_class \<Rightarrow> ('h, 'w) io set \<Rightarrow> ('h, 'w) owners \<Rightarrow> ('h, 'w) owners \<Rightarrow> bool"
  for C creates where
  own_create: "create \<in> creates \<Longrightarrow> obj_at s a = None \<Longrightarrow> own_ctor a create s = (e, s') \<Longrightarrow> owner_step C creates s s'"
| own_move: "obj_at s a = None \<Longrightarrow> oc_move_ctor C a b s = Inr s' \<Longrightarrow> owner_step C creates s s'"
| own_assign: "obj_at s a \<noteq> None \<Longrightarrow> oc_move_assign C a b s = Inr s' \<Longrightarrow> owner_step C creates s s'"
| own_destroy: "oc_dtor C a s = Inr s' \<Longrightarrow> owner_step C creates s s'"

inductive owner_reach ::
    "('h, 'w) owner_class \<Rightarrow> ('h, 'w) io set \<Rightarrow> ('h, 'w) owners \<Rightarrow> ('h, 'w) owners \<Rightarrow> bool"
  for C creates s where
  own_init: "owner_reach C creates s s"
| own_next: "owner_reach C creates s u \<Longrightarrow> owner_step C creates u v \<Longrightarrow> owner_reach C creates s v"

section \<open>The invariant\<close>

text \<open>The handles that are open are those held by exactly one object and those that others hold.\<close>

definition held :: "('h \<Rightarrow> bool) \<Rightarrow> (nat \<Rightarrow> 'h option) \<Rightarrow> 'h set" where
  "held valid O' = {h. valid h \<and> (\<exists>a. O' a = Some h)}"

definition sole :: "('h \<Rightarrow> bool) \<Rightarrow> (nat \<Rightarrow> 'h option) \<Rightarrow> bool" where
  "sole valid O' \<longleftrightarrow> (\<forall>a b h. valid h \<and> O' a = Some h \<and> O' b = Some h \<longrightarrow> a = b)"

lemma soleD: "sole valid O' \<Longrightarrow> O' a = Some h \<Longrightarrow> O' b = Some h \<Longrightarrow> valid h \<Longrightarrow> a = b"
  unfolding sole_def by blast

lemma heldI: "O' a = Some h \<Longrightarrow> valid h \<Longrightarrow> h \<in> held valid O'"
  unfolding held_def by blast

lemma sole_move:
  assumes "sole valid O'" and "O' a = None" and "O' b = Some h" and "\<not> valid null"
  shows "sole valid (O'(b \<mapsto> null, a \<mapsto> h))" and "held valid (O'(b \<mapsto> null, a \<mapsto> h)) = held valid O'"
proof -
  have ab: "a \<noteq> b" using assms(2,3) by auto
  show "sole valid (O'(b \<mapsto> null, a \<mapsto> h))"
    using soleD [OF assms(1)] assms(3,4) unfolding sole_def by (auto split: if_splits)
  show "held valid (O'(b \<mapsto> null, a \<mapsto> h)) = held valid O'"
  proof (intro set_eqI iffI)
    fix k assume "k \<in> held valid (O'(b \<mapsto> null, a \<mapsto> h))"
    then show "k \<in> held valid O'" using assms(3,4) by (auto simp: held_def split: if_splits)
  next
    fix k assume "k \<in> held valid O'"
    then obtain c where c: "O' c = Some k" "valid k" by (auto simp: held_def)
    show "k \<in> held valid (O'(b \<mapsto> null, a \<mapsto> h))"
    proof (cases "c = b")
      case True
      then show ?thesis using c assms(3) by (intro heldI [of _ a]) auto
    next
      case False
      then show ?thesis using c assms(2) by (intro heldI [of _ c]) auto
    qed
  qed
qed

lemma sole_drop:
  assumes "sole valid O'" and "O' a = Some h"
  shows "sole valid (O'(a := None))"
    and "held valid (O'(a := None)) = (if valid h then held valid O' - {h} else held valid O')"
proof -
  show "sole valid (O'(a := None))" using soleD [OF assms(1)] unfolding sole_def by (auto split: if_splits)
  have "k \<in> held valid (O'(a := None)) \<longleftrightarrow> k \<in> held valid O' \<and> (valid h \<longrightarrow> k \<noteq> h)" for k
  proof
    assume "k \<in> held valid (O'(a := None))"
    then show "k \<in> held valid O' \<and> (valid h \<longrightarrow> k \<noteq> h)"
      using soleD [OF assms(1,2)] by (auto simp: held_def split: if_splits)
  next
    assume k: "k \<in> held valid O' \<and> (valid h \<longrightarrow> k \<noteq> h)"
    then obtain c where c: "O' c = Some k" "valid k" by (auto simp: held_def)
    then have "c \<noteq> a" using k assms(2) by auto
    then show "k \<in> held valid (O'(a := None))" using c by (intro heldI [of _ c]) auto
  qed
  then show "held valid (O'(a := None)) = (if valid h then held valid O' - {h} else held valid O')" by auto
qed

lemma sole_add:
  assumes "sole valid O'" and "O' a = None" and "valid h \<Longrightarrow> h \<notin> held valid O'"
  shows "sole valid (O'(a \<mapsto> h))"
    and "held valid (O'(a \<mapsto> h)) = (if valid h then insert h (held valid O') else held valid O')"
proof -
  show "sole valid (O'(a \<mapsto> h))"
    using soleD [OF assms(1)] assms(3) unfolding sole_def held_def by (auto split: if_splits)
  have "k \<in> held valid (O'(a \<mapsto> h)) \<longleftrightarrow> k \<in> held valid O' \<or> valid h \<and> k = h" for k
    using assms(2) by (auto simp: held_def) (metis option.distinct(1))
  then show "held valid (O'(a \<mapsto> h)) = (if valid h then insert h (held valid O') else held valid O')" by auto
qed

definition owned :: "('h \<Rightarrow> bool) \<Rightarrow> ('w \<Rightarrow> 'h set) \<Rightarrow> 'h set \<Rightarrow> ('h, 'w) owners \<Rightarrow> bool" where
  "owned valid opens foreign s \<longleftrightarrow> sole valid (obj_at s) \<and> held valid (obj_at s) \<inter> foreign = {} \<and>
     opens (world s) = held valid (obj_at s) \<union> foreign"

text \<open>What the provider promises: a new handle was not open before, a failed call opens none, and giving an
  open handle back closes it alone.\<close>

definition fresh_create :: "('h \<Rightarrow> bool) \<Rightarrow> ('w \<Rightarrow> 'h set) \<Rightarrow> ('h, 'w) io \<Rightarrow> bool" where
  "fresh_create valid opens create \<longleftrightarrow> (\<forall>w. case create w of
      (Inl e, w') \<Rightarrow> opens w' = opens w
    | (Inr h, w') \<Rightarrow> if valid h then h \<notin> opens w \<and> opens w' = insert h (opens w) else opens w' = opens w)"

definition closes :: "('w \<Rightarrow> 'h set) \<Rightarrow> ('h \<Rightarrow> 'w \<Rightarrow> 'w) \<Rightarrow> bool" where
  "closes opens close \<longleftrightarrow> (\<forall>h w. h \<in> opens w \<longrightarrow> opens (close h w) = opens w - {h})"

section \<open>The laws of such a class\<close>

locale unique_owner =
  fixes C :: "('h, 'w) owner_class" and null :: 'h and valid :: "'h \<Rightarrow> bool" and close :: "'h \<Rightarrow> 'w \<Rightarrow> 'w"
  assumes null_invalid: "\<not> valid null"
    and move_ctor_law: "oc_move_ctor C = own_move_ctor null"
    and dtor_law: "oc_dtor C = own_dtor valid close"
    and move_assign_law: "oc_move_assign C = own_move_assign null valid close"
begin

lemma owned_move:
  assumes "owned valid opens F s" and "obj_at s a = None" and "oc_move_ctor C a b s = Inr s'"
  shows "owned valid opens F s'"
proof -
  obtain h where h: "obj_at s b = Some h" and s': "s' = s\<lparr>obj_at := (obj_at s)(b \<mapsto> null, a \<mapsto> h)\<rparr>"
    using assms(3) by (auto simp: move_ctor_law own_move_ctor_def split: option.splits)
  have "sole valid (obj_at s)" using assms(1) by (simp add: owned_def)
  from sole_move [of valid "obj_at s" a b h null, OF this assms(2) h null_invalid] assms(1) show ?thesis
    unfolding owned_def s' by (simp del: fun_upd_apply)
qed

lemma owned_dtor:
  assumes "owned valid opens F s" and "closes opens close" and "oc_dtor C a s = Inr s'"
  shows "owned valid opens F s' \<and> obj_at s' a = None \<and> (\<forall>h. obj_at s a = Some h \<longrightarrow> valid h \<longrightarrow> h \<in> opens (world s))"
proof -
  obtain h where h: "obj_at s a = Some h"
    and s': "s' = s\<lparr>obj_at := (obj_at s)(a := None), world := (if valid h then close h (world s) else world s)\<rparr>"
    using assms(3) by (auto simp: dtor_law own_dtor_def split: option.splits)
  have o: "sole valid (obj_at s)" "held valid (obj_at s) \<inter> F = {}" "opens (world s) = held valid (obj_at s) \<union> F"
    using assms(1) by (simp_all add: owned_def)
  have hin: "valid h \<Longrightarrow> h \<in> held valid (obj_at s)" using heldI [of "obj_at s" a h] h by blast
  have "opens (world s') = (if valid h then opens (world s) - {h} else opens (world s))"
    using assms(2) hin o(3) unfolding s' closes_def by auto
  moreover have "held valid (obj_at s') = (if valid h then held valid (obj_at s) - {h} else held valid (obj_at s))"
    unfolding s' using sole_drop(2) [of valid "obj_at s" a h, OF o(1) h] by (simp del: fun_upd_apply)
  moreover have "sole valid (obj_at s')" unfolding s' using sole_drop(1) [of valid "obj_at s" a h, OF o(1) h] by (simp del: fun_upd_apply)
  ultimately show ?thesis using o hin h unfolding owned_def s' by auto
qed

lemma owned_create:
  assumes "owned valid opens F s" and "fresh_create valid opens create" and "obj_at s a = None"
    and "own_ctor a create s = (e, s')"
  shows "owned valid opens F s'"
proof (cases "create (world s)")
  case (Pair r w)
  have o: "sole valid (obj_at s)" "held valid (obj_at s) \<inter> F = {}" "opens (world s) = held valid (obj_at s) \<union> F"
    using assms(1) by (simp_all add: owned_def)
  show ?thesis
  proof (cases r)
    case (Inl x)
    then have "opens w = opens (world s)" using assms(2) Pair by (auto simp: fresh_create_def dest: spec [of _ "world s"])
    then show ?thesis using assms(4) Pair Inl o by (auto simp: own_ctor_def owned_def)
  next
    case (Inr h)
    then have w: "if valid h then h \<notin> opens (world s) \<and> opens w = insert h (opens (world s)) else opens w = opens (world s)"
      using assms(2) Pair by (auto simp: fresh_create_def dest: spec [of _ "world s"])
    have s': "s' = s\<lparr>obj_at := (obj_at s)(a \<mapsto> h), world := w\<rparr>" using assms(4) Pair Inr by (simp add: own_ctor_def)
    have n: "valid h \<Longrightarrow> h \<notin> held valid (obj_at s)" using w o(3) by auto
    show ?thesis using sole_add [of valid "obj_at s" a h, OF o(1) assms(3) n] w o unfolding owned_def s'
      by (auto simp del: fun_upd_apply split: if_splits)
  qed
qed

lemma owned_step:
  assumes "closes opens close" and "\<And>create. create \<in> creates \<Longrightarrow> fresh_create valid opens create"
  shows "owner_step C creates s s' \<Longrightarrow> owned valid opens F s \<Longrightarrow> owned valid opens F s'"
proof (induction rule: owner_step.induct)
  case (own_assign s a b s')
  then obtain u where u: "oc_dtor C a s = Inr u" "oc_move_ctor C a b u = Inr s'"
    by (auto simp: move_assign_law own_move_assign_def dtor_law move_ctor_law result_simps)
  with owned_dtor [OF own_assign.prems assms(1) u(1)] show ?case using owned_move by blast
qed (use assms owned_move owned_dtor owned_create in blast)+

lemma owned_reach:
  assumes "owner_reach C creates s u" and "closes opens close"
    and "\<And>create. create \<in> creates \<Longrightarrow> fresh_create valid opens create" and "owned valid opens F s"
  shows "owned valid opens F u"
  using assms(1) by induction (use assms owned_step in blast)+

lemma self_assign_undefined: "oc_move_assign C a a s = Inl Undefined"
  by (cases "obj_at s a")
    (simp_all add: move_assign_law own_move_assign_def own_dtor_def own_move_ctor_def)

text \<open>Nothing is closed twice and nothing leaks: each destructor that calls \<open>close\<close> gives an open handle, and
  without objects only the handles of others are open.\<close>

lemma no_double_close:
  assumes "owner_reach C creates s u" and "closes opens close"
    and "\<And>create. create \<in> creates \<Longrightarrow> fresh_create valid opens create"
    and "obj_at s = Map.empty"
  shows "(obj_at u a = Some h \<longrightarrow> valid h \<longrightarrow> h \<in> opens (world u) \<and> (\<forall>b. obj_at u b = Some h \<longrightarrow> b = a)) \<and>
    (obj_at u = Map.empty \<longrightarrow> opens (world u) = opens (world s))"
proof -
  have "owned valid opens (opens (world s)) s" using assms(4) by (auto simp: owned_def sole_def held_def)
  from owned_reach [OF assms(1-3) this] have o: "owned valid opens (opens (world s)) u" .
  have n: "held valid Map.empty = {}" by (simp add: held_def)
  show ?thesis
    using o soleD [of valid "obj_at u"] heldI [of "obj_at u"] n unfolding owned_def by auto
qed

end

end
