(* ===== verification/Files.thy ===== *)
theory Files
  imports Handles Strings Values "HOL-Library.Code_Target_Numeral"
begin

text \<open>
  Files and temporary directories, \<open>fs/lib/file.cpp\<close> and \<open>tmpfile.cpp\<close>.  The system calls are a
  parameter: a record of functions on the world.  What the theorems need of them are named hypotheses,
  \<open>posix_descriptors\<close> for descriptors and \<open>regular_file\<close> for reading and seeking; the example system at
  the end satisfies both.  \<open>file\<close> interprets the laws of unique ownership.
\<close>

type_synonym byte = "8 word"

record 'w posix =
  px_open :: "string \<Rightarrow> 32 word \<Rightarrow> 'w \<Rightarrow> int \<times> 'w"
  px_close :: "int \<Rightarrow> 'w \<Rightarrow> int \<times> 'w"
  px_write :: "int \<Rightarrow> byte list \<Rightarrow> 'w \<Rightarrow> int \<times> 'w"
  px_read :: "int \<Rightarrow> nat \<Rightarrow> 'w \<Rightarrow> (int \<times> byte list) \<times> 'w"
  px_lseek :: "int \<Rightarrow> int \<Rightarrow> int \<Rightarrow> 'w \<Rightarrow> int \<times> 'w"
  px_mkdtemp :: "string \<Rightarrow> 'w \<Rightarrow> string option \<times> 'w"
  px_remove_all :: "string \<Rightarrow> 'w \<Rightarrow> 'w"
  px_getenv :: "string \<Rightarrow> 'w \<Rightarrow> string option"
  px_errno :: "'w \<Rightarrow> int"
  px_strerror :: "int \<Rightarrow> string"

text \<open>The flags of \<open>open\<close> and the origins of \<open>lseek\<close> on Linux.\<close>

definition O_RDWR :: "32 word" where "O_RDWR = 0x2"
definition O_CREAT :: "32 word" where "O_CREAT = 0x40"
definition O_EXCL :: "32 word" where "O_EXCL = 0x80"
definition O_TMPFILE :: "32 word" where "O_TMPFILE = 0x410000"

definition SEEK_SET :: int where "SEEK_SET = 0"
definition SEEK_CUR :: int where "SEEK_CUR = 1"
definition SEEK_END :: int where "SEEK_END = 2"

(* core/lib/exceptions.cpp 13-13: throw_errno() *)
definition throw_last_errno :: "'w posix \<Rightarrow> ('a, 'w) io" where
  "throw_last_errno P = (\<lambda>w. (throw_errno (px_strerror P) (px_errno P w), w))"

definition check_call :: "'w posix \<Rightarrow> bool \<Rightarrow> 'a \<Rightarrow> ('a, 'w) io" where
  "check_call P failed x = (if failed then throw_last_errno P else io_return x)"

section \<open>Descriptors\<close>

(* fs/include/upp/fs/file.hpp 14-27: null_native_handle_t *)
definition null_native_handle :: int where
  "null_native_handle = - 1"

definition is_native_handle :: "int \<Rightarrow> bool" where
  "is_native_handle hndl \<longleftrightarrow> \<not> hndl < 0"

(* fs/lib/file.cpp 11-14: file::do_close *)
definition file_do_close :: "'w posix \<Rightarrow> int \<Rightarrow> 'w \<Rightarrow> 'w" where
  "file_do_close P h w = (if \<not> is_native_handle h then w else snd (px_close P h w))"

(* fs/lib/file.cpp 15-21: file::file *)
definition file_open :: "'w posix \<Rightarrow> string \<Rightarrow> (int, 'w) io" where
  "file_open P path = (\<lambda>w. case px_open P path (O_CREAT OR O_RDWR) w of (h, w') \<Rightarrow>
     check_call P (\<not> is_native_handle h) h w')"

(* fs/include/upp/fs/file.hpp 43-44: file(file&&) *)
definition file_move_ctor :: "nat \<Rightarrow> nat \<Rightarrow> (int, 'w) owners \<Rightarrow> (int, 'w) owners result" where
  "file_move_ctor = own_move_ctor null_native_handle"

(* fs/include/upp/fs/file.hpp 52-54: ~file *)
definition file_dtor :: "'w posix \<Rightarrow> nat \<Rightarrow> (int, 'w) owners \<Rightarrow> (int, 'w) owners result" where
  "file_dtor P = own_dtor is_native_handle (file_do_close P)"

(* fs/include/upp/fs/file.hpp 46-50: file::operator= *)
definition file_move_assign :: "'w posix \<Rightarrow> nat \<Rightarrow> nat \<Rightarrow> (int, 'w) owners \<Rightarrow> (int, 'w) owners result" where
  "file_move_assign P a b s = rbind (file_dtor P a s) (file_move_ctor a b)"

(* fs/include/upp/fs/file.hpp 71-73: file::release *)
definition file_release :: "nat \<Rightarrow> (int, 'w) owners \<Rightarrow> (int \<times> (int, 'w) owners) result" where
  "file_release a s = (case obj_at s a of None \<Rightarrow> Inl Undefined
    | Some h \<Rightarrow> Inr (h, s\<lparr>obj_at := (obj_at s)(a \<mapsto> null_native_handle)\<rparr>))"

definition file_class :: "'w posix \<Rightarrow> (int, 'w) owner_class" where
  "file_class P = \<lparr>oc_move_ctor = file_move_ctor, oc_move_assign = file_move_assign P, oc_dtor = file_dtor P\<rparr>"

interpretation files: unique_owner "file_class P" null_native_handle is_native_handle "file_do_close P" for P
  by unfold_locales
    (auto simp: file_class_def null_native_handle_def is_native_handle_def file_move_ctor_def file_dtor_def
      file_move_assign_def own_move_assign_def fun_eq_iff)

section \<open>Reading, writing and seeking\<close>

text \<open>The conversions between \<open>size_t\<close> and \<open>off_t\<close>, both of 64 bits.\<close>

definition to_off_t :: "nat \<Rightarrow> int" where
  "to_off_t n = sint (of_nat n :: 64 word)"

definition to_size_t :: "int \<Rightarrow> nat" where
  "to_size_t x = unat (of_int x :: 64 word)"

(* fs/lib/file.cpp 24-28: file::write *)
definition file_write :: "'w posix \<Rightarrow> int \<Rightarrow> byte list \<Rightarrow> (nat, 'w) io" where
  "file_write P h data = (\<lambda>w. case px_write P h data w of (count, w') \<Rightarrow>
     check_call P (count < 0) (to_size_t count) w')"

(* fs/lib/file.cpp 31-38: file::seek_begin *)
definition file_seek_begin :: "'w posix \<Rightarrow> build \<Rightarrow> int \<Rightarrow> nat \<Rightarrow> (nat, 'w) io" where
  "file_seek_begin P b h offset = io_bind (io_lift (cassert b (offset \<le> 2 ^ 63 - 1))) (\<lambda>_ w.
     case px_lseek P h (to_off_t offset) SEEK_SET w of (res, w') \<Rightarrow>
     check_call P (res = - 1) (to_size_t res) w')"

(* fs/lib/file.cpp 41-45: file::seek_end *)
definition file_seek_end :: "'w posix \<Rightarrow> int \<Rightarrow> int \<Rightarrow> (nat, 'w) io" where
  "file_seek_end P h offset = (\<lambda>w. case px_lseek P h offset SEEK_END w of (res, w') \<Rightarrow>
     check_call P (res = - 1) (to_size_t res) w')"

(* fs/lib/file.cpp 48-52: file::seek_current *)
definition file_seek_current :: "'w posix \<Rightarrow> int \<Rightarrow> int \<Rightarrow> (nat, 'w) io" where
  "file_seek_current P h offset = (\<lambda>w. case px_lseek P h offset SEEK_CUR w of (res, w') \<Rightarrow>
     check_call P (res = - 1) (to_size_t res) w')"

text \<open>Reading overwrites the front of the buffer.\<close>

(* fs/lib/file.cpp 55-59: file::read *)
definition file_read :: "'w posix \<Rightarrow> int \<Rightarrow> byte list \<Rightarrow> (nat \<times> byte list, 'w) io" where
  "file_read P h data = (\<lambda>w. case px_read P h (length data) w of ((count, bytes), w') \<Rightarrow>
     check_call P (count < 0) (to_size_t count, bytes @ drop (length bytes) data) w')"

text \<open>The overloads for bytes pass the same bytes on.\<close>

(* fs/lib/file.cpp 60-63: file::read *)
definition file_read_bytes :: "'w posix \<Rightarrow> int \<Rightarrow> byte list \<Rightarrow> (nat \<times> byte list, 'w) io" where
  "file_read_bytes P h data = (let spn = data in file_read P h spn)"

(* fs/include/upp/fs/file.hpp 57-59: file::write *)
definition file_write_bytes :: "'w posix \<Rightarrow> int \<Rightarrow> byte list \<Rightarrow> (nat, 'w) io" where
  "file_write_bytes P h data = file_write P h data"

text \<open>A vector that would exceed its maximal size is refused.  The exception for an unexpected amount of
  data is created, but not thrown: the result keeps the zeros it was filled with.\<close>

(* fs/lib/file.cpp 65-73: file::read_bin *)
definition file_read_bin :: "'w posix \<Rightarrow> build \<Rightarrow> int \<Rightarrow> (byte list, 'w) io" where
  "file_read_bin P b h =
     io_bind (file_seek_current P h 0) (\<lambda>curr.
     io_bind (file_seek_end P h 0) (\<lambda>end_pos.
     let size = to_size_t (int end_pos - int curr) in
     io_bind (file_seek_begin P b h curr) (\<lambda>_.
     io_bind (io_lift (require Length_Error (size \<le> 2 ^ 63 - 1))) (\<lambda>_.
     io_bind (file_read P h (replicate size 0)) (\<lambda>(count, vec). io_return vec)))))"

text \<open>The same with a string.\<close>

(* fs/lib/file.cpp 75-83: file::read_text *)
definition file_read_text :: "'w posix \<Rightarrow> build \<Rightarrow> int \<Rightarrow> (byte list, 'w) io" where
  "file_read_text P b h =
     io_bind (file_seek_current P h 0) (\<lambda>curr.
     io_bind (file_seek_end P h 0) (\<lambda>end_pos.
     let size = to_size_t (int end_pos - int curr) in
     io_bind (file_seek_begin P b h curr) (\<lambda>_.
     io_bind (io_lift (require Length_Error (size \<le> 2 ^ 63 - 1))) (\<lambda>_.
     io_bind (file_read P h (replicate size 0)) (\<lambda>(count, str). io_return str)))))"

section \<open>Temporary files\<close>

(* fs/lib/tmpfile.cpp 14-18: tmpdir_path *)
definition tmpdir_path :: "'w posix \<Rightarrow> 'w \<Rightarrow> string" where
  "tmpdir_path P w = (case px_getenv P ''TMPDIR'' w of Some res \<Rightarrow> res | None \<Rightarrow> ''/tmp/'')"

(* fs/lib/tmpfile.cpp 22-28: unnamed_tmpfile *)
definition unnamed_tmpfile :: "'w posix \<Rightarrow> (int, 'w) io" where
  "unnamed_tmpfile P = (\<lambda>w. case px_open P (tmpdir_path P w) (O_TMPFILE OR O_RDWR OR O_EXCL) w of (fd, w') \<Rightarrow>
     check_call P (fd < 0) fd w')"

definition ends_with :: "string \<Rightarrow> char \<Rightarrow> bool" where
  "ends_with s c \<longleftrightarrow> s \<noteq> [] \<and> last s = c"

(* fs/lib/tmpfile.cpp 30-43: tmpdir::tmpdir *)
definition tmpdir_ctor :: "'w posix \<Rightarrow> (string, 'w) io" where
  "tmpdir_ctor P = (\<lambda>w.
     let t = tmpdir_path P w;
         buf = t @ (if ends_with t CHR ''/'' then [] else ''/'') @ ''XXXXXX'' in
     case px_mkdtemp P buf w of (res, w') \<Rightarrow> (case res of
       None \<Rightarrow> throw_last_errno P w'
     | Some path \<Rightarrow> io_return path w'))"

text \<open>The moves are the compiler's: they move the path, which leaves it empty, and assignment replaces the
  target's path without removing its directory.\<close>

(* fs/include/upp/fs/tmpfile.hpp 24-24: tmpdir(tmpdir&&) *)
definition tmpdir_move_ctor :: "nat \<Rightarrow> nat \<Rightarrow> (string, 'w) owners \<Rightarrow> (string, 'w) owners result" where
  "tmpdir_move_ctor = own_move_ctor []"

(* fs/include/upp/fs/tmpfile.hpp 25-25: tmpdir::operator= *)
definition tmpdir_move_assign :: "nat \<Rightarrow> nat \<Rightarrow> (string, 'w) owners \<Rightarrow> (string, 'w) owners result" where
  "tmpdir_move_assign a b s = (case obj_at s b of None \<Rightarrow> Inl Undefined
    | Some p \<Rightarrow> if obj_at s a = None then Inl Undefined
        else Inr (s\<lparr>obj_at := (obj_at s)(b \<mapsto> [], a \<mapsto> p)\<rparr>))"

(* fs/lib/tmpfile.cpp 44-49: tmpdir::~tmpdir *)
definition tmpdir_dtor :: "'w posix \<Rightarrow> nat \<Rightarrow> (string, 'w) owners \<Rightarrow> (string, 'w) owners result" where
  "tmpdir_dtor P = own_dtor (\<lambda>p. p \<noteq> []) (px_remove_all P)"

section \<open>What the system promises\<close>

definition posix_descriptors :: "'w posix \<Rightarrow> ('w \<Rightarrow> int set) \<Rightarrow> bool" where
  "posix_descriptors P opens \<longleftrightarrow>
     (\<forall>path flags w. case px_open P path flags w of (fd, w') \<Rightarrow>
        if fd < 0 then opens w' = opens w else fd \<notin> opens w \<and> opens w' = insert fd (opens w)) \<and>
     (\<forall>fd w. fd \<in> opens w \<longrightarrow> 0 \<le> fd \<and> opens (snd (px_close P fd w)) = opens w - {fd})"

text \<open>A regular file behind the descriptor \<open>h\<close>: \<open>at w\<close> is its content and offset.  A read may give
  fewer bytes than asked for.\<close>

definition seek_target :: "byte list \<times> nat \<Rightarrow> int \<Rightarrow> int \<Rightarrow> int" where
  "seek_target cp off origin =
     off + (if origin = SEEK_SET then 0 else if origin = SEEK_CUR then int (snd cp) else int (length (fst cp)))"

definition regular_file :: "'w posix \<Rightarrow> int \<Rightarrow> ('w \<Rightarrow> byte list \<times> nat) \<Rightarrow> bool" where
  "regular_file P h at \<longleftrightarrow>
     (\<forall>off origin w. 0 \<le> seek_target (at w) off origin \<longrightarrow> seek_target (at w) off origin < 2 ^ 63 \<longrightarrow>
        (case px_lseek P h off origin w of (r, w') \<Rightarrow>
          r = seek_target (at w) off origin \<and> at w' = (fst (at w), nat (seek_target (at w) off origin)))) \<and>
     (\<forall>n w. case px_read P h n w of ((k, bytes), w') \<Rightarrow>
        0 \<le> k \<and> nat k \<le> n \<and> nat k \<le> length (fst (at w)) - snd (at w) \<and>
        bytes = take (nat k) (drop (snd (at w)) (fst (at w))) \<and> at w' = (fst (at w), snd (at w) + nat k))"

lemma to_off_t_id: "n < 2 ^ 63 \<Longrightarrow> to_off_t n = int n"
  by (simp add: to_off_t_def signed_of_nat signed_take_bit_int_eq_self)

lemma to_size_t_id: "0 \<le> x \<Longrightarrow> x < 2 ^ 64 \<Longrightarrow> to_size_t x = nat x"
  by (simp add: to_size_t_def unsigned_of_int take_bit_int_eq_self)

lemma file_create_fresh:
  assumes "posix_descriptors P opens"
  shows "fresh_create is_native_handle opens (file_open P path)"
    and "fresh_create is_native_handle opens (unnamed_tmpfile P)"
    and "closes opens (file_do_close P)"
proof -
  have o: "case px_open P path flags w of (fd, w') \<Rightarrow>
      if fd < 0 then opens w' = opens w else fd \<notin> opens w \<and> opens w' = insert fd (opens w)" for path flags w
    using assms by (simp add: posix_descriptors_def)
  show "fresh_create is_native_handle opens (file_open P path)"
    using o unfolding fresh_create_def
    by (fastforce simp: file_open_def check_call_def throw_last_errno_def throw_errno_def is_native_handle_def
        split: prod.splits if_splits)
  show "fresh_create is_native_handle opens (unnamed_tmpfile P)"
    using o unfolding fresh_create_def
    by (fastforce simp: unnamed_tmpfile_def check_call_def throw_last_errno_def throw_errno_def is_native_handle_def
        split: prod.splits if_splits)
  show "closes opens (file_do_close P)"
    using assms unfolding closes_def posix_descriptors_def
    by (simp add: file_do_close_def is_native_handle_def linorder_not_less)
qed

lemma regular_lseek:
  assumes "regular_file P h at" and "0 \<le> seek_target (at w) off origin" and "seek_target (at w) off origin < 2 ^ 63"
  shows "\<exists>w'. px_lseek P h off origin w = (seek_target (at w) off origin, w') \<and>
    at w' = (fst (at w), nat (seek_target (at w) off origin))"
  using assms(1) [unfolded regular_file_def, THEN conjunct1, rule_format, of w off origin] assms(2,3)
  by (cases "px_lseek P h off origin w") simp

lemma regular_read:
  assumes "regular_file P h at" and "at w = (c, p)"
  shows "\<exists>k w'. px_read P h n w = ((int k, take k (drop p c)), w') \<and> k \<le> n \<and> k \<le> length c - p \<and> at w' = (c, p + k)"
proof -
  obtain k bytes w' where r: "px_read P h n w = ((k, bytes), w')" by (metis prod.exhaust)
  have "0 \<le> k" "nat k \<le> n" "nat k \<le> length c - p" "bytes = take (nat k) (drop p c)" "at w' = (c, p + nat k)"
    using assms(1) [unfolded regular_file_def, THEN conjunct2, rule_format, of n w] r assms(2) by simp_all
  then show ?thesis using r by (intro exI [of _ "nat k"] exI [of _ w']) simp
qed

lemma seek_regular:
  assumes "regular_file P h at" and "at w = (c, p)"
  shows "p < 2 ^ 63 \<Longrightarrow> \<exists>w'. file_seek_current P h 0 w = (Inr p, w') \<and> at w' = (c, p)"
    and "length c < 2 ^ 63 \<Longrightarrow> \<exists>w'. file_seek_end P h 0 w = (Inr (length c), w') \<and> at w' = (c, length c)"
    and "q < 2 ^ 63 \<Longrightarrow> \<exists>w'. file_seek_begin P b h q w = (Inr q, w') \<and> at w' = (c, q)"
proof -
  assume "p < 2 ^ 63"
  then show "\<exists>w'. file_seek_current P h 0 w = (Inr p, w') \<and> at w' = (c, p)"
    using regular_lseek [OF assms(1), of w 0 SEEK_CUR] assms(2)
    by (auto simp: seek_target_def SEEK_SET_def SEEK_CUR_def file_seek_current_def check_call_def to_size_t_id)
next
  assume "length c < 2 ^ 63"
  then show "\<exists>w'. file_seek_end P h 0 w = (Inr (length c), w') \<and> at w' = (c, length c)"
    using regular_lseek [OF assms(1), of w 0 SEEK_END] assms(2)
    by (auto simp: seek_target_def SEEK_SET_def SEEK_CUR_def SEEK_END_def file_seek_end_def check_call_def to_size_t_id)
next
  assume "q < 2 ^ 63"
  then show "\<exists>w'. file_seek_begin P b h q w = (Inr q, w') \<and> at w' = (c, q)"
    using regular_lseek [OF assms(1), of w "int q" SEEK_SET] assms(2)
    by (auto simp: seek_target_def SEEK_SET_def file_seek_begin_def check_call_def to_size_t_id to_off_t_id io_bind_def)
qed

lemma file_read_regular:
  assumes "regular_file P h at" and "at w = (c, p)" and "length buf = length c - p" and "length c < 2 ^ 63"
  shows "\<exists>k w'. file_read P h buf w = (Inr (k, take k (drop p c) @ drop k buf), w') \<and> k \<le> length c - p \<and>
    at w' = (c, p + k)"
proof -
  obtain k w' where r: "px_read P h (length buf) w = ((int k, take k (drop p c)), w')" "k \<le> length c - p"
      "at w' = (c, p + k)"
    using regular_read [OF assms(1,2)] by blast
  moreover have "to_size_t (int k) = k" using r(2) assms(4) by (simp add: to_size_t_id)
  ultimately show ?thesis by (auto simp: file_read_def check_call_def min_def)
qed

lemma file_read_bin_eq:
  assumes "regular_file P h at" and "at w = (c, p)" and "p \<le> length c" and "length c < 2 ^ 63"
  shows "\<exists>k w'. file_read_bin P b h w = (Inr (take k (drop p c) @ replicate (length c - p - k) 0), w') \<and>
    k \<le> length c - p \<and> at w' = (c, p + k)"
proof -
  obtain w1 where w1: "file_seek_current P h 0 w = (Inr p, w1)" "at w1 = (c, p)"
    using seek_regular(1) [OF assms(1,2)] assms(3,4) by auto
  obtain w2 where w2: "file_seek_end P h 0 w1 = (Inr (length c), w2)" "at w2 = (c, length c)"
    using seek_regular(2) [OF assms(1) w1(2) assms(4)] by auto
  obtain w3 where w3: "file_seek_begin P b h p w2 = (Inr p, w3)" "at w3 = (c, p)"
    using seek_regular(3) [OF assms(1) w2(2), where q = p and b = b] assms(3,4) by auto
  have size: "to_size_t (int (length c) - int p) = length c - p"
    using assms(3,4) by (simp add: to_size_t_id)
  obtain k w4 where w4: "file_read P h (replicate (length c - p) 0) w3 =
      (Inr (k, take k (drop p c) @ drop k (replicate (length c - p) 0)), w4)" "k \<le> length c - p" "at w4 = (c, p + k)"
    using file_read_regular [OF assms(1) w3(2), of "replicate (length c - p) 0"] assms(4) by auto
  have "length c - p \<le> 2 ^ 63 - 1" using assms(4) by simp
  then have "file_read_bin P b h w = (Inr (take k (drop p c) @ drop k (replicate (length c - p) 0)), w4)"
    using w1(1) w2(1) w3(1) w4(1) by (simp add: file_read_bin_def size io_bind_def Let_def)
  then show ?thesis using w4(2,3) by auto
qed

section \<open>An example system\<close>

text \<open>The world: the open descriptors, the content and the offset of one file, of which a read gives at most
  two bytes at a time.\<close>

definition example_posix :: "(int list \<times> byte list \<times> nat) posix" where
  "example_posix =
     \<lparr>px_open = (\<lambda>path flags (fds, cp). let fd = foldr max fds 2 + 1 in (fd, (fd # fds, cp))),
      px_close = (\<lambda>fd (fds, cp). (0, (removeAll fd fds, cp))),
      px_write = (\<lambda>fd data w. (0, w)),
      px_read = (\<lambda>fd n (fds, c, p). let bytes = take (min (min n 2) (length c - p)) (drop p c) in
        ((int (length bytes), bytes), (fds, c, p + length bytes))),
      px_lseek = (\<lambda>fd off origin (fds, c, p). let t = seek_target (c, p) off origin in
        if t < 0 then (- 1, (fds, c, p)) else (t, (fds, c, nat t))),
      px_mkdtemp = (\<lambda>buf w. (Some buf, w)), px_remove_all = (\<lambda>path w. w), px_getenv = (\<lambda>name w. None),
      px_errno = (\<lambda>w. 22), px_strerror = (\<lambda>ec. ''Invalid argument'')\<rparr>"

definition example_opens :: "int list \<times> byte list \<times> nat \<Rightarrow> int set" where
  "example_opens w = {fd \<in> set (fst w). 0 \<le> fd}"

lemma foldr_max_upper: "x \<in> set xs \<Longrightarrow> x \<le> foldr max xs (z::int)"
  by (induction xs) auto

lemma foldr_max_start: "z \<le> foldr max xs (z::int)"
  by (induction xs) auto

lemma example_descriptors: "posix_descriptors example_posix example_opens"
proof -
  have "fd < foldr max fds 2 + 1" if "fd \<in> set fds" for fd :: int and fds
    using foldr_max_upper [OF that, of 2] by simp
  moreover have "3 \<le> foldr max fds 2 + 1" for fds :: "int list"
    using foldr_max_start [of 2 fds] by simp
  ultimately show ?thesis
    by (fastforce simp: posix_descriptors_def example_posix_def example_opens_def Let_def)
qed

lemma example_regular: "regular_file example_posix h snd"
  by (auto simp: regular_file_def example_posix_def Let_def)

section \<open>Properties\<close>

text \<open>C15. Whatever files a program opens, moves, assigns and destroys, no descriptor is closed twice or while a
  second object still uses it, and when no object is left every descriptor opened is closed again.  A
  file assigned to itself reads an object after its destruction.\<close>

theorem file_ownership:
  assumes "posix_descriptors P opens"
    and "owner_reach (file_class P) (insert (unnamed_tmpfile P) (range (file_open P))) s u"
    and "obj_at s = Map.empty"
  shows "(\<forall>a h. obj_at u a = Some h \<and> 0 \<le> h \<longrightarrow> h \<in> opens (world u) \<and> (\<forall>b. obj_at u b = Some h \<longrightarrow> b = a)) \<and>
    (obj_at u = Map.empty \<longrightarrow> opens (world u) = opens (world s)) \<and>
    file_move_assign P a a u = Inl Undefined"
proof -
  have f: "\<And>c. c \<in> insert (unnamed_tmpfile P) (range (file_open P)) \<Longrightarrow> fresh_create is_native_handle opens c"
    using file_create_fresh(1,2) [OF assms(1)] by auto
  have main: "(obj_at u a = Some h \<longrightarrow> is_native_handle h \<longrightarrow> h \<in> opens (world u) \<and> (\<forall>b. obj_at u b = Some h \<longrightarrow> b = a)) \<and>
    (obj_at u = Map.empty \<longrightarrow> opens (world u) = opens (world s))" for a h
    by (rule files.no_double_close [OF assms(2) file_create_fresh(3) [OF assms(1)] f assms(3)])
  then have "\<forall>a h. obj_at u a = Some h \<and> 0 \<le> h \<longrightarrow> h \<in> opens (world u) \<and> (\<forall>b. obj_at u b = Some h \<longrightarrow> b = a)"
    unfolding is_native_handle_def linorder_not_less by blast
  moreover have "obj_at u = Map.empty \<longrightarrow> opens (world u) = opens (world s)" using main by blast
  moreover have "file_move_assign P a a u = Inl Undefined"
    using files.self_assign_undefined [of P a u] by (simp add: file_class_def)
  ultimately show ?thesis by blast
qed

theorem file_ownership_witness:
  "file_move_assign example_posix 1 1 \<lparr>obj_at = [1 \<mapsto> 3], world = ([3], [], 0)\<rparr> = Inl Undefined \<and>
   3 \<in> example_opens ([3], [], 0)"
proof -
  let ?s = "\<lparr>obj_at = Map.empty, world = ([], [], 0)\<rparr> :: (int, int list \<times> byte list \<times> nat) owners"
  let ?u = "\<lparr>obj_at = [1 \<mapsto> 3], world = ([3], [], 0)\<rparr> :: (int, int list \<times> byte list \<times> nat) owners"
  let ?creates = "insert (unnamed_tmpfile example_posix) (range (file_open example_posix))"
  have "own_ctor 1 (file_open example_posix ''f'') ?s = (None, ?u)"
    by (simp add: own_ctor_def file_open_def check_call_def example_posix_def is_native_handle_def Let_def)
  then have "owner_step (file_class example_posix) ?creates ?s ?u"
    by (intro own_create [where a = 1]) auto
  then have r: "owner_reach (file_class example_posix) ?creates ?s ?u" by (rule own_next [OF own_init])
  have e: "obj_at ?s = Map.empty" by simp
  note t = file_ownership [OF example_descriptors r e]
  have "file_move_assign example_posix 1 1 ?u = Inl Undefined" using t by blast
  moreover have "obj_at ?u 1 = Some 3 \<and> 0 \<le> (3 :: int) \<longrightarrow> 3 \<in> example_opens (world ?u)" using t by blast
  ultimately show ?thesis by simp
qed

text \<open>C22. Reading the rest of a regular file gives the bytes from the offset to the end, if the system delivers
  them in one call.  Otherwise the result has the same length, with zeros for the bytes that were not
  read, and no error is reported.\<close>

theorem file_read_bin_rest:
  assumes "regular_file P h at" and "at w = (c, p)" and "p \<le> length c" and "length c < 2 ^ 63"
  shows "\<exists>k w'. file_read_bin P b h w = (Inr (take k (drop p c) @ replicate (length c - p - k) 0), w') \<and>
    k \<le> length c - p \<and> at w' = (c, p + k)"
  by (rule file_read_bin_eq [OF assms])

theorem file_read_bin_rest_witness:
  "file_read_bin example_posix Debug 3 ([3], [7, 8, 9], 0) = (Inr [7, 8, 0], ([3], [7, 8, 9], 2)) \<and>
   (\<exists>k w'. file_read_bin example_posix Debug 3 ([3], [7, 8, 9], 0) =
      (Inr (take k [7, 8, 9] @ replicate (3 - k) 0), w') \<and> snd w' = ([7, 8, 9], k))"
proof
  show "file_read_bin example_posix Debug 3 ([3], [7, 8, 9], 0) = (Inr [7, 8, 0], ([3], [7, 8, 9], 2))"
    by code_simp
  show "\<exists>k w'. file_read_bin example_posix Debug 3 ([3], [7, 8, 9], 0) =
      (Inr (take k [7, 8, 9] @ replicate (3 - k) 0), w') \<and> snd w' = ([7, 8, 9], k)"
    using file_read_bin_rest [OF example_regular, of "([3], [7, 8, 9], 0)" "[7, 8, 9]" 0 Debug 3] by auto
qed

end
