(* ===== verification/Linux.thy ===== *)
theory Linux
  imports Files Ints
begin

text \<open>
  The \<open>linux\<close> library: dynamically loaded libraries (\<open>dlopen.cpp\<close>), pipes (\<open>pipe.cpp\<close>) and the signal
  listener (\<open>signal.cpp\<close>).  The C library is a parameter again; the handle of a library obeys the laws
  of unique ownership, and the ends of a pipe are files.
\<close>

section \<open>Dynamic libraries\<close>

record 'w dl =
  dl_open :: "string \<Rightarrow> 32 word \<Rightarrow> 'w \<Rightarrow> ptr \<times> 'w"
  dl_close :: "ptr \<Rightarrow> 'w \<Rightarrow> 'w"
  dl_sym :: "ptr \<Rightarrow> string \<Rightarrow> 'w \<Rightarrow> ptr \<times> 'w"
  dl_error :: "'w \<Rightarrow> string option \<times> 'w"

definition RTLD_LAZY :: "32 word" where "RTLD_LAZY = 1"

text \<open>\<open>std::runtime_error(dlerror())\<close>, undefined when there is no message.\<close>

definition throw_dlerror :: "'w dl \<Rightarrow> ('a, 'w) io" where
  "throw_dlerror D = (\<lambda>w. case dl_error D w of (msg, w') \<Rightarrow>
     (case msg of None \<Rightarrow> (Inl Undefined, w') | Some m \<Rightarrow> (Inl (Runtime_Error m), w')))"

(* linux/lib/dlopen.cpp 8-8: dynamic_library::do_close *)
definition dynlib_close :: "'w dl \<Rightarrow> ptr \<Rightarrow> 'w \<Rightarrow> 'w" where
  "dynlib_close D h w = dl_close D h w"

(* linux/lib/dlopen.cpp 13-16: dynamic_library(path, flags) *)
definition dynlib_open_flags :: "'w dl \<Rightarrow> string \<Rightarrow> 32 word \<Rightarrow> (ptr, 'w) io" where
  "dynlib_open_flags D path flags = (\<lambda>w. case dl_open D path flags w of (h, w') \<Rightarrow>
     (if h = None then throw_dlerror D w' else io_return h w'))"

(* linux/lib/dlopen.cpp 10-11: dynamic_library(path) *)
definition dynlib_open :: "'w dl \<Rightarrow> string \<Rightarrow> (ptr, 'w) io" where
  "dynlib_open D path = dynlib_open_flags D path RTLD_LAZY"

text \<open>A \<open>cstr\<close> is passed as the characters up to the null that \<open>c_str\<close> meets, a path likewise: the string of a path
  ends in a null.\<close>

(* linux/include/upp/linux/dlopen.hpp 35-36: dynamic_library(cstr, int) *)
definition dynlib_open_cstr_flags :: "'w dl \<Rightarrow> cstr \<Rightarrow> 32 word \<Rightarrow> (ptr, 'w) io" where
  "dynlib_open_cstr_flags D path flags =
     io_bind (io_lift (view_of_pointer (cs_c_str path))) (\<lambda>s. dynlib_open_flags D s flags)"

(* linux/include/upp/linux/dlopen.hpp 27-27: dynamic_library(cstr) *)
definition dynlib_open_cstr :: "'w dl \<Rightarrow> cstr \<Rightarrow> (ptr, 'w) io" where
  "dynlib_open_cstr D path = io_bind (io_lift (view_of_pointer (cs_c_str path))) (dynlib_open D)"

(* linux/include/upp/linux/dlopen.hpp 37-38: dynamic_library(const path&, int) *)
definition dynlib_open_path_flags :: "'w dl \<Rightarrow> string \<Rightarrow> 32 word \<Rightarrow> (ptr, 'w) io" where
  "dynlib_open_path_flags D path flags =
     io_bind (io_lift (view_of_pointer (path @ [NUL]))) (\<lambda>s. dynlib_open_flags D s flags)"

(* linux/include/upp/linux/dlopen.hpp 28-29: dynamic_library(const path&) *)
definition dynlib_open_path :: "'w dl \<Rightarrow> string \<Rightarrow> (ptr, 'w) io" where
  "dynlib_open_path D path = io_bind (io_lift (view_of_pointer (path @ [NUL]))) (dynlib_open D)"

text \<open>A library opened by any \<open>cstr\<close> of the program is the one of the characters shown, up to the first null,
  and the same for a path.\<close>

lemma dynlib_open_shown:
  "cs_value b c \<Longrightarrow> dynlib_open_cstr D c = dynlib_open D (takeWhile (\<lambda>x. x \<noteq> NUL) (cs_string c))"
  "cs_value b c \<Longrightarrow> dynlib_open_cstr_flags D c fl = dynlib_open_flags D (takeWhile (\<lambda>x. x \<noteq> NUL) (cs_string c)) fl"
  "NUL \<notin> set path \<Longrightarrow> dynlib_open_path D path = dynlib_open D path"
  "NUL \<notin> set path \<Longrightarrow> dynlib_open_path_flags D path fl = dynlib_open_flags D path fl"
  using view_of_terminated [of "cs_length c" "cs_array c"] cs_value_terminated [of b c]
  by (simp_all add: dynlib_open_cstr_def dynlib_open_cstr_flags_def dynlib_open_path_def dynlib_open_path_flags_def
      cs_terminated_def cs_c_str_def cs_string_def cs_view_def view_of_pointer_array io_bind_def io_lift_def fun_eq_iff)

(* linux/include/upp/linux/dlopen.hpp 43-44: dynamic_library(dynamic_library&&) *)
definition dynlib_move_ctor :: "nat \<Rightarrow> nat \<Rightarrow> (ptr, 'w) owners \<Rightarrow> (ptr, 'w) owners result" where
  "dynlib_move_ctor = own_move_ctor None"

(* linux/include/upp/linux/dlopen.hpp 52-54: ~dynamic_library *)
definition dynlib_dtor :: "'w dl \<Rightarrow> nat \<Rightarrow> (ptr, 'w) owners \<Rightarrow> (ptr, 'w) owners result" where
  "dynlib_dtor D = own_dtor (\<lambda>h. h \<noteq> None) (dynlib_close D)"

(* linux/include/upp/linux/dlopen.hpp 46-50: dynamic_library::operator= *)
definition dynlib_move_assign :: "'w dl \<Rightarrow> nat \<Rightarrow> nat \<Rightarrow> (ptr, 'w) owners \<Rightarrow> (ptr, 'w) owners result" where
  "dynlib_move_assign D a b s = rbind (dynlib_dtor D a s) (dynlib_move_ctor a b)"

(* linux/include/upp/linux/dlopen.hpp 61-63: dynamic_library::operator bool *)
definition dynlib_valid :: "ptr \<Rightarrow> bool" where
  "dynlib_valid h \<longleftrightarrow> h \<noteq> None"

text \<open>The name is a C string; \<open>None\<close> stands for a null pointer in it.\<close>

(* linux/lib/dlopen.cpp 18-25: dynamic_library::raw_symbol *)
definition dynlib_raw_symbol :: "'w dl \<Rightarrow> build \<Rightarrow> ptr \<Rightarrow> string option \<Rightarrow> (nat, 'w) io" where
  "dynlib_raw_symbol D b h name =
     io_bind (io_lift (cassert b (h \<noteq> None))) (\<lambda>_.
     io_bind (io_lift (cassert b (name \<noteq> None))) (\<lambda>_ w.
     case dl_error D w of (_, w1) \<Rightarrow>
     (case name of None \<Rightarrow> (Inl Undefined, w1)
      | Some n \<Rightarrow> (case dl_sym D h n w1 of (addr, w2) \<Rightarrow>
          (case addr of None \<Rightarrow> throw_dlerror D w2 | Some a \<Rightarrow> io_return a w2)))))"

text \<open>The cast to the type of the symbol keeps the address.\<close>

(* linux/include/upp/linux/dlopen.hpp 78-81: dynamic_library::symbol *)
definition dynlib_symbol :: "'w dl \<Rightarrow> build \<Rightarrow> ptr \<Rightarrow> string option \<Rightarrow> (nat, 'w) io" where
  "dynlib_symbol D b h name = dynlib_raw_symbol D b h name"

text \<open>A symbol that is found is returned with its address, and a message of the library is thrown otherwise; the
  old message is cleared first.\<close>

lemma dynlib_symbol_found:
  assumes "dl_error D w = (e, w1)" and "dl_sym D (Some h) n w1 = (addr, w2)" and "addr = None \<Longrightarrow> dl_error D w2 = (Some msg, w3)"
  shows "dynlib_symbol D b (Some h) (Some n) w =
    (case addr of Some a \<Rightarrow> (Inr a, w2) | None \<Rightarrow> (Inl (Runtime_Error msg), w3))"
  using assms by (simp add: dynlib_symbol_def dynlib_raw_symbol_def throw_dlerror_def io_bind_def io_lift_def io_return_def
      split: option.split)

definition dynlib_class :: "'w dl \<Rightarrow> (ptr, 'w) owner_class" where
  "dynlib_class D = \<lparr>oc_move_ctor = dynlib_move_ctor, oc_move_assign = dynlib_move_assign D, oc_dtor = dynlib_dtor D\<rparr>"

interpretation dynlibs: unique_owner "dynlib_class D" None "\<lambda>h. h \<noteq> None" "dynlib_close D" for D
  by unfold_locales
    (auto simp: dynlib_class_def dynlib_move_ctor_def dynlib_dtor_def dynlib_move_assign_def own_move_assign_def fun_eq_iff)

text \<open>A symbol whose value is null is no error for \<open>dlsym\<close>, which then leaves no message: building the
  exception from it is undefined.\<close>

lemma dynlib_null_symbol:
  assumes "dl_error D w = (e, w1)" and "dl_sym D (Some h) n w1 = (None, w2)" and "dl_error D w2 = (None, w3)"
  shows "fst (dynlib_raw_symbol D b (Some h) (Some n) w) = Inl Undefined"
  using assms by (simp add: dynlib_raw_symbol_def throw_dlerror_def io_bind_def)

section \<open>Pipes\<close>

(* linux/include/upp/linux/pipe.hpp 11-15: pipe_flag *)
datatype pipe_flag = close_on_exit | packet | nonblock

fun pipe_flag_value :: "pipe_flag \<Rightarrow> 8 word" where
  "pipe_flag_value close_on_exit = 0x1"
| "pipe_flag_value packet = 0x2"
| "pipe_flag_value nonblock = 0x4"

definition O_CLOEXEC :: "32 word" where "O_CLOEXEC = 0x80000"
definition O_DIRECT :: "32 word" where "O_DIRECT = 0x4000"
definition O_NONBLOCK :: "32 word" where "O_NONBLOCK = 0x800"

definition pipe_flag_in :: "8 word bitmask \<Rightarrow> pipe_flag \<Rightarrow> bool" where
  "pipe_flag_in flags f = bm_any (bm_and flags (bitmask_of pipe_flag_value f))"

(* linux/lib/pipe.cpp 11-18: pipe_flag_to_native *)
definition pipe_flag_to_native :: "8 word bitmask \<Rightarrow> 32 word" where
  "pipe_flag_to_native flags =
     (let out = 0;
          out = (if pipe_flag_in flags close_on_exit then out OR O_CLOEXEC else out);
          out = (if pipe_flag_in flags packet then out OR O_DIRECT else out)
      in if pipe_flag_in flags nonblock then out OR O_NONBLOCK else out)"

text \<open>\<open>pipe2\<close> fills an array of two descriptors.\<close>

type_synonym 'w pipe2 = "32 word \<Rightarrow> 'w \<Rightarrow> (int \<times> int \<times> int) \<times> 'w"

(* linux/lib/pipe.cpp 24-32: pipe(int) *)
definition pipe_native :: "'w posix \<Rightarrow> 'w pipe2 \<Rightarrow> 32 word \<Rightarrow> (int \<times> int, 'w) io" where
  "pipe_native P pipe2 flags = (\<lambda>w. case pipe2 flags w of ((res, fds), w') \<Rightarrow>
     check_call P (res \<noteq> 0) fds w')"

(* linux/lib/pipe.cpp 22-22: pipe() *)
definition pipe_default :: "'w posix \<Rightarrow> 'w pipe2 \<Rightarrow> (int \<times> int, 'w) io" where
  "pipe_default P pipe2 = pipe_native P pipe2 0"

(* linux/lib/pipe.cpp 33-35: pipe(bitmask) *)
definition pipe_flags :: "'w posix \<Rightarrow> 'w pipe2 \<Rightarrow> 8 word bitmask \<Rightarrow> (int \<times> int, 'w) io" where
  "pipe_flags P pipe2 flags = pipe_native P pipe2 (pipe_flag_to_native flags)"

text \<open>The two ends are files: the pair is constructed at two addresses.\<close>

(* linux/include/upp/linux/pipe.hpp 17-37: pipe_pair *)
definition pipe_pair_ctor :: "nat \<Rightarrow> nat \<Rightarrow> (int \<times> int, 'w) io \<Rightarrow> (int, 'w) owners \<Rightarrow> error option \<times> (int, 'w) owners" where
  "pipe_pair_ctor a b create s = (case create (world s) of
      (Inl e, w) \<Rightarrow> (Some e, s\<lparr>world := w\<rparr>)
    | (Inr (rd, wr), w) \<Rightarrow> (None, s\<lparr>obj_at := (obj_at s)(a \<mapsto> rd, b \<mapsto> wr), world := w\<rparr>))"

definition pipe2_law :: "'w pipe2 \<Rightarrow> ('w \<Rightarrow> int set) \<Rightarrow> bool" where
  "pipe2_law pipe2 opens \<longleftrightarrow> (\<forall>flags w. case pipe2 flags w of ((res, rd, wr), w') \<Rightarrow>
     if res \<noteq> 0 then opens w' = opens w
     else 0 \<le> rd \<and> 0 \<le> wr \<and> rd \<noteq> wr \<and> rd \<notin> opens w \<and> wr \<notin> opens w \<and> opens w' = {rd, wr} \<union> opens w)"

text \<open>Creating a pipe keeps the invariant of descriptors: both ends have an owner, or none was opened.\<close>

lemma pipe_owned:
  assumes "owned is_native_handle opens F s" and "pipe2_law pipe2 opens" and "a \<noteq> b"
    and "obj_at s a = None" and "obj_at s b = None"
    and "pipe_pair_ctor a b (pipe_native P pipe2 flags) s = (e, s')"
  shows "owned is_native_handle opens F s'"
proof -
  have o: "sole is_native_handle (obj_at s)" "held is_native_handle (obj_at s) \<inter> F = {}"
    "opens (world s) = held is_native_handle (obj_at s) \<union> F"
    using assms(1) by (simp_all add: owned_def)
  obtain res rd wr w where c: "pipe2 flags (world s) = ((res, rd, wr), w)" by (metis prod.exhaust)
  have law: "if res \<noteq> 0 then opens w = opens (world s)
      else 0 \<le> rd \<and> 0 \<le> wr \<and> rd \<noteq> wr \<and> rd \<notin> opens (world s) \<and> wr \<notin> opens (world s) \<and>
        opens w = {rd, wr} \<union> opens (world s)"
    using assms(2) [unfolded pipe2_law_def, rule_format, of "world s" flags] c by simp
  show ?thesis
  proof (cases "res = 0")
    case False
    then show ?thesis using assms(6) c law o
      by (auto simp: pipe_pair_ctor_def pipe_native_def check_call_def throw_last_errno_def throw_errno_def owned_def)
  next
    case True
    then have s': "s' = s\<lparr>obj_at := (obj_at s)(a \<mapsto> rd, b \<mapsto> wr), world := w\<rparr>"
      using assms(6) c by (auto simp: pipe_pair_ctor_def pipe_native_def check_call_def)
    have v: "is_native_handle rd" "is_native_handle wr" "rd \<notin> held is_native_handle (obj_at s)"
      using law True o(3) by (auto simp: is_native_handle_def)
    note 1 = sole_add [of is_native_handle "obj_at s" a rd, OF o(1) assms(4) v(3)]
    have "wr \<notin> held is_native_handle ((obj_at s)(a \<mapsto> rd))" using law True o(3) 1(2) v(1) by auto
    note 2 = sole_add [of is_native_handle "(obj_at s)(a \<mapsto> rd)" b wr, OF 1(1) _ this]
    have "((obj_at s)(a \<mapsto> rd)) b = None" using assms(3,5) by simp
    note 2 = 2 [OF this]
    show ?thesis unfolding owned_def s' using 2 1(2) v law True o by (simp del: fun_upd_apply) blast
  qed
qed

text \<open>Each flag of the mask sets its bit and no other.\<close>

lemma pipe_flag_bits:
  "pipe_flag_to_native (bm_build pipe_flag_value fs) =
     (if close_on_exit \<in> set fs then O_CLOEXEC else 0) OR (if packet \<in> set fs then O_DIRECT else 0) OR
     (if nonblock \<in> set fs then O_NONBLOCK else 0)"
proof -
  have v: "pipe_flag_value e AND pipe_flag_value f \<noteq> 0 \<longleftrightarrow> e = f" for e f
    by (cases e; cases f) simp_all
  have "pipe_flag_in (bm_build pipe_flag_value fs) f \<longleftrightarrow> f \<in> set fs" for f
  proof -
    have b: "(\<exists>n. bit (pipe_flag_value e) n \<and> bit (pipe_flag_value f) n) \<longleftrightarrow> e = f" for e
      using v [of e f] by (simp add: nonzero_bit bit_and_iff)
    have "pipe_flag_in (bm_build pipe_flag_value fs) f \<longleftrightarrow>
        (\<exists>e \<in> set fs. \<exists>n. bit (pipe_flag_value e) n \<and> bit (pipe_flag_value f) n)"
      by (auto simp: pipe_flag_in_def bm_any_bit bm_and_def bit_and_iff bit_bm_build bitmask_of_def underlying_cast_def)
    then show ?thesis by (simp add: b)
  qed
  then show ?thesis by (simp add: pipe_flag_to_native_def Let_def or.assoc)
qed

section \<open>Signals\<close>

record ('set, 'w) signals =
  sg_emptyset :: "'w \<Rightarrow> (int \<times> 'set) \<times> 'w"
  sg_addset :: "'set \<Rightarrow> int \<Rightarrow> 'w \<Rightarrow> (int \<times> 'set) \<times> 'w"
  sg_block :: "'set \<Rightarrow> 'w \<Rightarrow> int \<times> 'w"
  sg_wait :: "'set \<Rightarrow> 'w \<Rightarrow> (int \<times> int) \<times> 'w"

text \<open>The loop over the signals of the sigs.\<close>

fun add_signals :: "'w posix \<Rightarrow> ('set, 'w) signals \<Rightarrow> int list \<Rightarrow> 'set \<Rightarrow> ('set, 'w) io" where
  "add_signals P S [] out = io_return out"
| "add_signals P S (s # sigs) out = (\<lambda>w. case sg_addset S out s w of ((res, out'), w') \<Rightarrow>
     (if res \<noteq> 0 then throw_last_errno P w' else add_signals P S sigs out' w'))"

(* linux/lib/signal.cpp 6-15: build_sigset *)
definition build_sigset :: "'w posix \<Rightarrow> ('set, 'w) signals \<Rightarrow> int list \<Rightarrow> ('set, 'w) io" where
  "build_sigset P S sigs = (\<lambda>w. case sg_emptyset S w of ((res, out), w') \<Rightarrow>
     (if res \<noteq> 0 then throw_last_errno P w' else add_signals P S sigs out w'))"

text \<open>\<open>pthread_sigmask\<close> and \<open>sigwait\<close> return the error number; the code reads \<open>errno\<close>.\<close>

(* linux/lib/signal.cpp 18-22: signal_listener::signal_listener *)
definition signal_listener_ctor :: "'w posix \<Rightarrow> ('set, 'w) signals \<Rightarrow> int list \<Rightarrow> ('set, 'w) io" where
  "signal_listener_ctor P S sigs = io_bind (build_sigset P S sigs) (\<lambda>sigset w.
     case sg_block S sigset w of (res, w') \<Rightarrow> check_call P (res \<noteq> 0) sigset w')"

(* linux/lib/signal.cpp 24-29: signal_listener::wait *)
definition signal_listener_wait :: "'w posix \<Rightarrow> ('set, 'w) signals \<Rightarrow> 'set \<Rightarrow> (int, 'w) io" where
  "signal_listener_wait P S sigset = (\<lambda>w. case sg_wait S sigset w of ((res, sig), w') \<Rightarrow>
     check_call P (res \<noteq> 0) sig w')"

text \<open>A signal set is the set of its members; a number that is no signal is refused.\<close>

definition sigset_law :: "('set, 'w) signals \<Rightarrow> ('set \<Rightarrow> int set) \<Rightarrow> (int \<Rightarrow> bool) \<Rightarrow> bool" where
  "sigset_law S members is_signal \<longleftrightarrow>
     (\<forall>w. case sg_emptyset S w of ((res, out), w') \<Rightarrow> res = 0 \<and> members out = {}) \<and>
     (\<forall>out s w. case sg_addset S out s w of ((res, out'), w') \<Rightarrow>
        if is_signal s then res = 0 \<and> members out' = insert s (members out) else res \<noteq> 0)"

lemma add_signals_members:
  assumes "sigset_law S members is_signal"
  shows "case add_signals P S sigs out w of
      (Inr out', w') \<Rightarrow> (\<forall>s \<in> set sigs. is_signal s) \<and> members out' = members out \<union> set sigs
    | (Inl e, w') \<Rightarrow> \<exists>s \<in> set sigs. \<not> is_signal s"
proof (induction sigs arbitrary: out w)
  case Nil
  then show ?case by simp
next
  case (Cons s sigs)
  obtain res out' w' where c: "sg_addset S out s w = ((res, out'), w')" by (metis prod.exhaust)
  have "if is_signal s then res = 0 \<and> members out' = insert s (members out) else res \<noteq> 0"
    using assms [unfolded sigset_law_def, THEN conjunct2, rule_format, of s out w] c by simp
  then show ?case using c Cons.IH [of out' w']
    by (auto simp: throw_last_errno_def throw_errno_def split: sum.splits prod.splits if_splits)
qed

lemma build_sigset_members:
  assumes "sigset_law S members is_signal"
  shows "case build_sigset P S sigs w of
      (Inr out, w') \<Rightarrow> (\<forall>s \<in> set sigs. is_signal s) \<and> members out = set sigs
    | (Inl e, w') \<Rightarrow> \<exists>s \<in> set sigs. \<not> is_signal s"
proof -
  obtain res out w' where c: "sg_emptyset S w = ((res, out), w')" by (metis prod.exhaust)
  have "res = 0 \<and> members out = {}"
    using assms [unfolded sigset_law_def, THEN conjunct1, rule_format, of w] c by simp
  then show ?thesis using add_signals_members [OF assms, where P = P and sigs = sigs and out = out and w = w'] c
    by (auto simp: build_sigset_def split: prod.splits sum.splits)
qed

end
