(* ===== verification/Demux_Buffer.thy ===== *)
theory Demux_Buffer
  imports Files
begin

text \<open>
  Demultiplexing from memory, \<open>codec/lib/demux.cpp\<close>: the two callbacks through which ffmpeg reads the
  buffer of a \<open>demux\<close>, with the conversions between \<open>size_t\<close>, \<open>int\<close> and \<open>int64_t\<close> that they do.
\<close>

section \<open>The callbacks of a memory buffer\<close>

text \<open>\<open>m_buf\<close> and \<open>m_buf_offset\<close>.\<close>

record membuf =
  mb_buf :: "byte list"
  mb_offset :: nat

text \<open>\<open>static_cast<int>\<close>, and the end-of-file code of the library as a parameter.\<close>

definition to_int32 :: "nat \<Rightarrow> int" where
  "to_int32 n = sint (of_nat n :: 32 word)"

text \<open>The result is the return value, the bytes written to the caller's buffer and the new state.  A
  negative count makes \<open>memcpy\<close> run over both buffers.\<close>

(* codec/lib/demux.cpp 18-33: demux::buffer_read *)
definition buffer_read :: "build \<Rightarrow> int \<Rightarrow> int \<Rightarrow> membuf \<Rightarrow> (int \<times> byte list \<times> membuf) result" where
  "buffer_read b averror_eof buflen s =
     rbind (cassert b (mb_offset s \<le> length (mb_buf s))) (\<lambda>_.
     let left_in_buf = to_size_t (int (length (mb_buf s)) - int (mb_offset s)) in
     if left_in_buf = 0 then Inr (averror_eof, [], s)
     else let count = min buflen (to_int32 left_in_buf) in
       rbind (require Undefined (0 \<le> count \<and> mb_offset s + nat count \<le> length (mb_buf s))) (\<lambda>_.
       Inr (count, take (nat count) (drop (mb_offset s) (mb_buf s)), s\<lparr>mb_offset := mb_offset s + nat count\<rparr>)))"

definition int64_range :: "int \<Rightarrow> bool" where
  "int64_range x \<longleftrightarrow> - (2 ^ 63) \<le> x \<and> x < 2 ^ 63"

(* codec/lib/demux.cpp 35-70: demux::buffer_seek *)
definition buffer_seek :: "int \<Rightarrow> int \<Rightarrow> int \<Rightarrow> membuf \<Rightarrow> (int \<times> membuf) result" where
  "buffer_seek avseek_size offset origin s =
     (let size = int (length (mb_buf s)) in
      if origin AND avseek_size \<noteq> 0 then Inr (size, s)
      else if origin = SEEK_SET then
        (if offset < 0 then Inr (- 1, s)
         else if offset > size then Inr (- 1, s)
         else Inr (0, s\<lparr>mb_offset := nat offset\<rparr>))
      else if origin = SEEK_CUR then
        (let new_idx = int (mb_offset s) + offset in
         rbind (require Undefined (int64_range new_idx)) (\<lambda>_.
         if new_idx < 0 \<or> size \<le> new_idx then Inr (- 1, s)
         else Inr (0, s\<lparr>mb_offset := nat new_idx\<rparr>)))
      else if origin = SEEK_END then
        (if offset > 0 then Inr (- 1, s)
         else rbind (require Undefined (int64_range (- offset))) (\<lambda>_.
           if - offset \<ge> size then Inr (- 1, s)
           else Inr (0, s\<lparr>mb_offset := nat (size + offset)\<rparr>)))
      else Inr (- 1, s))"

lemma to_int32_small: "n < 2 ^ 31 \<Longrightarrow> to_int32 n = int n"
  by (simp add: to_int32_def signed_of_nat signed_take_bit_int_eq_self)

lemma to_int32_2_31: "to_int32 (2 ^ 31) = - (2 ^ 31)"
  by (simp add: to_int32_def)

definition membuf_ok :: "membuf \<Rightarrow> bool" where
  "membuf_ok s \<longleftrightarrow> mb_offset s \<le> length (mb_buf s) \<and> length (mb_buf s) < 2 ^ 63"

lemma left_in_buf: "membuf_ok s \<Longrightarrow>
    to_size_t (int (length (mb_buf s)) - int (mb_offset s)) = length (mb_buf s) - mb_offset s"
  by (simp add: membuf_ok_def to_size_t_id)

lemma buffer_read_eq:
  assumes "membuf_ok s" and "length (mb_buf s) - mb_offset s < 2 ^ 31" and "0 \<le> buflen"
  shows "buffer_read b averror_eof buflen s =
    (let k = min (nat buflen) (length (mb_buf s) - mb_offset s) in
     if mb_offset s = length (mb_buf s) then Inr (averror_eof, [], s)
     else Inr (int k, take k (drop (mb_offset s) (mb_buf s)), s\<lparr>mb_offset := mb_offset s + k\<rparr>))"
proof -
  have "nat (min buflen (int (length (mb_buf s) - mb_offset s))) = min (nat buflen) (length (mb_buf s) - mb_offset s)"
    by (auto simp: min_def)
  moreover have "min buflen (int (length (mb_buf s) - mb_offset s)) = int (min (nat buflen) (length (mb_buf s) - mb_offset s))"
    using assms(3) by simp
  ultimately show ?thesis
    using assms by (auto simp: buffer_read_def left_in_buf to_int32_small membuf_ok_def Let_def require_def)
qed

text \<open>Every call keeps the offset inside the buffer; an interleaving of calls is a run.\<close>

inductive membuf_step :: "build \<Rightarrow> int \<Rightarrow> int \<Rightarrow> membuf \<Rightarrow> membuf \<Rightarrow> bool" for b averror_eof avseek_size where
  step_read: "buffer_read b averror_eof buflen s = Inr (r, bytes, s') \<Longrightarrow> membuf_step b averror_eof avseek_size s s'"
| step_seek: "buffer_seek avseek_size offset origin s = Inr (r, s') \<Longrightarrow> membuf_step b averror_eof avseek_size s s'"

inductive_cases membuf_stepE: "membuf_step b averror_eof avseek_size s s'"

lemma buffer_read_ok: "membuf_ok s \<Longrightarrow> buffer_read b e n s = Inr (r, bytes, s') \<Longrightarrow> membuf_ok s' \<and> mb_buf s' = mb_buf s"
  by (auto simp: buffer_read_def Let_def result_simps membuf_ok_def require_def split: if_splits)

lemma buffer_seek_ok: "membuf_ok s \<Longrightarrow> buffer_seek a off og s = Inr (r, s') \<Longrightarrow> membuf_ok s' \<and> mb_buf s' = mb_buf s"
  by (auto simp: buffer_seek_def Let_def result_simps membuf_ok_def require_def split: if_splits)

lemma membuf_step_ok: "membuf_step b e a s s' \<Longrightarrow> membuf_ok s \<Longrightarrow> membuf_ok s' \<and> mb_buf s' = mb_buf s"
  by (erule membuf_stepE) (auto dest: buffer_read_ok buffer_seek_ok)

lemma membuf_run_ok: "(membuf_step b e a)\<^sup>*\<^sup>* s s' \<Longrightarrow> membuf_ok s \<Longrightarrow> membuf_ok s' \<and> mb_buf s' = mb_buf s"
  by (induction rule: rtranclp_induct) (auto dest: membuf_step_ok)

text \<open>Reading from the start until the end of file, each call with room for \<open>n\<close> bytes.\<close>

fun read_times :: "build \<Rightarrow> int \<Rightarrow> int \<Rightarrow> nat \<Rightarrow> membuf \<Rightarrow> (byte list \<times> membuf) result" where
  "read_times b averror_eof n 0 s = Inr ([], s)"
| "read_times b averror_eof n (Suc k) s =
     rbind (buffer_read b averror_eof n s) (\<lambda>(r, bytes, s).
     rbind (read_times b averror_eof n k s) (\<lambda>(more, s). Inr (bytes @ more, s)))"

lemma read_step_eq:
  assumes "membuf_ok s" and "length (mb_buf s) < 2 ^ 31" and "0 \<le> n"
  obtains r c where "buffer_read b averror_eof n s = Inr (r, take c (drop (mb_offset s) (mb_buf s)), s\<lparr>mb_offset := mb_offset s + c\<rparr>)"
    and "c = min (nat n) (length (mb_buf s) - mb_offset s)"
proof -
  let ?c = "min (nat n) (length (mb_buf s) - mb_offset s)"
  have "\<exists>r. buffer_read b averror_eof n s = Inr (r, take ?c (drop (mb_offset s) (mb_buf s)), s\<lparr>mb_offset := mb_offset s + ?c\<rparr>)"
    using buffer_read_eq [OF assms(1) _ assms(3), of b averror_eof] assms(2) by (simp add: Let_def)
  then show thesis using that by blast
qed

lemma read_times_eq:
  assumes "membuf_ok s" and "length (mb_buf s) < 2 ^ 31" and "0 \<le> n"
  shows "\<exists>s'. read_times b averror_eof n k s = Inr (take (k * nat n) (drop (mb_offset s) (mb_buf s)), s') \<and>
    mb_buf s' = mb_buf s \<and> mb_offset s' = min (mb_offset s + k * nat n) (length (mb_buf s))"
  using assms(1,2)
proof (induction k arbitrary: s)
  case 0
  then show ?case by (simp add: membuf_ok_def)
next
  case (Suc k)
  define l where "l = length (mb_buf s)"
  define off where "off = mb_offset s"
  define m where "m = nat n"
  have le: "off \<le> l" using Suc.prems(1) by (simp add: membuf_ok_def l_def off_def)
  obtain r c where r: "buffer_read b averror_eof n s = Inr (r, take c (drop off (mb_buf s)), s\<lparr>mb_offset := off + c\<rparr>)"
    and c: "c = min m (l - off)"
    using read_step_eq [OF Suc.prems assms(3)] unfolding l_def off_def m_def by metis
  have "membuf_ok (s\<lparr>mb_offset := off + c\<rparr>)" using Suc.prems(1) le c by (simp add: membuf_ok_def l_def)
  then obtain s' where s': "read_times b averror_eof n k (s\<lparr>mb_offset := off + c\<rparr>) = Inr (take (k * m) (drop (off + c) (mb_buf s)), s')"
      "mb_buf s' = mb_buf s" "mb_offset s' = min (off + c + k * m) l"
    using Suc.IH [of "s\<lparr>mb_offset := off + c\<rparr>"] Suc.prems(2) by (auto simp: m_def l_def)
  have "take c (drop off (mb_buf s)) @ take (k * m) (drop (off + c) (mb_buf s)) = take (Suc k * m) (drop off (mb_buf s)) \<and>
      min (off + c + k * m) l = min (off + Suc k * m) l"
  proof (cases "m \<le> l - off")
    case True
    then have "c = m" using c by simp
    then show ?thesis by (simp add: take_add ac_simps)
  next
    case False
    then have "c = l - off" "l - off \<le> Suc k * m" using c by simp_all
    then show ?thesis using le by (simp add: l_def)
  qed
  then show ?case unfolding read_times.simps r rbind.simps prod.case s'(1)
    using s'(2,3) by (simp add: off_def l_def m_def)
qed

text \<open>The three origins do not reach the same positions: only \<open>SEEK_SET\<close> reaches both ends.\<close>

lemma seek_reach:
  assumes "buffer_seek a off origin s = Inr (0, s')" and "origin AND a = 0"
  shows "origin = SEEK_CUR \<Longrightarrow> mb_offset s' < length (mb_buf s)"
    and "origin = SEEK_END \<Longrightarrow> mb_buf s \<noteq> [] \<and> 0 < mb_offset s'"
  using assms
  by (auto simp: buffer_seek_def SEEK_SET_def SEEK_CUR_def SEEK_END_def Let_def result_simps split: if_splits)

lemma seek_set: "0 \<le> off \<Longrightarrow> off \<le> int (length (mb_buf s)) \<Longrightarrow>
    buffer_seek a off SEEK_SET s = Inr (0, s\<lparr>mb_offset := nat off\<rparr>)"
  by (simp add: buffer_seek_def SEEK_SET_def)

section \<open>Properties\<close>

text \<open>C19. Whatever ffmpeg read and sought before: after a seek to the start, reading with any positive buffer
  size delivers the whole memory buffer, unchanged and in order, and then reports the end of file.
  This holds for buffers of less than 2 GiB.\<close>

theorem membuf_rewind_reads:
  assumes "(membuf_step b averror_eof avseek_size)\<^sup>*\<^sup>* s0 s" and "membuf_ok s0" and "length (mb_buf s0) < 2 ^ 31"
    and "0 < n" and "length (mb_buf s0) \<le> k * nat n"
  shows "\<exists>s1 s2. buffer_seek avseek_size 0 SEEK_SET s = Inr (0, s1) \<and>
    read_times b averror_eof n k s1 = Inr (mb_buf s0, s2) \<and> buffer_read b averror_eof n s2 = Inr (averror_eof, [], s2)"
proof -
  have ok: "membuf_ok s" "mb_buf s = mb_buf s0" using membuf_run_ok [OF assms(1,2)] by auto
  let ?s1 = "s\<lparr>mb_offset := 0\<rparr>"
  have seek: "buffer_seek avseek_size 0 SEEK_SET s = Inr (0, ?s1)" using seek_set [of 0 s avseek_size] by simp
  have ok1: "membuf_ok ?s1" using ok by (simp add: membuf_ok_def)
  obtain s2 where s2: "read_times b averror_eof n k ?s1 = Inr (take (k * nat n) (drop (mb_offset ?s1) (mb_buf ?s1)), s2)"
    "mb_buf s2 = mb_buf ?s1" "mb_offset s2 = min (mb_offset ?s1 + k * nat n) (length (mb_buf ?s1))"
    using read_times_eq [OF ok1, of n b averror_eof k] assms(3,4) ok(2) by auto
  then have r: "read_times b averror_eof n k ?s1 = Inr (mb_buf s0, s2)" and o2: "mb_offset s2 = length (mb_buf s2)"
    using assms(5) ok(2) by simp_all
  have "membuf_ok s2" using o2 s2(2) ok1 by (simp add: membuf_ok_def)
  then have "buffer_read b averror_eof n s2 = Inr (averror_eof, [], s2)"
    using buffer_read_eq [of s2 n b averror_eof] o2 assms(4) by (simp add: Let_def)
  then show ?thesis using seek r by blast
qed

theorem membuf_rewind_reads_witness:
  "\<exists>s1 s2. buffer_seek 0x10000 0 SEEK_SET \<lparr>mb_buf = [1, 2, 3], mb_offset = 2\<rparr> = Inr (0, s1) \<and>
    read_times Debug (- 541478725) 2 2 s1 = Inr ([1, 2, 3], s2) \<and> buffer_read Debug (- 541478725) 2 s2 = Inr (- 541478725, [], s2)"
proof -
  let ?s0 = "\<lparr>mb_buf = [1, 2, 3 :: byte], mb_offset = 0\<rparr>" and ?s = "\<lparr>mb_buf = [1, 2, 3 :: byte], mb_offset = 2\<rparr>"
  have "buffer_seek 0x10000 2 SEEK_SET ?s0 = Inr (0, ?s)" using seek_set [of 2 ?s0 "0x10000"] by simp
  then have "(membuf_step Debug (- 541478725) 0x10000)\<^sup>*\<^sup>* ?s0 ?s" by (rule r_into_rtranclp [of "membuf_step _ _ _", OF step_seek])
  from membuf_rewind_reads [OF this, of 2 2] show ?thesis by (simp add: membuf_ok_def)
qed

text \<open>With 2 GiB or more left, up to 4 GiB, the conversion of the rest to \<open>int\<close> is negative and a read runs
  over the buffers; with exactly 4 GiB left it is zero and a read returns nothing, for ever.\<close>

theorem membuf_large_read:
  assumes "membuf_ok s" and "0 \<le> n" and "length (mb_buf s) - mb_offset s \<in> {2 ^ 31..2 ^ 32}"
  shows "buffer_read b averror_eof n s =
    (if length (mb_buf s) - mb_offset s < 2 ^ 32 then Inl Undefined else Inr (0, [], s))"
proof -
  let ?l = "length (mb_buf s) - mb_offset s"
  have le: "mb_offset s \<le> length (mb_buf s)" using assms(1) by (simp add: membuf_ok_def)
  have "to_int32 ?l = (if ?l < 2 ^ 32 then int ?l - 2 ^ 32 else 0)"
  proof (cases "?l = 2 ^ 32")
    case True
    then show ?thesis by (simp add: to_int32_def)
  next
    case False
    then have "?l < 2 ^ 32" using assms(3) by simp
    moreover have "signed_take_bit 31 (int ?l) = int ?l - 2 ^ 32"
    proof -
      have "(int ?l + 2147483648) mod 4294967296 = (int ?l + 2147483648 - 4294967296) mod 4294967296"
        by (rule minus_mod_self2 [symmetric])
      also have "\<dots> = int ?l - 2147483648" using assms(3) False by simp
      finally show ?thesis using le by (simp add: signed_take_bit_eq_take_bit_shift take_bit_int_def of_nat_diff)
    qed
    ultimately show ?thesis by (simp add: to_int32_def signed_of_nat)
  qed
  then show ?thesis using assms le
    by (auto simp: buffer_read_def left_in_buf Let_def min_def require_def)
qed

theorem membuf_large_read_witness:
  "buffer_read Release (- 541478725) 4096 \<lparr>mb_buf = replicate (2 ^ 31) 0, mb_offset = 0\<rparr> = Inl Undefined"
  using membuf_large_read [of "\<lparr>mb_buf = replicate (2 ^ 31) 0, mb_offset = 0\<rparr>" 4096 Release "- 541478725"]
  by (simp add: membuf_ok_def)

end
