(* ===== verification/Ffmpeg.thy ===== *)
theory Ffmpeg
  imports Handles
begin

text \<open>
  The functions of ffmpeg that \<open>codec\<close> calls, as a parameter: a record over the world, one per header.
  A pointer is null or an address; where ffmpeg would crash on a pointer the function may give
  \<open>Undefined\<close>.  The error of the library is \<open>codec/lib/detail/exceptions.cpp\<close>.
\<close>

section \<open>Memory and errors\<close>

record 'w av_util =
  av_malloc :: "nat \<Rightarrow> 'w \<Rightarrow> ptr \<times> 'w"
  av_free :: "ptr \<Rightarrow> (unit, 'w) io"
  av_error_string :: "int \<Rightarrow> string"
  av_error_max :: nat
  averror_eof :: int
  averror_eagain :: int
  av_padding :: nat
  av_buffer_ref :: "ptr \<Rightarrow> 'w \<Rightarrow> ptr \<times> 'w"
  av_buffer_unref :: "ptr \<Rightarrow> 'w \<Rightarrow> 'w"
  av_hwdevice_none :: "32 word"
  av_hwdevice_ctx_create :: "32 word \<Rightarrow> 'w \<Rightarrow> (int \<times> ptr) \<times> 'w"
  av_hwdevice_iterate_types :: "32 word \<Rightarrow> 32 word"
  av_hwdevice_get_type_name :: "32 word \<Rightarrow> string option"
  av_frame_alloc :: "'w \<Rightarrow> ptr \<times> 'w"
  av_frame_ref :: "ptr \<Rightarrow> ptr \<Rightarrow> (int, 'w) io"
  av_frame_unref :: "ptr \<Rightarrow> 'w \<Rightarrow> 'w"
  av_frame_free :: "ptr \<Rightarrow> 'w \<Rightarrow> 'w"

section \<open>Formats\<close>

record 'w av_format =
  avformat_alloc_context :: "'w \<Rightarrow> ptr \<times> 'w"
  avformat_open_input :: "ptr \<Rightarrow> string \<Rightarrow> 'w \<Rightarrow> (int \<times> ptr) \<times> 'w"
  avformat_close_input :: "ptr \<Rightarrow> 'w \<Rightarrow> ptr \<times> 'w"
  avformat_free_context :: "ptr \<Rightarrow> 'w \<Rightarrow> 'w"
  avio_alloc_context :: "ptr \<Rightarrow> nat \<Rightarrow> nat \<Rightarrow> 'w \<Rightarrow> ptr \<times> 'w"
  avio_buffer :: "ptr \<Rightarrow> 'w \<Rightarrow> ptr"
  avio_context_free :: "ptr \<Rightarrow> 'w \<Rightarrow> 'w"
  set_pb :: "ptr \<Rightarrow> ptr \<Rightarrow> 'w \<Rightarrow> 'w"
  av_read_frame :: "ptr \<Rightarrow> ptr \<Rightarrow> 'w \<Rightarrow> int \<times> 'w"
  fmt_streams :: "ptr \<Rightarrow> 'w \<Rightarrow> nat list"
  av_find_best_stream :: "ptr \<Rightarrow> 'w \<Rightarrow> int \<times> 'w"

section \<open>Codecs\<close>

record 'w av_codec =
  av_packet_alloc :: "'w \<Rightarrow> ptr \<times> 'w"
  av_packet_free :: "ptr \<Rightarrow> 'w \<Rightarrow> 'w"
  av_packet_unref :: "ptr \<Rightarrow> 'w \<Rightarrow> 'w"
  pkt_data :: "nat \<Rightarrow> 'w \<Rightarrow> ptr"
  pkt_size :: "nat \<Rightarrow> 'w \<Rightarrow> int"
  pkt_stream_index :: "nat \<Rightarrow> 'w \<Rightarrow> int"
  avcodec_alloc_context3 :: "'w \<Rightarrow> ptr \<times> 'w"
  avcodec_free_context :: "ptr \<Rightarrow> 'w \<Rightarrow> 'w"
  set_hw_device_ctx :: "ptr \<Rightarrow> ptr \<Rightarrow> 'w \<Rightarrow> 'w"
  avcodec_parameters_to_context :: "ptr \<Rightarrow> nat \<Rightarrow> 'w \<Rightarrow> int \<times> 'w"
  set_pkt_timebase :: "ptr \<Rightarrow> nat \<Rightarrow> 'w \<Rightarrow> 'w"
  avcodec_find_decoder :: "ptr \<Rightarrow> 'w \<Rightarrow> ptr"
  avcodec_open2 :: "ptr \<Rightarrow> ptr \<Rightarrow> 'w \<Rightarrow> int \<times> 'w"
  avcodec_send_packet :: "ptr \<Rightarrow> ptr \<Rightarrow> 'w \<Rightarrow> int \<times> 'w"
  avcodec_receive_frame :: "ptr \<Rightarrow> ptr \<Rightarrow> 'w \<Rightarrow> int \<times> 'w"
  ctx_width :: "nat \<Rightarrow> 'w \<Rightarrow> int"
  ctx_height :: "nat \<Rightarrow> 'w \<Rightarrow> int"

section \<open>The exception of the library\<close>

text \<open>The text is written to the front of a string of zeros, whose length it keeps.\<close>

(* codec/lib/detail/exceptions.cpp 9-13: av_error_string *)
definition error_text :: "'w av_util \<Rightarrow> int \<Rightarrow> string" where
  "error_text U code =
     (let text = take (av_error_max U - 1) (av_error_string U code)
      in text @ replicate (av_error_max U - length text) (CHR 0x00))"

(* codec/lib/detail/exceptions.cpp 16-16: exception(int) *)
definition av_exception :: "'w av_util \<Rightarrow> int \<Rightarrow> error" where
  "av_exception U ec = Runtime_Error (error_text U ec)"

(* codec/lib/detail/exceptions.cpp 17-17: exception(pointer) *)
definition what_exception :: "string \<Rightarrow> error" where
  "what_exception what = Runtime_Error what"

(* core/include/upp/exceptions.hpp 9-11: UPP_CHECK *)
definition upp_check :: "bool \<Rightarrow> error \<Rightarrow> (unit, 'w) io" where
  "upp_check condition ex = (if \<not> condition then io_fail ex else io_return ())"

lemma upp_check_simps [simp]: "upp_check True ex = io_return ()" "upp_check False ex = io_fail ex"
  by (simp_all add: upp_check_def)

text \<open>The allocator of ffmpeg: \<open>live\<close> are the blocks allocated and not yet freed; freeing any other pointer
  but null is undefined.\<close>

definition av_heap :: "'w av_util \<Rightarrow> 'w av_format \<Rightarrow> ('w \<Rightarrow> nat set) \<Rightarrow> bool" where
  "av_heap U Fm live \<longleftrightarrow>
     (\<forall>p w. if p \<in> live w
        then (\<exists>w'. av_free U (Some p) w = (Inr (), w') \<and> live w' = live w - {p} \<and>
          (\<forall>i. avio_buffer Fm i w' = avio_buffer Fm i w))
        else fst (av_free U (Some p) w) = Inl Undefined)"

end
