(* ===== verification/Demux.thy ===== *)
theory Demux
  imports Demux_Buffer Ffmpeg
begin

text \<open>
  The class \<open>demux\<close>, \<open>codec/lib/demux.cpp\<close> and \<open>demux.hpp\<close>: opening a file or a memory buffer, moves,
  destruction, reading packets and the streams.  An exception in the body of a delegating constructor
  runs the clean-ups of the scope in reverse order and then the destructor; \<open>u\<close> is the number of
  exceptions in flight outside, on which \<open>cleanup_throw\<close> depends.
\<close>

section \<open>State\<close>

(* codec/include/upp/codec/demux.hpp 56-60: demux *)
record demux =
  dx_mem :: membuf
  dx_ctx :: ptr
  dx_io :: ptr

definition no_membuf :: membuf where
  "no_membuf = \<lparr>mb_buf = [], mb_offset = 0\<rparr>"

(* codec/include/upp/codec/demux.hpp 73-74: demux(internal_t, AVFormatContext) *)
definition demux_adopt :: "ptr \<Rightarrow> demux" where
  "demux_adopt ctx = \<lparr>dx_mem = no_membuf, dx_ctx = ctx, dx_io = None\<rparr>"

(* codec/lib/demux.cpp 108-117: demux::~demux *)
definition demux_dtor :: "'w av_util \<Rightarrow> 'w av_format \<Rightarrow> demux \<Rightarrow> (unit, 'w) io" where
  "demux_dtor U Fm d = (\<lambda>w.
     let w1 = (if dx_ctx d = None then w
               else case avformat_close_input Fm (dx_ctx d) w of (ctx, w') \<Rightarrow> avformat_free_context Fm ctx w')
     in if dx_io d = None then (Inr (), w1)
        else io_bind (av_free U (avio_buffer Fm (dx_io d) w1))
               (\<lambda>_ w2. (Inr (), avio_context_free Fm (dx_io d) w2)) w1)"

definition demux_throw :: "'w av_util \<Rightarrow> 'w av_format \<Rightarrow> demux \<Rightarrow> error \<Rightarrow> ('a, 'w) io" where
  "demux_throw U Fm d e = io_bind (demux_dtor U Fm d) (\<lambda>_. io_fail e)"

section \<open>Construction\<close>

(* codec/lib/demux.cpp 72-74: demux::demux() *)
definition demux_new :: "'w av_format \<Rightarrow> (demux, 'w) io" where
  "demux_new Fm = (\<lambda>w. case avformat_alloc_context Fm w of (ctx, w') \<Rightarrow>
     if ctx = None then io_fail Bad_Alloc w' else io_return (demux_adopt ctx) w')"

text \<open>The clean-up \<open>m_ctx = nullptr\<close>, with the exceptions in flight when its scope ends.\<close>

definition drop_ctx :: "nat \<Rightarrow> demux \<Rightarrow> demux" where
  "drop_ctx uncaught d = (if throw_traits uncaught then d\<lparr>dx_ctx := None\<rparr> else d)"

lemma drop_ctx_cleanup:
  "cleanup_dtor throw_traits uncaught (cleanup_ctor (\<lambda>d. Inr (d\<lparr>dx_ctx := None\<rparr>))) d = Inr (drop_ctx uncaught d)"
  by (simp add: cleanup_dtor_def cleanup_ctor_def drop_ctx_def)

(* codec/lib/demux.cpp 75-82: demux::demux(path) *)
definition demux_open :: "'w av_util \<Rightarrow> 'w av_format \<Rightarrow> nat \<Rightarrow> string \<Rightarrow> (demux, 'w) io" where
  "demux_open U Fm u src = io_bind (demux_new Fm) (\<lambda>d w.
     case avformat_open_input Fm (dx_ctx d) src w of ((res, ctx), w1) \<Rightarrow>
     let d = d\<lparr>dx_ctx := ctx\<rparr> in
     if res \<noteq> 0 then demux_throw U Fm (drop_ctx (Suc u) d) (av_exception U res) w1
     else io_return (drop_ctx u d) w1)"

definition AV_IO_BUFFER_SIZE :: nat where
  "AV_IO_BUFFER_SIZE = 8 * 1024"

text \<open>The clean-up \<open>av_free(iobuf)\<close>.\<close>

definition drop_iobuf :: "'w av_util \<Rightarrow> nat \<Rightarrow> ptr \<Rightarrow> (unit, 'w) io" where
  "drop_iobuf U uncaught iobuf = (if throw_traits uncaught then av_free U iobuf else io_return ())"

text \<open>\<open>this\<close>, the address of the object, is the argument that the callbacks get.\<close>

(* codec/lib/demux.cpp 83-97: demux::demux(span) *)
definition demux_from_buffer ::
    "'w av_util \<Rightarrow> 'w av_format \<Rightarrow> nat \<Rightarrow> nat \<Rightarrow> byte list \<Rightarrow> (demux, 'w) io" where
  "demux_from_buffer U Fm u this buf = io_bind (demux_new Fm) (\<lambda>d w.
     let d = d\<lparr>dx_mem := \<lparr>mb_buf = buf, mb_offset = 0\<rparr>\<rparr> in
     case av_malloc U (AV_IO_BUFFER_SIZE + av_padding U) w of (iobuf, w1) \<Rightarrow>
     if iobuf = None then demux_throw U Fm d Bad_Alloc w1
     else case avio_alloc_context Fm iobuf AV_IO_BUFFER_SIZE this w1 of (io, w2) \<Rightarrow>
       let d = d\<lparr>dx_io := io\<rparr> in
       if io = None then io_bind (drop_iobuf U (Suc u) iobuf) (\<lambda>_. demux_throw U Fm d Bad_Alloc) w2
       else case avformat_open_input Fm (dx_ctx d) ''dummy'' (set_pb Fm (dx_ctx d) io w2) of ((res, ctx), w3) \<Rightarrow>
         let d = d\<lparr>dx_ctx := ctx\<rparr> in
         if res \<noteq> 0 then io_bind (drop_iobuf U (Suc u) iobuf) (\<lambda>_.
           demux_throw U Fm (drop_ctx (Suc u) d) (av_exception U res)) w3
         else io_bind (drop_iobuf U u iobuf) (\<lambda>_. io_return (drop_ctx u d)) w3)"

section \<open>Moves\<close>

text \<open>The first component is the new object, the second what is left of the old one.\<close>

(* codec/lib/demux.cpp 99-100: demux::demux(demux&&) *)
definition demux_move_ctor :: "demux \<Rightarrow> demux \<times> demux" where
  "demux_move_ctor other = (demux_adopt (dx_ctx other), other\<lparr>dx_ctx := None\<rparr>)"

(* codec/lib/demux.cpp 102-106: demux::operator= *)
definition demux_move_assign :: "'w av_util \<Rightarrow> 'w av_format \<Rightarrow> demux \<Rightarrow> demux \<Rightarrow> (demux \<times> demux, 'w) io" where
  "demux_move_assign U Fm d other = io_bind (demux_dtor U Fm d) (\<lambda>_. io_return (demux_move_ctor other))"

section \<open>Packets and streams\<close>

text \<open>\<open>pkt\<close> is the handle of the packet; \<open>True\<close> when one was read.  \<open>av_packet_unref\<close> takes no null pointer, the
  handle of a packet that could not be allocated.\<close>

(* codec/lib/demux.cpp 119-129: demux::operator>> *)
definition demux_read ::
    "'w av_util \<Rightarrow> 'w av_format \<Rightarrow> 'w av_codec \<Rightarrow> build \<Rightarrow> demux \<Rightarrow> ptr \<Rightarrow> (bool, 'w) io" where
  "demux_read U Fm Cd b d pkt = io_bind (io_lift (cassert b (dx_ctx d \<noteq> None))) (\<lambda>_ w.
     if pkt = None then (Inl Undefined, w)
     else case av_read_frame Fm (dx_ctx d) pkt (av_packet_unref Cd pkt w) of (res, w') \<Rightarrow>
     if res = 0 then io_return True w'
     else if res = averror_eof U then io_return False w'
     else io_fail (av_exception U res) w')"

text \<open>A pointer to a stream of the format context, null by default.\<close>

(* codec/include/upp/codec/demux.hpp 14-19: stream_meta *)
record stream_meta =
  m_s :: ptr

(* codec/include/upp/codec/demux.hpp 22-22: stream_meta() *)
definition no_stream :: stream_meta where
  "no_stream = \<lparr>m_s = None\<rparr>"

(* codec/include/upp/codec/demux.hpp 24-24: stream_meta::operator bool *)
definition stream_valid :: "stream_meta \<Rightarrow> bool" where
  "stream_valid s \<longleftrightarrow> m_s s \<noteq> None"

(* codec/include/upp/codec/demux.hpp 39-45: stream_meta_span *)
record stream_meta_span =
  m_streams :: "nat list"

(* codec/include/upp/codec/demux.hpp 48-50: stream_meta_span::operator[] *)
definition stream_at :: "stream_meta_span \<Rightarrow> nat \<Rightarrow> stream_meta result" where
  "stream_at s idx = rbind (read_at (m_streams s) idx) (\<lambda>p. Inr \<lparr>m_s = Some p\<rparr>)"

lemma stream_at_valid: "stream_at s idx = Inr m \<Longrightarrow> stream_valid m"
  by (auto simp: stream_at_def stream_valid_def result_simps)

(* codec/include/upp/codec/demux.hpp 52-53: stream_meta_span::size *)
definition stream_count :: "stream_meta_span \<Rightarrow> nat" where
  "stream_count s = length (m_streams s)"

(* codec/lib/demux.cpp 131-134: demux::stream_info *)
definition demux_stream_info :: "'w av_format \<Rightarrow> build \<Rightarrow> demux \<Rightarrow> (stream_meta_span, 'w) io" where
  "demux_stream_info Fm b d = io_bind (io_lift (cassert b (dx_ctx d \<noteq> None))) (\<lambda>_ w.
     (Inr \<lparr>m_streams = fmt_streams Fm (dx_ctx d) w\<rparr>, w))"

(* codec/lib/demux.cpp 136-142: demux::best_video_stream *)
definition demux_best_video_stream :: "'w av_util \<Rightarrow> 'w av_format \<Rightarrow> build \<Rightarrow> demux \<Rightarrow> (nat, 'w) io" where
  "demux_best_video_stream U Fm b d = io_bind (io_lift (cassert b (dx_ctx d \<noteq> None))) (\<lambda>_ w.
     case av_find_best_stream Fm (dx_ctx d) w of (res, w') \<Rightarrow>
     io_bind (upp_check (res \<ge> 0) (av_exception U res)) (\<lambda>_. io_return (nat res)) w')"

section \<open>Lemmas\<close>

lemma av_heap_free:
  assumes "av_heap U Fm live" and "p \<in> live w"
  obtains w' where "av_free U (Some p) w = (Inr (), w')" and "live w' = live w - {p}"
    and "avio_buffer Fm i w' = avio_buffer Fm i w"
  using assms(1) [unfolded av_heap_def, rule_format, of p w] assms(2) by auto

lemma av_heap_dead:
  assumes "av_heap U Fm live" and "p \<notin> live w"
  obtains w' where "av_free U (Some p) w = (Inl Undefined, w')"
  using assms(1) [unfolded av_heap_def, rule_format, of p w] assms(2) by (cases "av_free U (Some p) w") auto

text \<open>Two \<open>av_free\<close> of the same block, one after the other.\<close>

lemma av_free_twice:
  assumes "av_heap U Fm live" and "avio_buffer Fm i w = Some p"
  shows "fst (io_bind (av_free U (Some p)) (\<lambda>_. io_bind (\<lambda>w. av_free U (avio_buffer Fm i w) w) f) w) = Inl Undefined"
proof (cases "p \<in> live w")
  case True
  then obtain w' where w': "av_free U (Some p) w = (Inr (), w')" "live w' = live w - {p}"
      "avio_buffer Fm i w' = Some p"
    using av_heap_free [OF assms(1)] assms(2) by metis
  then have "p \<notin> live w'" by simp
  then obtain w'' where "av_free U (Some p) w' = (Inl Undefined, w'')" using av_heap_dead [OF assms(1)] by blast
  then show ?thesis using w' by (simp add: io_bind_def)
next
  case False
  then show ?thesis using av_heap_dead [OF assms(1)] by (metis fst_conv io_bind_Inl)
qed

lemma demux_throw_io:
  "dx_ctx d = None \<Longrightarrow> dx_io d = Some i \<Longrightarrow> demux_throw U Fm d e =
    io_bind (\<lambda>w. av_free U (avio_buffer Fm (Some i) w) w) (\<lambda>_. io_bind (\<lambda>w. (Inr (), avio_context_free Fm (Some i) w)) (\<lambda>_. io_fail e))"
  by (auto simp: demux_throw_def demux_dtor_def io_bind_def fun_eq_iff split: prod.splits sum.splits)

section \<open>Properties\<close>

text \<open>C23. When ffmpeg refuses a memory buffer, the constructor frees the I/O buffer twice: once by its own
  clean-up and once in the destructor, which finds it through the I/O context.\<close>

theorem demux_failed_open_frees_twice:
  assumes "av_heap U Fm live"
    and "avformat_alloc_context Fm w = (Some c, w1)"
    and "av_malloc U (AV_IO_BUFFER_SIZE + av_padding U) w1 = (Some p, w2)"
    and "avio_alloc_context Fm (Some p) AV_IO_BUFFER_SIZE this w2 = (Some i, w3)"
    and "avformat_open_input Fm (Some c) ''dummy'' (set_pb Fm (Some c) (Some i) w3) = ((res, ctx), w4)"
    and "res \<noteq> 0" and "avio_buffer Fm (Some i) w4 = Some p"
  shows "fst (demux_from_buffer U Fm u this buf w) = Inl Undefined"
proof -
  let ?d = "\<lparr>dx_mem = \<lparr>mb_buf = buf, mb_offset = 0\<rparr>, dx_ctx = None, dx_io = Some i\<rparr>"
  have "demux_from_buffer U Fm u this buf w =
      io_bind (av_free U (Some p)) (\<lambda>_. demux_throw U Fm ?d (av_exception U res)) w4"
    using assms(2-6)
    by (simp add: demux_from_buffer_def demux_new_def io_bind_def demux_adopt_def drop_iobuf_def drop_ctx_def throw_traits_def
        split: prod.split sum.split)
  also have "demux_throw U Fm ?d (av_exception U res) = io_bind (\<lambda>w. av_free U (avio_buffer Fm (Some i) w) w)
      (\<lambda>_. io_bind (\<lambda>w. (Inr (), avio_context_free Fm (Some i) w)) (\<lambda>_. io_fail (av_exception U res)))"
    by (rule demux_throw_io) simp_all
  finally show ?thesis using av_free_twice [OF assms(1,7)] by simp
qed

text \<open>An ffmpeg whose world is the list of the live blocks and that can open no input.\<close>

definition example_util :: "nat list av_util" where
  "example_util =
     \<lparr>av_malloc = (\<lambda>n w. (Some 1, 1 # w)),
      av_free = (\<lambda>p w. case p of None \<Rightarrow> (Inr (), w)
        | Some a \<Rightarrow> if a \<in> set w then (Inr (), removeAll a w) else (Inl Undefined, w)),
      av_error_string = (\<lambda>code. ''Invalid data''), av_error_max = 64, averror_eof = - 541478725, averror_eagain = - 11,
      av_padding = 64, av_buffer_ref = (\<lambda>p w. (p, w)), av_buffer_unref = (\<lambda>p w. w),
      av_hwdevice_none = 0, av_hwdevice_ctx_create = (\<lambda>t w. ((0, None), w)), av_hwdevice_iterate_types = (\<lambda>t. 0),
      av_hwdevice_get_type_name = (\<lambda>t. None), av_frame_alloc = (\<lambda>w. (Some 4, w)),
      av_frame_ref = (\<lambda>dst src. io_return 0), av_frame_unref = (\<lambda>p w. w), av_frame_free = (\<lambda>p w. w)\<rparr>"

definition example_format :: "nat list av_format" where
  "example_format =
     \<lparr>avformat_alloc_context = (\<lambda>w. (Some 2, w)), avformat_open_input = (\<lambda>ctx url w. ((- 1094995529, None), w)),
      avformat_close_input = (\<lambda>ctx w. (None, w)), avformat_free_context = (\<lambda>ctx w. w),
      avio_alloc_context = (\<lambda>buf size opaque w. (Some 3, w)), avio_buffer = (\<lambda>io w. Some 1),
      avio_context_free = (\<lambda>io w. w), set_pb = (\<lambda>ctx io w. w), av_read_frame = (\<lambda>ctx pkt w. (- 541478725, w)),
      fmt_streams = (\<lambda>ctx w. []), av_find_best_stream = (\<lambda>ctx w. (- 1, w))\<rparr>"

lemma example_av_heap: "av_heap example_util example_format set"
  by (auto simp: av_heap_def example_util_def example_format_def)

theorem demux_failed_open_frees_twice_witness:
  "fst (demux_from_buffer example_util example_format 0 9 [1, 2] []) = Inl Undefined"
  by (rule demux_failed_open_frees_twice [OF example_av_heap, where c = 2 and p = 1 and i = 3 and res = "- 1094995529"])
    (simp_all add: example_util_def example_format_def)

text \<open>A moved \<open>demux\<close> that reads from memory leaves its buffer and its I/O context behind: destroying the
  source frees the I/O buffer, while the format context in the target still reads through it.\<close>

theorem demux_move_leaves_io:
  assumes "av_heap U Fm live" and "dx_ctx d = Some c" and "dx_io d = Some i"
    and "avio_buffer Fm (Some i) w = Some p" and "p \<in> live w"
  shows "case demux_move_ctor d of (target, source) \<Rightarrow>
    dx_ctx target = Some c \<and> dx_io target = None \<and> mb_buf (dx_mem target) = [] \<and>
    (\<exists>w'. live w' = live w - {p} \<and> demux_dtor U Fm source w = (Inr (), avio_context_free Fm (Some i) w'))"
proof -
  obtain w' where "av_free U (Some p) w = (Inr (), w')" "live w' = live w - {p}"
    using av_heap_free [OF assms(1,5)] by metis
  then show ?thesis using assms(2-4)
    by (auto simp: demux_move_ctor_def demux_adopt_def no_membuf_def demux_dtor_def io_bind_def)
qed

theorem demux_move_leaves_io_witness:
  "case demux_move_ctor \<lparr>dx_mem = \<lparr>mb_buf = [1], mb_offset = 0\<rparr>, dx_ctx = Some 2, dx_io = Some 3\<rparr> of (target, source) \<Rightarrow>
    dx_ctx target = Some 2 \<and> dx_io target = None \<and> mb_buf (dx_mem target) = [] \<and>
    (\<exists>w'. set w' = set [1] - {1} \<and> demux_dtor example_util example_format source [1] =
      (Inr (), avio_context_free example_format (Some 3) w'))"
  by (rule demux_move_leaves_io [OF example_av_heap]) (simp_all add: example_format_def)

end
