(* ===== verification/Codec.thy ===== *)
theory Codec
  imports Demux
begin

text \<open>
  The other classes of \<open>codec\<close>: packets, frames, hardware accelerators and the decoder, and the function
  that decodes an image with them.  Packets, frames and accelerators interpret the laws of unique
  ownership; trace messages are left out.
\<close>

section \<open>Packets\<close>

(* codec/lib/packet.cpp 10-10: packet::packet *)
definition packet_new :: "'w av_codec \<Rightarrow> (ptr, 'w) io" where
  "packet_new Cd = (\<lambda>w. case av_packet_alloc Cd w of (pkt, w') \<Rightarrow> (Inr pkt, w'))"

(* codec/include/upp/codec/packet.hpp 20-21: packet(packet&&) *)
definition packet_move_ctor :: "nat \<Rightarrow> nat \<Rightarrow> (ptr, 'w) owners \<Rightarrow> (ptr, 'w) owners result" where
  "packet_move_ctor = own_move_ctor None"

(* codec/lib/packet.cpp 12-14: packet::~packet *)
definition packet_dtor :: "'w av_codec \<Rightarrow> nat \<Rightarrow> (ptr, 'w) owners \<Rightarrow> (ptr, 'w) owners result" where
  "packet_dtor Cd = own_dtor (\<lambda>p. p \<noteq> None) (av_packet_free Cd)"

(* codec/include/upp/codec/packet.hpp 23-27: packet::operator= *)
definition packet_move_assign :: "'w av_codec \<Rightarrow> nat \<Rightarrow> nat \<Rightarrow> (ptr, 'w) owners \<Rightarrow> (ptr, 'w) owners result" where
  "packet_move_assign Cd a b s = rbind (packet_dtor Cd a s) (packet_move_ctor a b)"

definition packet_deref :: "build \<Rightarrow> ptr \<Rightarrow> nat result" where
  "packet_deref b pkt = rbind (cassert b (pkt \<noteq> None)) (\<lambda>_.
     case pkt of None \<Rightarrow> Inl Undefined | Some p \<Rightarrow> Inr p)"

(* codec/lib/packet.cpp 16-21: packet::data *)
definition packet_data :: "'w av_codec \<Rightarrow> build \<Rightarrow> ptr \<Rightarrow> 'w \<Rightarrow> (ptr \<times> nat) result" where
  "packet_data Cd b pkt w = rbind (packet_deref b pkt) (\<lambda>p. Inr (pkt_data Cd p w, to_size_t (pkt_size Cd p w)))"

(* codec/lib/packet.cpp 23-26: packet::size *)
definition packet_size :: "'w av_codec \<Rightarrow> build \<Rightarrow> ptr \<Rightarrow> 'w \<Rightarrow> nat result" where
  "packet_size Cd b pkt w = rbind (packet_deref b pkt) (\<lambda>p. Inr (to_size_t (pkt_size Cd p w)))"

(* codec/lib/packet.cpp 28-32: packet::stream *)
definition packet_stream :: "'w av_codec \<Rightarrow> build \<Rightarrow> ptr \<Rightarrow> 'w \<Rightarrow> nat result" where
  "packet_stream Cd b pkt w = rbind (packet_deref b pkt) (\<lambda>p.
     rbind (cassert b (pkt_stream_index Cd p w \<ge> 0)) (\<lambda>_. Inr (to_size_t (pkt_stream_index Cd p w))))"

definition packet_class :: "'w av_codec \<Rightarrow> (ptr, 'w) owner_class" where
  "packet_class Cd = \<lparr>oc_move_ctor = packet_move_ctor, oc_move_assign = packet_move_assign Cd, oc_dtor = packet_dtor Cd\<rparr>"

interpretation packets: unique_owner "packet_class Cd" None "\<lambda>p. p \<noteq> None" "av_packet_free Cd" for Cd
  by unfold_locales
    (auto simp: packet_class_def packet_move_ctor_def packet_dtor_def packet_move_assign_def own_move_assign_def fun_eq_iff)

section \<open>Frames\<close>

(* codec/lib/frame.cpp 20-22: frame::frame *)
definition frame_new :: "'w av_util \<Rightarrow> (ptr, 'w) io" where
  "frame_new U = (\<lambda>w. case av_frame_alloc U w of (h, w') \<Rightarrow>
     if h = None then io_fail Bad_Alloc w' else io_return h w')"

text \<open>When the reference cannot be taken, the frame just allocated is not freed.\<close>

(* codec/lib/frame.cpp 11-17: dup_frame *)
definition dup_frame :: "'w av_util \<Rightarrow> ptr \<Rightarrow> (ptr, 'w) io" where
  "dup_frame U orig = (\<lambda>w. case av_frame_alloc U w of (out, w1) \<Rightarrow>
     if out = None then io_fail Bad_Alloc w1
     else io_bind (av_frame_ref U out orig) (\<lambda>res. if res \<noteq> 0 then io_fail Bad_Alloc else io_return out) w1)"

(* codec/lib/frame.cpp 24-24: frame(const frame&) *)
definition frame_copy :: "'w av_util \<Rightarrow> ptr \<Rightarrow> (ptr, 'w) io" where
  "frame_copy U other = dup_frame U other"

(* codec/lib/frame.cpp 26-31: frame::operator= *)
definition frame_copy_assign :: "'w av_util \<Rightarrow> ptr \<Rightarrow> ptr \<Rightarrow> (unit, 'w) io" where
  "frame_copy_assign U h other = (\<lambda>w.
     let w1 = (if h \<noteq> None then av_frame_unref U h w else w) in
     io_bind (av_frame_ref U h other) (\<lambda>res. if res \<noteq> 0 then io_fail Bad_Alloc else io_return ()) w1)"

definition frame_close :: "'w av_util \<Rightarrow> ptr \<Rightarrow> 'w \<Rightarrow> 'w" where
  "frame_close U h w = av_frame_free U h (av_frame_unref U h w)"

(* codec/lib/frame.cpp 33-34: frame(frame&&) *)
definition frame_move_ctor :: "nat \<Rightarrow> nat \<Rightarrow> (ptr, 'w) owners \<Rightarrow> (ptr, 'w) owners result" where
  "frame_move_ctor = own_move_ctor None"

(* codec/lib/frame.cpp 42-47: frame::~frame *)
definition frame_dtor :: "'w av_util \<Rightarrow> nat \<Rightarrow> (ptr, 'w) owners \<Rightarrow> (ptr, 'w) owners result" where
  "frame_dtor U = own_dtor (\<lambda>h. h \<noteq> None) (frame_close U)"

(* codec/lib/frame.cpp 36-40: frame::operator=(frame&&) *)
definition frame_move_assign :: "'w av_util \<Rightarrow> nat \<Rightarrow> nat \<Rightarrow> (ptr, 'w) owners \<Rightarrow> (ptr, 'w) owners result" where
  "frame_move_assign U a b s = rbind (frame_dtor U a s) (frame_move_ctor a b)"

definition frame_class :: "'w av_util \<Rightarrow> (ptr, 'w) owner_class" where
  "frame_class U = \<lparr>oc_move_ctor = frame_move_ctor, oc_move_assign = frame_move_assign U, oc_dtor = frame_dtor U\<rparr>"

interpretation frames: unique_owner "frame_class U" None "\<lambda>h. h \<noteq> None" "frame_close U" for U
  by unfold_locales
    (auto simp: frame_class_def frame_move_ctor_def frame_dtor_def frame_move_assign_def own_move_assign_def fun_eq_iff)

section \<open>Hardware accelerators\<close>

(* codec/include/upp/codec/hwaccel.hpp 62-69: hwaccel_meta *)
record hwaccel_meta =
  meta_type :: "32 word"

(* codec/lib/hwaccel.cpp 14-20: alloc_hwdevice_ctx *)
definition alloc_hwdevice_ctx :: "'w av_util \<Rightarrow> build \<Rightarrow> 32 word \<Rightarrow> (ptr, 'w) io" where
  "alloc_hwdevice_ctx U b type = io_bind (io_lift (cassert b (type \<noteq> av_hwdevice_none U))) (\<lambda>_ w.
     case av_hwdevice_ctx_create U type w of ((res, ctx), w') \<Rightarrow>
     io_bind (upp_check (res = 0) (av_exception U res)) (\<lambda>_. io_return ctx) w')"

(* codec/lib/hwaccel.cpp 23-24: hwaccel(hwaccel_meta) *)
definition hwaccel_new :: "'w av_util \<Rightarrow> build \<Rightarrow> hwaccel_meta \<Rightarrow> (ptr, 'w) io" where
  "hwaccel_new U b meta = alloc_hwdevice_ctx U b (meta_type meta)"

(* codec/lib/hwaccel.cpp 26-30: hwaccel(const hwaccel&) *)
definition hwaccel_copy :: "'w av_util \<Rightarrow> ptr \<Rightarrow> (ptr, 'w) io" where
  "hwaccel_copy U other = (\<lambda>w.
     case (if other \<noteq> None then av_buffer_ref U other w else (None, w)) of (ref, w') \<Rightarrow>
     if other \<noteq> None \<and> ref = None then io_fail Bad_Alloc w' else io_return ref w')"

(* codec/lib/hwaccel.cpp 38-39: hwaccel(hwaccel&&) *)
definition hwaccel_move_ctor :: "nat \<Rightarrow> nat \<Rightarrow> (ptr, 'w) owners \<Rightarrow> (ptr, 'w) owners result" where
  "hwaccel_move_ctor = own_move_ctor None"

(* codec/lib/hwaccel.cpp 47-49: hwaccel::~hwaccel *)
definition hwaccel_dtor :: "'w av_util \<Rightarrow> nat \<Rightarrow> (ptr, 'w) owners \<Rightarrow> (ptr, 'w) owners result" where
  "hwaccel_dtor U = own_dtor (\<lambda>r. r \<noteq> None) (av_buffer_unref U)"

(* codec/lib/hwaccel.cpp 41-45: hwaccel::operator=(hwaccel&&) *)
definition hwaccel_move_assign :: "'w av_util \<Rightarrow> nat \<Rightarrow> nat \<Rightarrow> (ptr, 'w) owners \<Rightarrow> (ptr, 'w) owners result" where
  "hwaccel_move_assign U a b s = rbind (hwaccel_dtor U a s) (hwaccel_move_ctor a b)"

(* codec/lib/hwaccel.cpp 32-36: hwaccel::operator= *)
definition hwaccel_copy_assign ::
    "'w av_util \<Rightarrow> nat \<Rightarrow> nat \<Rightarrow> (ptr, 'w) owners \<Rightarrow> (error option \<times> (ptr, 'w) owners) result" where
  "hwaccel_copy_assign U a b s = rbind (hwaccel_dtor U a s) (\<lambda>s.
     case obj_at s b of None \<Rightarrow> Inl Undefined | Some r \<Rightarrow> Inr (own_ctor a (hwaccel_copy U r) s))"

definition hwaccel_class :: "'w av_util \<Rightarrow> (ptr, 'w) owner_class" where
  "hwaccel_class U = \<lparr>oc_move_ctor = hwaccel_move_ctor, oc_move_assign = hwaccel_move_assign U, oc_dtor = hwaccel_dtor U\<rparr>"

interpretation hwaccels: unique_owner "hwaccel_class U" None "\<lambda>r. r \<noteq> None" "av_buffer_unref U" for U
  by unfold_locales
    (auto simp: hwaccel_class_def hwaccel_move_ctor_def hwaccel_dtor_def hwaccel_move_assign_def own_move_assign_def fun_eq_iff)

(* codec/include/upp/codec/hwaccel.hpp 12-15: hwaccel() *)
definition hwaccel_none :: ptr where
  "hwaccel_none = None"

(* codec/include/upp/codec/hwaccel.hpp 26-28: hwaccel::operator bool *)
definition hwaccel_valid :: "ptr \<Rightarrow> bool" where
  "hwaccel_valid m_ref \<longleftrightarrow> m_ref \<noteq> None"

lemma hwaccel_copy_valid:
  "hwaccel_copy U other w = (Inr ref, w') \<Longrightarrow> hwaccel_valid ref = hwaccel_valid other"
  by (auto simp: hwaccel_copy_def hwaccel_valid_def io_fail_def io_return_def split: if_splits prod.splits)

section \<open>The supported accelerators\<close>

text \<open>The range has no state, and an iterator holds the type it stands at; it compares with the sentinel,
  which has no state either.\<close>

datatype hwaccel_range = Hwaccel_Range

(* codec/include/upp/codec/hwaccel.hpp 33-40: hwaccel_range::iterator *)
record hw_iterator =
  it_type :: "32 word"

(* codec/include/upp/codec/hwaccel.hpp 75-77: supported_hardware_accelerators *)
definition supported_hardware_accelerators :: hwaccel_range where
  "supported_hardware_accelerators = Hwaccel_Range"

(* codec/lib/hwaccel.cpp 51-54: hwaccel_range::begin *)
definition hw_begin :: "'w av_util \<Rightarrow> hwaccel_range \<Rightarrow> hw_iterator" where
  "hw_begin U r = \<lparr>it_type = av_hwdevice_iterate_types U (av_hwdevice_none U)\<rparr>"

(* codec/lib/hwaccel.cpp 56-60: iterator::operator++ *)
definition hw_next :: "'w av_util \<Rightarrow> hw_iterator \<Rightarrow> hw_iterator" where
  "hw_next U it = it\<lparr>it_type := av_hwdevice_iterate_types U (it_type it)\<rparr>"

(* codec/lib/hwaccel.cpp 62-66: iterator::operator++(int) *)
definition hw_post_next :: "'w av_util \<Rightarrow> hw_iterator \<Rightarrow> hw_iterator \<times> hw_iterator" where
  "hw_post_next U it = (it, hw_next U it)"

(* codec/lib/hwaccel.cpp 68-70: iterator::operator* *)
definition hw_deref :: "hw_iterator \<Rightarrow> hwaccel_meta" where
  "hw_deref it = \<lparr>meta_type = it_type it\<rparr>"

(* codec/lib/hwaccel.cpp 72-75: iterator::operator== *)
definition hw_at_end :: "'w av_util \<Rightarrow> hw_iterator \<Rightarrow> bool" where
  "hw_at_end U it \<longleftrightarrow> it_type it = av_hwdevice_none U"

(* codec/include/upp/codec/hwaccel.hpp 52-54: iterator::operator!= *)
definition hw_not_at_end :: "'w av_util \<Rightarrow> hw_iterator \<Rightarrow> bool" where
  "hw_not_at_end U it \<longleftrightarrow> \<not> hw_at_end U it"

(* codec/lib/hwaccel.cpp 77-79: hwaccel_meta::name *)
definition hw_name :: "'w av_util \<Rightarrow> hwaccel_meta \<Rightarrow> string option" where
  "hw_name U meta = av_hwdevice_get_type_name U (meta_type meta)"

text \<open>What a range-based loop visits from an iterator on.\<close>

partial_function (option) hw_visit :: "'w av_util \<Rightarrow> hw_iterator \<Rightarrow> hwaccel_meta list option" where
  "hw_visit U it = (if hw_not_at_end U it
     then Option.bind (hw_visit U (hw_next U it)) (\<lambda>ms. Some (hw_deref it # ms)) else Some [])"

declare hw_visit.simps [code]

text \<open>What \<open>av_hwdevice_iterate_types\<close> promises: after each type it gives the next supported one, and the type
  for none after the last.\<close>

fun hw_types_after :: "'w av_util \<Rightarrow> 32 word \<Rightarrow> 32 word list \<Rightarrow> bool" where
  "hw_types_after U t [] \<longleftrightarrow> av_hwdevice_iterate_types U t = av_hwdevice_none U"
| "hw_types_after U t (x # xs) \<longleftrightarrow> av_hwdevice_iterate_types U t = x \<and> x \<noteq> av_hwdevice_none U \<and> hw_types_after U x xs"

lemma hw_visit_types:
  "hw_types_after U t ts \<Longrightarrow>
    hw_visit U \<lparr>it_type = av_hwdevice_iterate_types U t\<rparr> = Some (map (\<lambda>t. \<lparr>meta_type = t\<rparr>) ts)"
proof (induction ts arbitrary: t)
  case Nil
  then show ?case by (simp add: hw_visit.simps hw_not_at_end_def hw_at_end_def)
next
  case (Cons x xs)
  then have "av_hwdevice_iterate_types U t = x" "hw_not_at_end U \<lparr>it_type = x\<rparr>"
    "hw_visit U \<lparr>it_type = av_hwdevice_iterate_types U x\<rparr> = Some (map (\<lambda>t. \<lparr>meta_type = t\<rparr>) xs)"
    by (simp_all add: hw_not_at_end_def hw_at_end_def)
  then show ?case by (simp add: hw_visit.simps [of U "\<lparr>it_type = x\<rparr>"] hw_next_def hw_deref_def)
qed

lemma hw_types_not_none: "hw_types_after U s ts \<Longrightarrow> av_hwdevice_none U \<notin> set ts"
  by (induction ts arbitrary: s) auto

text \<open>A loop over the supported accelerators visits every type that ffmpeg lists, once and in its order, and
  ends; creating an accelerator from what it visits passes the assertion on the type.\<close>

theorem hw_range_visits:
  assumes "hw_types_after U (av_hwdevice_none U) ts"
  shows "hw_visit U (hw_begin U supported_hardware_accelerators) = Some (map (\<lambda>t. \<lparr>meta_type = t\<rparr>) ts) \<and>
    (\<forall>t \<in> set ts. hwaccel_new U Debug \<lparr>meta_type = t\<rparr> = hwaccel_new U Release \<lparr>meta_type = t\<rparr>)"
  using hw_visit_types [OF assms] hw_types_not_none [OF assms]
  by (auto simp: hw_begin_def hwaccel_new_def alloc_hwdevice_ctx_def cassert_def)

theorem hw_range_visits_witness:
  "\<exists>U :: nat list av_util. hw_visit U (hw_begin U supported_hardware_accelerators) = Some [\<lparr>meta_type = 1\<rparr>, \<lparr>meta_type = 3\<rparr>]"
proof -
  let ?U = "example_util\<lparr>av_hwdevice_none := 0, av_hwdevice_iterate_types := (\<lambda>t. if t = 0 then 1 else if t = 1 then 3 else 0)\<rparr>"
  have "hw_types_after ?U (av_hwdevice_none ?U) [1, 3]" by simp
  from hw_range_visits [OF this] show ?thesis by (intro exI [of _ ?U]) simp
qed

end
