(* ===== verification/Decoder.thy ===== *)
theory Decoder
  imports Codec
begin

text \<open>
  The decoder, \<open>codec/lib/decoder.cpp\<close>, and \<open>decode_image\<close>, \<open>codec/lib/util.cpp\<close>, which composes the
  demultiplexer, the decoder, a packet and a frame.  Its loop is a partial function: it runs as long as
  the input gives packets.
\<close>

section \<open>The decoder\<close>

text \<open>The index of the stream is kept in debug builds only; the largest \<open>size_t\<close> stands for none.\<close>

(* codec/include/upp/codec/decoder.hpp 10-18: decoder *)
record decoder =
  dec_ctx :: ptr
  dec_internal :: ptr
  dec_stream_idx :: nat

definition no_stream_idx :: nat where
  "no_stream_idx = 2 ^ 64 - 1"

(* codec/include/upp/codec/decoder.hpp 22-25: decoder_opts *)
record decoder_opts =
  opt_stream :: stream_meta
  opt_hwaccel :: ptr

(* codec/lib/decoder.cpp 16-16: decoder::decoder() *)
definition decoder_new :: "'w av_util \<Rightarrow> 'w av_codec \<Rightarrow> (decoder, 'w) io" where
  "decoder_new U Cd = (\<lambda>w. case avcodec_alloc_context3 Cd w of (ctx, w1) \<Rightarrow>
     io_bind (frame_new U) (\<lambda>frm. io_return \<lparr>dec_ctx = ctx, dec_internal = frm, dec_stream_idx = no_stream_idx\<rparr>) w1)"

text \<open>The destructor, with that of the frame inside.\<close>

(* codec/lib/decoder.cpp 53-55: decoder::~decoder *)
definition decoder_dtor :: "'w av_util \<Rightarrow> 'w av_codec \<Rightarrow> decoder \<Rightarrow> 'w \<Rightarrow> 'w" where
  "decoder_dtor U Cd d w =
     (let w1 = (if dec_ctx d \<noteq> None then avcodec_free_context Cd (dec_ctx d) w else w)
      in if dec_internal d \<noteq> None then frame_close U (dec_internal d) w1 else w1)"

definition decoder_throw :: "'w av_util \<Rightarrow> 'w av_codec \<Rightarrow> decoder \<Rightarrow> error \<Rightarrow> ('a, 'w) io" where
  "decoder_throw U Cd d e = (\<lambda>w. (Inl e, decoder_dtor U Cd d w))"

(* codec/lib/decoder.cpp 18-35: decoder::decoder(decoder_opts) *)
definition decoder_ctor :: "'w av_util \<Rightarrow> 'w av_codec \<Rightarrow> decoder_opts \<Rightarrow> (decoder, 'w) io" where
  "decoder_ctor U Cd opts = io_bind (decoder_new U Cd) (\<lambda>d w.
     let accel = hwaccel_valid (opt_hwaccel opts);
       w1 = (if accel
       then case av_buffer_ref U (opt_hwaccel opts) w of (ref, w') \<Rightarrow> set_hw_device_ctx Cd (dec_ctx d) ref w'
       else w) in
     if accel \<and> dec_ctx d = None then (Inl Undefined, w)
     else if \<not> stream_valid (opt_stream opts) then (Inr d, w1)
     else let handle = the (m_s (opt_stream opts)) in (case avcodec_parameters_to_context Cd (dec_ctx d) handle w1 of (res, w2) \<Rightarrow>
         if res \<noteq> 0 then decoder_throw U Cd d (av_exception U res) w2
         else if dec_ctx d = None then (Inl Undefined, w2)
         else let w3 = set_pkt_timebase Cd (dec_ctx d) handle w2; codec = avcodec_find_decoder Cd (dec_ctx d) w3 in
           if codec = None then decoder_throw U Cd d (Runtime_Error ''codec not found'') w3
           else case avcodec_open2 Cd (dec_ctx d) codec w3 of (res, w4) \<Rightarrow>
             if res \<noteq> 0 then decoder_throw U Cd d (av_exception U res) w4 else (Inr d, w4)))"

text \<open>The codec context is not checked after its allocation.\<close>

lemma decoder_ctor_null:
  assumes "avcodec_alloc_context3 Cd w = (None, w1)" and "fst (av_frame_alloc U w1) \<noteq> None"
    and "hwaccel_valid (opt_hwaccel opts)"
  shows "fst (decoder_ctor U Cd opts w) = Inl Undefined"
  using assms
  by (auto simp: decoder_ctor_def decoder_new_def frame_new_def io_bind_def io_return_def decoder_throw_def Let_def
    split: prod.splits)

(* codec/lib/decoder.cpp 37-45: decoder::decoder(decoder&&) *)
definition decoder_move_ctor :: "decoder \<Rightarrow> decoder \<times> decoder" where
  "decoder_move_ctor other =
     (\<lparr>dec_ctx = dec_ctx other, dec_internal = dec_internal other, dec_stream_idx = dec_stream_idx other\<rparr>,
      other\<lparr>dec_ctx := None, dec_internal := None\<rparr>)"

(* codec/lib/decoder.cpp 47-51: decoder::operator= *)
definition decoder_move_assign :: "'w av_util \<Rightarrow> 'w av_codec \<Rightarrow> decoder \<Rightarrow> decoder \<Rightarrow> 'w \<Rightarrow> (decoder \<times> decoder) \<times> 'w" where
  "decoder_move_assign U Cd d other w = (decoder_move_ctor other, decoder_dtor U Cd d w)"

text \<open>A debug build takes the first packet's stream for that of the decoder and insists on it.\<close>

definition check_stream :: "'w av_codec \<Rightarrow> build \<Rightarrow> decoder \<Rightarrow> ptr \<Rightarrow> 'w \<Rightarrow> decoder result" where
  "check_stream Cd b d pkt w =
     (if b = Release then Inr d
      else rbind (packet_stream Cd b pkt w) (\<lambda>i.
        let d = (if dec_stream_idx d = no_stream_idx then d\<lparr>dec_stream_idx := i\<rparr> else d)
        in rbind (cassert b (dec_stream_idx d = i)) (\<lambda>_. Inr d)))"

(* codec/lib/decoder.cpp 57-67: decoder::operator<< *)
definition decoder_send :: "'w av_util \<Rightarrow> 'w av_codec \<Rightarrow> build \<Rightarrow> decoder \<Rightarrow> ptr \<Rightarrow> (decoder, 'w) io" where
  "decoder_send U Cd b d pkt = (\<lambda>w. io_bind (io_lift (check_stream Cd b d pkt w)) (\<lambda>d w.
     case avcodec_send_packet Cd (dec_ctx d) pkt w of (res, w1) \<Rightarrow>
     io_bind (upp_check (res = 0) (av_exception U res)) (\<lambda>_. io_return d) w1) w)"

(* codec/lib/decoder.cpp 69-79: decoder::operator>> *)
definition decoder_receive :: "'w av_util \<Rightarrow> 'w av_codec \<Rightarrow> decoder \<Rightarrow> ptr \<Rightarrow> (bool, 'w) io" where
  "decoder_receive U Cd d frm = (\<lambda>w.
     case avcodec_receive_frame Cd (dec_ctx d) (dec_internal d) (av_frame_unref U frm w) of (res, w1) \<Rightarrow>
     if res = 0 then io_bind (frame_copy_assign U frm (dec_internal d)) (\<lambda>_. io_return True) w1
     else if res = averror_eagain U then io_return False w1
     else io_fail (av_exception U res) w1)"

definition decoder_deref :: "build \<Rightarrow> decoder \<Rightarrow> nat result" where
  "decoder_deref b d = rbind (cassert b (dec_ctx d \<noteq> None)) (\<lambda>_.
     case dec_ctx d of None \<Rightarrow> Inl Undefined | Some c \<Rightarrow> Inr c)"

(* codec/lib/decoder.cpp 80-83: decoder::width *)
definition decoder_width :: "'w av_codec \<Rightarrow> build \<Rightarrow> decoder \<Rightarrow> 'w \<Rightarrow> int result" where
  "decoder_width Cd b d w = rbind (decoder_deref b d) (\<lambda>c. Inr (ctx_width Cd c w))"

(* codec/lib/decoder.cpp 85-88: decoder::height *)
definition decoder_height :: "'w av_codec \<Rightarrow> build \<Rightarrow> decoder \<Rightarrow> 'w \<Rightarrow> int result" where
  "decoder_height Cd b d w = rbind (decoder_deref b d) (\<lambda>c. Inr (ctx_height Cd c w))"

section \<open>Decoding an image\<close>

partial_function (option) decode_loop ::
    "'w av_util \<Rightarrow> 'w av_format \<Rightarrow> 'w av_codec \<Rightarrow> build \<Rightarrow> demux \<Rightarrow> decoder \<Rightarrow> ptr \<Rightarrow> ptr \<Rightarrow> 'w \<Rightarrow>
      (unit result \<times> 'w) option" where
  "decode_loop U Fm Cd b dem dec pkt frm w =
     (case demux_read U Fm Cd b dem pkt w of (r1, w1) \<Rightarrow> (case r1 of
        Inl e \<Rightarrow> Some (Inl e, w1)
      | Inr read \<Rightarrow> if \<not> read
          then Some (Inl (Runtime_Error ''could not decode a frame from an image''), w1)
          else (case decoder_send U Cd b dec pkt w1 of (r2, w2) \<Rightarrow> (case r2 of
              Inl e \<Rightarrow> Some (Inl e, w2)
            | Inr dec' \<Rightarrow> (case decoder_receive U Cd dec' frm w2 of (r3, w3) \<Rightarrow> (case r3 of
                Inl e \<Rightarrow> Some (Inl e, w3)
              | Inr got \<Rightarrow> if got then Some (Inr (), w3)
                  else decode_loop U Fm Cd b dem dec' pkt frm w3))))))"

text \<open>A failed assertion or undefined behaviour ends the program where it is: no destructor runs.\<close>

definition stops :: "error \<Rightarrow> bool" where
  "stops e \<longleftrightarrow> e = Assertion \<or> e = Undefined"

fun stopped :: "'a result \<Rightarrow> bool" where
  "stopped (Inl e) = stops e"
| "stopped (Inr x) = False"

text \<open>The objects of the function are destroyed in reverse order, whether it returns or throws; the frame
  is the result when it returns.\<close>

definition after :: "('a result \<times> 'w) option \<Rightarrow> (unit, 'w) io \<Rightarrow> ('a result \<times> 'w) option" where
  "after r dtor = (case r of None \<Rightarrow> None | Some (x, w) \<Rightarrow> if stopped x then Some (x, w) else
     (case dtor w of (Inl e, w') \<Rightarrow> Some (Inl e, w') | (Inr u, w') \<Rightarrow> Some (x, w')))"

definition with_object :: "('o, 'w) io \<Rightarrow> ('o \<Rightarrow> (unit, 'w) io) \<Rightarrow> ('o \<Rightarrow> 'w \<Rightarrow> ('a result \<times> 'w) option) \<Rightarrow>
    'w \<Rightarrow> ('a result \<times> 'w) option" where
  "with_object create dtor body w = (case create w of (Inl e, w') \<Rightarrow> Some (Inl e, w')
     | (Inr x, w') \<Rightarrow> after (body x w') (dtor x))"

definition destroy_ptr :: "(ptr \<Rightarrow> 'w \<Rightarrow> 'w) \<Rightarrow> ptr \<Rightarrow> (unit, 'w) io" where
  "destroy_ptr close h = (\<lambda>w. (Inr (), if h \<noteq> None then close h w else w))"

definition decode_frame ::
    "'w av_util \<Rightarrow> 'w av_format \<Rightarrow> 'w av_codec \<Rightarrow> build \<Rightarrow> demux \<Rightarrow> decoder \<Rightarrow> 'w \<Rightarrow> (ptr result \<times> 'w) option" where
  "decode_frame U Fm Cd b dem dec =
     with_object (packet_new Cd) (destroy_ptr (av_packet_free Cd)) (\<lambda>pkt w.
       case frame_new U w of (Inl e, w') \<Rightarrow> Some (Inl e, w')
       | (Inr frm, w') \<Rightarrow> (case decode_loop U Fm Cd b dem dec pkt frm w' of
           None \<Rightarrow> None
         | Some (Inr _, w'') \<Rightarrow> Some (Inr frm, w'')
         | Some (Inl e, w'') \<Rightarrow> after (Some (Inl e, w'')) (destroy_ptr (frame_close U) frm)))"

(* codec/lib/util.cpp 8-20: decode_image(span) *)
definition decode_image ::
    "'w av_util \<Rightarrow> 'w av_format \<Rightarrow> 'w av_codec \<Rightarrow> build \<Rightarrow> nat \<Rightarrow> nat \<Rightarrow> byte list \<Rightarrow> 'w \<Rightarrow> (ptr result \<times> 'w) option" where
  "decode_image U Fm Cd b u this data =
     with_object (demux_from_buffer U Fm u this data) (demux_dtor U Fm) (\<lambda>dem w.
       case demux_best_video_stream U Fm b dem w of (Inl e, w1) \<Rightarrow> Some (Inl e, w1)
       | (Inr idx, w1) \<Rightarrow> (case io_bind (demux_stream_info Fm b dem) (\<lambda>info. io_lift (stream_at info idx)) w1 of
           (Inl e, w2) \<Rightarrow> Some (Inl e, w2)
         | (Inr s, w2) \<Rightarrow> with_object (decoder_ctor U Cd \<lparr>opt_stream = s, opt_hwaccel = hwaccel_none\<rparr>)
             (\<lambda>dec w. (Inr (), decoder_dtor U Cd dec w)) (decode_frame U Fm Cd b dem) w2))"

(* codec/lib/util.cpp 22-27: decode_image(path) *)
definition decode_image_file ::
    "'w posix \<Rightarrow> 'w av_util \<Rightarrow> 'w av_format \<Rightarrow> 'w av_codec \<Rightarrow> build \<Rightarrow> nat \<Rightarrow> nat \<Rightarrow> string \<Rightarrow> 'w \<Rightarrow> (ptr result \<times> 'w) option" where
  "decode_image_file P U Fm Cd b u this path =
     with_object (file_open P path) (\<lambda>f w. (Inr (), file_do_close P f w)) (\<lambda>f w.
       case file_read_bin P b f w of (Inl e, w') \<Rightarrow> Some (Inl e, w')
       | (Inr dat, w') \<Rightarrow> decode_image U Fm Cd b u this dat w')"

declare decode_loop.simps [code]

text \<open>A packet of another stream than the first one stops a debug build.\<close>

lemma decoder_send_other_stream:
  assumes "packet_stream Cd Debug pkt w = Inr j" and "dec_stream_idx d \<noteq> no_stream_idx" and "dec_stream_idx d \<noteq> j"
  shows "decoder_send U Cd Debug d pkt w = (Inl Assertion, w)"
  using assms by (simp add: decoder_send_def check_stream_def io_bind_def)

section \<open>The loop ends\<close>

text \<open>An input of finitely many packets: each packet read reduces what remains, and nothing else that the loop
  calls adds to it.\<close>

definition finite_input :: "'w av_util \<Rightarrow> 'w av_format \<Rightarrow> 'w av_codec \<Rightarrow> ('w \<Rightarrow> nat) \<Rightarrow> bool" where
  "finite_input U Fm Cd remaining \<longleftrightarrow>
     (\<forall>ctx pkt w w'. av_read_frame Fm ctx pkt w = (0, w') \<longrightarrow> remaining w' < remaining w) \<and>
     (\<forall>pkt w. remaining (av_packet_unref Cd pkt w) = remaining w) \<and>
     (\<forall>ctx pkt w. remaining (snd (avcodec_send_packet Cd ctx pkt w)) = remaining w) \<and>
     (\<forall>ctx frm w. remaining (snd (avcodec_receive_frame Cd ctx frm w)) = remaining w) \<and>
     (\<forall>frm w. remaining (av_frame_unref U frm w) = remaining w) \<and>
     (\<forall>frm src w. remaining (snd (av_frame_ref U frm src w)) = remaining w)"

lemma demux_read_remaining:
  assumes "finite_input U Fm Cd remaining" and "demux_read U Fm Cd b d pkt w = (Inr True, w')"
  shows "remaining w' < remaining w"
proof -
  have read: "av_read_frame Fm (dx_ctx d) pkt (av_packet_unref Cd pkt w) = (0, w')"
    using assms(2) by (auto simp: demux_read_def io_bind_def split: prod.splits sum.splits if_splits)
  then have "remaining w' < remaining (av_packet_unref Cd pkt w)"
    using assms(1) unfolding finite_input_def by blast
  then show ?thesis using assms(1) by (simp add: finite_input_def)
qed

lemma decoder_send_remaining:
  assumes "finite_input U Fm Cd remaining" and "decoder_send U Cd b d pkt w = (Inr d', w')"
  shows "remaining w' = remaining w"
proof -
  have "snd (avcodec_send_packet Cd (dec_ctx d') pkt w) = w'"
    using assms(2) by (auto simp: decoder_send_def io_bind_def upp_check_def split: prod.splits sum.splits if_splits)
  then show ?thesis using assms(1) unfolding finite_input_def by metis
qed

lemma decoder_receive_remaining:
  assumes "finite_input U Fm Cd remaining" and "decoder_receive U Cd d frm w = (Inr False, w')"
  shows "remaining w' = remaining w"
proof -
  have "snd (avcodec_receive_frame Cd (dec_ctx d) (dec_internal d) (av_frame_unref U frm w)) = w'"
    using assms(2) by (auto simp: decoder_receive_def io_bind_def split: prod.splits sum.splits if_splits)
  then show ?thesis using assms(1) unfolding finite_input_def by metis
qed

lemma decode_loop_ends:
  assumes "finite_input U Fm Cd remaining"
  shows "decode_loop U Fm Cd b dem dec pkt frm w \<noteq> None"
proof (induction "remaining w" arbitrary: w dec rule: less_induct)
  case less
  show ?case
  proof (cases "\<exists>w1 dec' w2 w3. demux_read U Fm Cd b dem pkt w = (Inr True, w1) \<and>
      decoder_send U Cd b dec pkt w1 = (Inr dec', w2) \<and> decoder_receive U Cd dec' frm w2 = (Inr False, w3)")
    case True
    then obtain w1 dec' w2 w3 where s: "demux_read U Fm Cd b dem pkt w = (Inr True, w1)"
        "decoder_send U Cd b dec pkt w1 = (Inr dec', w2)" "decoder_receive U Cd dec' frm w2 = (Inr False, w3)" by blast
    have "remaining w3 < remaining w"
      using demux_read_remaining [OF assms s(1)] decoder_send_remaining [OF assms s(2)]
        decoder_receive_remaining [OF assms s(3)] by simp
    then have "decode_loop U Fm Cd b dem dec' pkt frm w3 \<noteq> None" by (rule less.hyps)
    moreover have "decode_loop U Fm Cd b dem dec pkt frm w = decode_loop U Fm Cd b dem dec' pkt frm w3"
      by (subst decode_loop.simps) (simp add: s)
    ultimately show ?thesis by simp
  next
    case False
    then show ?thesis
      by (subst decode_loop.simps) (auto split: prod.splits sum.splits)
  qed
qed

lemma with_object_ends:
  assumes "\<And>x w. body x w \<noteq> None"
  shows "with_object create dtor body w \<noteq> None"
proof -
  have "body x w' = None \<longleftrightarrow> False" for x w' using assms by simp
  then show ?thesis
    by (auto simp: with_object_def after_def simp del: not_None_eq not_Some_eq split: prod.splits sum.splits option.splits)
qed

lemma decode_frame_ends:
  assumes "finite_input U Fm Cd remaining"
  shows "decode_frame U Fm Cd b dem dec w \<noteq> None"
  unfolding decode_frame_def
proof (rule with_object_ends)
  fix pkt w
  have "decode_loop U Fm Cd b dem dec pkt frm w' = None \<longleftrightarrow> False" for frm w'
    using decode_loop_ends [OF assms] by simp
  then show "(case frame_new U w of (Inl e, w') \<Rightarrow> Some (Inl e, w')
       | (Inr frm, w') \<Rightarrow> (case decode_loop U Fm Cd b dem dec pkt frm w' of
           None \<Rightarrow> None
         | Some (Inr _, w'') \<Rightarrow> Some (Inr frm, w'')
         | Some (Inl e, w'') \<Rightarrow> after (Some (Inl e, w'')) (destroy_ptr (frame_close U) frm))) \<noteq> None"
    by (auto simp: after_def simp del: not_None_eq not_Some_eq split: prod.splits sum.splits option.splits)
qed

text \<open>An ffmpeg whose world is the number of packets left and whose decoder has a frame once all are sent.\<close>

definition count_util :: "nat av_util" where
  "count_util =
     \<lparr>av_malloc = (\<lambda>n w. (Some 1, w)), av_free = (\<lambda>p. io_return ()), av_error_string = (\<lambda>code. []), av_error_max = 64,
      averror_eof = - 541478725, averror_eagain = - 11, av_padding = 64,
      av_buffer_ref = (\<lambda>p w. (p, w)), av_buffer_unref = (\<lambda>p w. w), av_hwdevice_none = 0,
      av_hwdevice_ctx_create = (\<lambda>t w. ((0, None), w)), av_hwdevice_iterate_types = (\<lambda>t. 0),
      av_hwdevice_get_type_name = (\<lambda>t. None), av_frame_alloc = (\<lambda>w. (Some 4, w)),
      av_frame_ref = (\<lambda>dst src. io_return 0), av_frame_unref = (\<lambda>p w. w), av_frame_free = (\<lambda>p w. w)\<rparr>"

definition count_format :: "nat av_format" where
  "count_format =
     \<lparr>avformat_alloc_context = (\<lambda>w. (Some 2, w)), avformat_open_input = (\<lambda>ctx url w. ((0, ctx), w)),
      avformat_close_input = (\<lambda>ctx w. (None, w)), avformat_free_context = (\<lambda>ctx w. w),
      avio_alloc_context = (\<lambda>buf size opaque w. (Some 3, w)), avio_buffer = (\<lambda>io w. Some 1),
      avio_context_free = (\<lambda>io w. w), set_pb = (\<lambda>ctx io w. w),
      av_read_frame = (\<lambda>ctx pkt w. if w = 0 then (- 541478725, w) else (0, w - 1)),
      fmt_streams = (\<lambda>ctx w. [8]), av_find_best_stream = (\<lambda>ctx w. (0, w))\<rparr>"

definition count_codec :: "nat av_codec" where
  "count_codec =
     \<lparr>av_packet_alloc = (\<lambda>w. (Some 5, w)), av_packet_free = (\<lambda>p w. w), av_packet_unref = (\<lambda>p w. w),
      pkt_data = (\<lambda>p w. None), pkt_size = (\<lambda>p w. 0), pkt_stream_index = (\<lambda>p w. 0),
      avcodec_alloc_context3 = (\<lambda>w. (Some 6, w)), avcodec_free_context = (\<lambda>c w. w),
      set_hw_device_ctx = (\<lambda>c r w. w), avcodec_parameters_to_context = (\<lambda>c s w. (0, w)),
      set_pkt_timebase = (\<lambda>c s w. w), avcodec_find_decoder = (\<lambda>c w. Some 7), avcodec_open2 = (\<lambda>c d w. (0, w)),
      avcodec_send_packet = (\<lambda>c p w. (0, w)), avcodec_receive_frame = (\<lambda>c f w. (if w = 0 then 0 else - 11, w)),
      ctx_width = (\<lambda>c w. 0), ctx_height = (\<lambda>c w. 0)\<rparr>"

lemma count_finite: "finite_input count_util count_format count_codec (\<lambda>w. w)"
  by (auto simp: finite_input_def count_util_def count_format_def count_codec_def split: if_splits)

section \<open>Properties\<close>

text \<open>C18. On an input of finitely many packets \<open>decode_image\<close> comes to an end: it returns, throws or stops at a failed
  assertion or undefined behaviour; its loop ends.\<close>

theorem decode_image_ends:
  assumes "finite_input U Fm Cd remaining"
  shows "\<exists>r w'. decode_image U Fm Cd b u this data w = Some (r, w')"
proof -
  have "with_object create dtor (decode_frame U Fm Cd b dem) w = None \<longleftrightarrow> False"
    for create :: "(decoder, 'a) io" and dtor dem w
    using with_object_ends [of "decode_frame U Fm Cd b dem"] decode_frame_ends [OF assms] by simp
  then have "decode_image U Fm Cd b u this data w \<noteq> None"
    unfolding decode_image_def
    by (intro with_object_ends) (auto simp del: not_None_eq not_Some_eq split: prod.splits sum.splits)
  then show ?thesis by auto
qed

theorem decode_image_ends_witness:
  "\<exists>r w'. decode_image count_util count_format count_codec Release 0 9 [1] 3 = Some (r, w')"
  by (rule decode_image_ends [OF count_finite])

lemma decode_image_example:
  "decode_image count_util count_format count_codec Release 0 9 [1] 3 = Some (Inr (Some 4), 0)"
  by code_simp

end
