(* ===== verification/Decoder_Release.thy ===== *)
theory Decoder_Release
  imports Decoder
begin

text \<open>
  What \<open>decode_image\<close> leaves behind.  The objects that ffmpeg has handed out and not taken back are
  tracked through the demultiplexer, the decoder, the packet and the frame, on every path.
\<close>

section \<open>Ownership in ffmpeg\<close>

text \<open>An I/O context owns the buffer that was passed to it, which it may have replaced; the caller frees
  the buffer it has at the end and then the context.\<close>

datatype av_object =
    Block nat | Format nat | Io nat | Io_drained nat | Packet nat | Frame nat | Context nat

definition gives :: "('w \<Rightarrow> av_object set) \<Rightarrow> (nat \<Rightarrow> av_object) \<Rightarrow> 'w \<Rightarrow> ptr \<times> 'w \<Rightarrow> bool" where
  "gives objs kind w r \<longleftrightarrow> (case r of (None, w') \<Rightarrow> objs w' = objs w
     | (Some p, w') \<Rightarrow> kind p \<notin> objs w \<and> objs w' = insert (kind p) (objs w))"

definition takes :: "('w \<Rightarrow> av_object set) \<Rightarrow> (nat \<Rightarrow> av_object) \<Rightarrow> (ptr \<Rightarrow> 'w \<Rightarrow> 'w) \<Rightarrow> bool" where
  "takes objs kind f \<longleftrightarrow> (\<forall>p w. kind p \<in> objs w \<longrightarrow> objs (f (Some p) w) = objs w - {kind p})"

definition av_gives :: "'w av_util \<Rightarrow> 'w av_format \<Rightarrow> 'w av_codec \<Rightarrow> ('w \<Rightarrow> av_object set) \<Rightarrow> bool" where
  "av_gives U Fm Cd objs \<longleftrightarrow> (\<forall>w.
     (\<forall>n. gives objs Block w (av_malloc U n w)) \<and>
     gives objs Format w (avformat_alloc_context Fm w) \<and>
     gives objs Packet w (av_packet_alloc Cd w) \<and>
     gives objs Frame w (av_frame_alloc U w) \<and>
     gives objs Context w (avcodec_alloc_context3 Cd w) \<and>
     (\<forall>p n opaque i w'. Block p \<in> objs w \<longrightarrow> avio_alloc_context Fm (Some p) n opaque w = (Some i, w') \<longrightarrow>
        Io i \<notin> objs w \<and> Io_drained i \<notin> objs w \<and> objs w' = insert (Io i) (objs w - {Block p})) \<and>
     (\<forall>c url ctx w'. avformat_open_input Fm (Some c) url w = ((0, ctx), w') \<longrightarrow> ctx = Some c \<and> objs w' = objs w))"

definition av_takes :: "'w av_util \<Rightarrow> 'w av_format \<Rightarrow> 'w av_codec \<Rightarrow> ('w \<Rightarrow> av_object set) \<Rightarrow> bool" where
  "av_takes U Fm Cd objs \<longleftrightarrow>
     (\<forall>c w. Format c \<in> objs w \<longrightarrow> (\<exists>w'. avformat_close_input Fm (Some c) w = (None, w') \<and> objs w' = objs w - {Format c})) \<and>
     (\<forall>w. objs (avformat_free_context Fm None w) = objs w) \<and>
     (\<forall>i w. Io i \<in> objs w \<longrightarrow> (\<exists>w'. av_free U (avio_buffer Fm (Some i) w) w = (Inr (), w') \<and>
        objs w' = insert (Io_drained i) (objs w - {Io i}))) \<and>
     takes objs Io_drained (avio_context_free Fm) \<and>
     takes objs Packet (av_packet_free Cd) \<and>
     takes objs Frame (av_frame_free U) \<and>
     takes objs Context (avcodec_free_context Cd)"

text \<open>The other calls hand out nothing and take nothing back.\<close>

definition av_keeps :: "'w av_util \<Rightarrow> 'w av_format \<Rightarrow> 'w av_codec \<Rightarrow> ('w \<Rightarrow> av_object set) \<Rightarrow> bool" where
  "av_keeps U Fm Cd objs \<longleftrightarrow> (\<forall>w.
     (\<forall>ctx io. objs (set_pb Fm ctx io w) = objs w) \<and>
     (\<forall>ctx pkt. objs (snd (av_read_frame Fm ctx pkt w)) = objs w) \<and>
     (\<forall>ctx. objs (snd (av_find_best_stream Fm ctx w)) = objs w) \<and>
     (\<forall>pkt. objs (av_packet_unref Cd pkt w) = objs w) \<and>
     (\<forall>frm. objs (av_frame_unref U frm w) = objs w) \<and>
     (\<forall>dst src. objs (snd (av_frame_ref U dst src w)) = objs w) \<and>
     (\<forall>ctx s. objs (snd (avcodec_parameters_to_context Cd ctx s w)) = objs w) \<and>
     (\<forall>ctx s. objs (set_pkt_timebase Cd ctx s w) = objs w) \<and>
     (\<forall>ctx codec. objs (snd (avcodec_open2 Cd ctx codec w)) = objs w) \<and>
     (\<forall>ctx pkt. objs (snd (avcodec_send_packet Cd ctx pkt w)) = objs w) \<and>
     (\<forall>ctx frm. objs (snd (avcodec_receive_frame Cd ctx frm w)) = objs w))"

section \<open>The loop keeps what is handed out\<close>

lemma demux_read_keeps:
  assumes "av_keeps U Fm Cd objs"
  shows "objs (snd (demux_read U Fm Cd b d pkt w)) = objs w"
proof -
  obtain res w1 where r: "av_read_frame Fm (dx_ctx d) pkt (av_packet_unref Cd pkt w) = (res, w1)"
    by (cases "av_read_frame Fm (dx_ctx d) pkt (av_packet_unref Cd pkt w)")
  have "objs (snd (av_read_frame Fm (dx_ctx d) pkt (av_packet_unref Cd pkt w))) = objs w"
    using assms by (simp add: av_keeps_def)
  then show ?thesis
    by (simp add: demux_read_def io_bind_def io_lift_def io_return_def io_fail_def r split: sum.split)
qed

lemma decoder_send_keeps:
  assumes "av_keeps U Fm Cd objs"
  shows "objs (snd (decoder_send U Cd b d pkt w)) = objs w"
proof (cases "check_stream Cd b d pkt w")
  case (Inl e)
  then show ?thesis by (simp add: decoder_send_def io_bind_def io_lift_def)
next
  case (Inr d')
  obtain res w1 where r: "avcodec_send_packet Cd (dec_ctx d') pkt w = (res, w1)"
    by (cases "avcodec_send_packet Cd (dec_ctx d') pkt w")
  have "objs (snd (avcodec_send_packet Cd (dec_ctx d') pkt w)) = objs w" using assms by (simp add: av_keeps_def)
  then show ?thesis using Inr r
    by (simp add: decoder_send_def io_bind_def io_lift_def io_return_def io_fail_def upp_check_def)
qed

lemma frame_copy_assign_keeps:
  assumes "av_keeps U Fm Cd objs"
  shows "objs (snd (frame_copy_assign U h other w)) = objs w"
proof -
  let ?w = "if h \<noteq> None then av_frame_unref U h w else w"
  obtain res w1 where r: "av_frame_ref U h other ?w = (res, w1)" by (cases "av_frame_ref U h other ?w")
  have "objs (snd (av_frame_ref U h other ?w)) = objs w" using assms by (simp add: av_keeps_def)
  then have "objs w1 = objs w" by (simp only: r snd_conv)
  then show ?thesis
    unfolding frame_copy_assign_def Let_def io_bind_def r by (simp add: io_return_def io_fail_def split: sum.split)
qed

lemma decoder_receive_keeps:
  assumes "av_keeps U Fm Cd objs"
  shows "objs (snd (decoder_receive U Cd d frm w)) = objs w"
proof -
  obtain res w1 where r: "avcodec_receive_frame Cd (dec_ctx d) (dec_internal d) (av_frame_unref U frm w) = (res, w1)"
    by (cases "avcodec_receive_frame Cd (dec_ctx d) (dec_internal d) (av_frame_unref U frm w)")
  have "objs (snd (avcodec_receive_frame Cd (dec_ctx d) (dec_internal d) (av_frame_unref U frm w))) = objs w"
    using assms by (simp add: av_keeps_def)
  then have w1: "objs w1 = objs w" by (simp add: r)
  have "objs (snd (frame_copy_assign U frm (dec_internal d) w1)) = objs w"
    using frame_copy_assign_keeps [OF assms] w1 by simp
  then show ?thesis using w1
    by (auto simp: decoder_receive_def r io_bind_def io_return_def io_fail_def split: prod.splits sum.splits)
qed

lemma decode_loop_keeps:
  assumes "av_keeps U Fm Cd objs" and "decode_loop U Fm Cd b dem dec pkt frm w = Some (r, w')"
  shows "objs w' = objs w"
proof -
  let ?P = "\<lambda>U' Fm' Cd' (b :: build) (dem :: demux) (dec :: decoder) (pkt :: ptr) (frm :: ptr) w (x :: unit result \<times> 'a).
      U' = U \<longrightarrow> Fm' = Fm \<longrightarrow> Cd' = Cd \<longrightarrow> objs (snd x) = objs w"
  have "?P U Fm Cd b dem dec pkt frm w (r, w')"
  proof (rule decode_loop.raw_induct [where P = ?P, OF _ assms(2)], goal_cases)
    case (1 f U' Fm' Cd' b dem dec pkt frm w x)
    show ?case
    proof (intro impI)
      assume eq: "U' = U" "Fm' = Fm" "Cd' = Cd"
      obtain r1 w1 where s1: "demux_read U Fm Cd b dem pkt w = (r1, w1)" by (cases "demux_read U Fm Cd b dem pkt w")
      have w1: "objs w1 = objs w" using demux_read_keeps [OF assms(1), of b dem pkt w] s1 by simp
      show "objs (snd x) = objs w"
      proof (cases "r1 = Inr True")
        case False
        then have "snd x = w1" using 1(2) unfolding eq s1 by (simp split: sum.splits if_splits) force+
        then show ?thesis using w1 by simp
      next
        case read: True
        obtain r2 w2 where s2: "decoder_send U Cd b dec pkt w1 = (r2, w2)" by (cases "decoder_send U Cd b dec pkt w1")
        have w2: "objs w2 = objs w" using decoder_send_keeps [OF assms(1), of b dec pkt w1] s2 w1 by simp
        show ?thesis
        proof (cases r2)
          case (Inl e)
          then have "snd x = w2" using 1(2) read unfolding eq s1 by (simp add: s2) force
          then show ?thesis using w2 by simp
        next
          case (Inr dec')
          obtain r3 w3 where s3: "decoder_receive U Cd dec' frm w2 = (r3, w3)" by (cases "decoder_receive U Cd dec' frm w2")
          have w3: "objs w3 = objs w" using decoder_receive_keeps [OF assms(1), of dec' frm w2] s3 w2 by simp
          have rest: "objs (snd x) = objs w3" if "f U Fm Cd b dem dec' pkt frm w3 = Some x"
            by (rule 1(1) [OF that, rule_format]) (rule refl)+
          have "(case r3 of Inl e \<Rightarrow> Some (Inl e, w3)
              | Inr got \<Rightarrow> if got then Some (Inr (), w3) else f U Fm Cd b dem dec' pkt frm w3) = Some x"
            using 1(2) read Inr unfolding eq s1 by (simp add: s2 s3)
          then have "snd x = w3 \<or> f U Fm Cd b dem dec' pkt frm w3 = Some x"
            by (cases r3) (simp_all split: if_splits, force+)
          then show ?thesis using rest w3 by metis
        qed
      qed
    qed
  qed
  then show ?thesis by simp
qed

section \<open>Scopes\<close>

text \<open>A computation leaves its result, a frame, and nothing else; when it throws, nothing.  One that stops at a failed
  assertion or undefined behaviour releases nothing.\<close>

definition leaves :: "('w \<Rightarrow> av_object set) \<Rightarrow> 'w \<Rightarrow> ptr result \<Rightarrow> 'w \<Rightarrow> bool" where
  "leaves objs w r w' \<longleftrightarrow> (case r of Inl e \<Rightarrow> stops e \<or> objs w' = objs w
     | Inr p \<Rightarrow> (\<exists>f. p = Some f \<and> Frame f \<notin> objs w \<and> objs w' = insert (Frame f) (objs w)))"

lemma leaves_objs: "leaves objs w r w' \<Longrightarrow> \<not> stopped r \<Longrightarrow> \<exists>X \<subseteq> range Frame. X \<inter> objs w = {} \<and> objs w' = objs w \<union> X"
  by (cases r) (auto simp: leaves_def intro: exI [of _ "{Frame _}"])

lemma with_object_leaves:
  assumes run: "with_object create dtor body w = Some (r, w')"
    and fail: "\<And>e w0. create w = (Inl e, w0) \<Longrightarrow> stops e \<or> objs w0 = objs w"
    and create: "\<And>x w0. create w = (Inr x, w0) \<Longrightarrow> X x \<inter> objs w = {} \<and> objs w0 = objs w \<union> X x"
    and body: "\<And>x w0 r w1. create w = (Inr x, w0) \<Longrightarrow> body x w0 = Some (r, w1) \<Longrightarrow> leaves objs w0 r w1"
    and dtor: "\<And>x w0 w1 F. create w = (Inr x, w0) \<Longrightarrow> objs w1 = objs w0 \<union> F \<Longrightarrow> F \<subseteq> range Frame \<Longrightarrow> F \<inter> objs w0 = {} \<Longrightarrow>
      \<exists>w2. dtor x w1 = (Inr (), w2) \<and> objs w2 = objs w1 - X x"
  shows "leaves objs w r w'"
proof (cases "create w")
  case (Pair c w0)
  show ?thesis
  proof (cases c)
    case (Inl e)
    then have "r = Inl e" "w' = w0" using run Pair by (simp_all add: with_object_def)
    then show ?thesis using fail [of e w0] Inl Pair by (simp add: leaves_def)
  next
    case (Inr x)
    then have c: "create w = (Inr x, w0)" using Pair by simp
    obtain r1 w1 where b: "body x w0 = Some (r1, w1)"
      using run c by (cases "body x w0") (auto simp: with_object_def after_def)
    have l: "leaves objs w0 r1 w1" by (rule body [OF c b])
    show ?thesis
    proof (cases "stopped r1")
      case True
      then have "r = r1" "w' = w1" using run c b by (auto simp: with_object_def after_def)
      then show ?thesis using True by (cases r1) (auto simp: leaves_def)
    next
      case False
      from leaves_objs [OF l False] obtain F where F: "F \<subseteq> range Frame" "F \<inter> objs w0 = {}" "objs w1 = objs w0 \<union> F" by blast
      from dtor [OF c F(3,1,2)] obtain w2 where w2: "dtor x w1 = (Inr (), w2)" "objs w2 = objs w1 - X x" by blast
      have "r = r1" "w' = w2" using run c b w2(1) False by (auto simp: with_object_def after_def)
      moreover have "leaves objs w r1 w2"
        using create [OF c] l w2(2) False by (cases r1) (auto simp: leaves_def)
      ultimately show ?thesis by simp
    qed
  qed
qed

section \<open>The objects of each class\<close>

lemma av_gives_objs:
  assumes "av_gives U Fm Cd objs"
  shows "gives objs Block w (av_malloc U n w)" "gives objs Format w (avformat_alloc_context Fm w)"
    "gives objs Packet w (av_packet_alloc Cd w)" "gives objs Frame w (av_frame_alloc U w)"
    "gives objs Context w (avcodec_alloc_context3 Cd w)"
  using assms by (simp_all add: av_gives_def)

lemma av_gives_io:
  assumes "av_gives U Fm Cd objs" and "avio_alloc_context Fm (Some p) n this w = (Some i, w')" and "Block p \<in> objs w"
  shows "Io i \<notin> objs w" "Io_drained i \<notin> objs w" "objs w' = insert (Io i) (objs w - {Block p})"
  using assms unfolding av_gives_def by blast+

lemma av_gives_open:
  "av_gives U Fm Cd objs \<Longrightarrow> avformat_open_input Fm (Some c) url w = ((0, ctx), w') \<Longrightarrow> ctx = Some c \<and> objs w' = objs w"
  unfolding av_gives_def by blast

text \<open>A computation that ends in an exception.\<close>

lemma io_bind_throws: "(\<And>y w x w'. f y w \<noteq> (Inr x, w')) \<Longrightarrow> io_bind m f w \<noteq> (Inr x, w')"
  by (auto simp: io_bind_def split: prod.splits sum.splits)

lemma demux_throw_throws: "demux_throw U Fm d e w \<noteq> (Inr x, w')"
  unfolding demux_throw_def by (rule io_bind_throws) (simp add: io_fail_def)

lemma drop_iobuf_throws: "io_bind (drop_iobuf U u iobuf) (\<lambda>_. demux_throw U Fm d e) w \<noteq> (Inr x, w')"
  by (rule io_bind_throws) (rule demux_throw_throws)

lemma demux_from_buffer_returns:
  assumes "demux_from_buffer U Fm 0 this buf w = (Inr d, w0)"
  obtains c w1 p w2 i w3 ctx where "avformat_alloc_context Fm w = (Some c, w1)"
    "av_malloc U (AV_IO_BUFFER_SIZE + av_padding U) w1 = (Some p, w2)"
    "avio_alloc_context Fm (Some p) AV_IO_BUFFER_SIZE this w2 = (Some i, w3)"
    "avformat_open_input Fm (Some c) ''dummy'' (set_pb Fm (Some c) (Some i) w3) = ((0, ctx), w0)"
    "dx_ctx d = ctx" "dx_io d = Some i"
proof -
  obtain h w1 where new: "avformat_alloc_context Fm w = (h, w1)" by (cases "avformat_alloc_context Fm w")
  obtain iobuf w2 where buf: "av_malloc U (AV_IO_BUFFER_SIZE + av_padding U) w1 = (iobuf, w2)"
    by (cases "av_malloc U (AV_IO_BUFFER_SIZE + av_padding U) w1")
  obtain io w3 where io: "avio_alloc_context Fm iobuf AV_IO_BUFFER_SIZE this w2 = (io, w3)"
    by (cases "avio_alloc_context Fm iobuf AV_IO_BUFFER_SIZE this w2")
  obtain res ctx w4 where opn: "avformat_open_input Fm h ''dummy'' (set_pb Fm h io w3) = ((res, ctx), w4)"
    by (cases "avformat_open_input Fm h ''dummy'' (set_pb Fm h io w3)"; cases "fst (avformat_open_input Fm h ''dummy'' (set_pb Fm h io w3))") auto
  have h: "h \<noteq> None"
  proof
    assume "h = None"
    then have "demux_new Fm w = (Inl Bad_Alloc, w1)" by (simp add: demux_new_def new io_fail_def)
    then have "demux_from_buffer U Fm 0 this buf w = (Inl Bad_Alloc, w1)"
      unfolding demux_from_buffer_def by (rule io_bind_Inl)
    then show False using assms by simp
  qed
  let ?d = "\<lambda>io ctx. \<lparr>dx_mem = \<lparr>mb_buf = buf, mb_offset = 0\<rparr>, dx_ctx = ctx, dx_io = io\<rparr>"
  have new': "demux_new Fm w = (Inr (demux_adopt h), w1)" using h by (simp add: demux_new_def new io_return_def)
  have run: "demux_from_buffer U Fm 0 this buf w =
      (if iobuf = None then demux_throw U Fm (?d None h) Bad_Alloc w2
       else if io = None then io_bind (drop_iobuf U (Suc 0) iobuf) (\<lambda>_. demux_throw U Fm (?d io h) Bad_Alloc) w3
       else if res \<noteq> 0 then io_bind (drop_iobuf U (Suc 0) iobuf) (\<lambda>_.
         demux_throw U Fm (drop_ctx (Suc 0) (?d io ctx)) (av_exception U res)) w4
       else (Inr (?d io ctx), w4))"
    unfolding demux_from_buffer_def io_bind_Inr [of "demux_new Fm", OF new']
    by (simp add: demux_adopt_def buf io opn Let_def drop_iobuf_def drop_ctx_def throw_traits_def io_return_def io_bind_def)
  have iobuf: "iobuf \<noteq> None" using assms run demux_throw_throws by (metis (full_types))
  have i: "io \<noteq> None" using assms run iobuf drop_iobuf_throws by (metis (full_types))
  have res: "res = 0" using assms run iobuf i drop_iobuf_throws by (metis (full_types))
  have "w4 = w0" "d = ?d io ctx" using assms run iobuf i res by simp_all
  then show thesis using that new buf io opn h iobuf i res by auto
qed

lemma demux_from_buffer_objs:
  assumes "av_gives U Fm Cd objs" and "av_keeps U Fm Cd objs" and "demux_from_buffer U Fm 0 this buf w = (Inr d, w0)"
  shows "\<exists>c i. dx_ctx d = Some c \<and> dx_io d = Some i \<and> {Format c, Io i, Io_drained i} \<inter> objs w = {} \<and>
    objs w0 = objs w \<union> {Format c, Io i}"
proof -
  from demux_from_buffer_returns [OF assms(3)] obtain c w1 p w2 i w3 ctx where
    r: "avformat_alloc_context Fm w = (Some c, w1)"
    "av_malloc U (AV_IO_BUFFER_SIZE + av_padding U) w1 = (Some p, w2)"
    "avio_alloc_context Fm (Some p) AV_IO_BUFFER_SIZE this w2 = (Some i, w3)"
    "avformat_open_input Fm (Some c) ''dummy'' (set_pb Fm (Some c) (Some i) w3) = ((0, ctx), w0)"
    "dx_ctx d = ctx" "dx_io d = Some i" by blast
  have w1: "Format c \<notin> objs w" "objs w1 = insert (Format c) (objs w)"
    using av_gives_objs(2) [OF assms(1), of w] r(1) by (simp_all add: gives_def)
  have w2: "Block p \<notin> objs w1" "objs w2 = insert (Block p) (objs w1)"
    using av_gives_objs(1) [OF assms(1), of w1 "AV_IO_BUFFER_SIZE + av_padding U"] r(2) by (simp_all add: gives_def)
  have w3: "Io i \<notin> objs w2" "Io_drained i \<notin> objs w2" "objs w3 = insert (Io i) (objs w2 - {Block p})"
    using av_gives_io [OF assms(1) r(3)] w2(2) by simp_all
  have "ctx = Some c" "objs w0 = objs w3"
    using av_gives_open [OF assms(1) r(4)] assms(2) by (simp_all add: av_keeps_def)
  then show ?thesis using r(5,6) w1 w2 w3 by auto
qed

lemma av_takes_objs:
  assumes "av_takes U Fm Cd objs"
  shows "Format c \<in> objs w \<Longrightarrow> \<exists>w'. avformat_close_input Fm (Some c) w = (None, w') \<and> objs w' = objs w - {Format c}"
    "objs (avformat_free_context Fm None w) = objs w"
    "Io i \<in> objs w \<Longrightarrow> \<exists>w'. av_free U (avio_buffer Fm (Some i) w) w = (Inr (), w') \<and>
        objs w' = insert (Io_drained i) (objs w - {Io i})"
    "Io_drained i \<in> objs w \<Longrightarrow> objs (avio_context_free Fm (Some i) w) = objs w - {Io_drained i}"
    "Packet p \<in> objs w \<Longrightarrow> objs (av_packet_free Cd (Some p) w) = objs w - {Packet p}"
    "Frame f \<in> objs w \<Longrightarrow> objs (av_frame_free U (Some f) w) = objs w - {Frame f}"
    "Context x \<in> objs w \<Longrightarrow> objs (avcodec_free_context Cd (Some x) w) = objs w - {Context x}"
  using assms by (simp_all add: av_takes_def takes_def)

lemma demux_dtor_objs:
  assumes "av_takes U Fm Cd objs" and "dx_ctx d = Some c" and "dx_io d = Some i"
    and "{Format c, Io i} \<subseteq> objs w" and "Io_drained i \<notin> objs w"
  shows "\<exists>w'. demux_dtor U Fm d w = (Inr (), w') \<and> objs w' = objs w - {Format c, Io i}"
proof -
  note t = av_takes_objs [OF assms(1)]
  obtain w1 where w1: "avformat_close_input Fm (Some c) w = (None, w1)" "objs w1 = objs w - {Format c}"
    using t(1) [of c w] assms(4) by auto
  let ?w = "avformat_free_context Fm None w1"
  have w2: "objs ?w = objs w - {Format c}" using t(2) w1(2) by simp
  then have "Io i \<in> objs ?w" using assms(4) by simp
  from t(3) [OF this] obtain w3 where w3: "av_free U (avio_buffer Fm (Some i) ?w) ?w = (Inr (), w3)"
      "objs w3 = insert (Io_drained i) (objs ?w - {Io i})" by blast
  have "objs (avio_context_free Fm (Some i) w3) = objs w3 - {Io_drained i}"
    by (rule t(4)) (simp add: w3(2))
  moreover have "demux_dtor U Fm d w = (Inr (), avio_context_free Fm (Some i) w3)"
    using assms(2,3) w1(1) w3(1) by (simp add: demux_dtor_def io_bind_def)
  ultimately show ?thesis using w2 w3(2) assms(5) by auto
qed

lemma frame_close_objs:
  assumes "av_takes U Fm Cd objs" and "av_keeps U Fm Cd objs" and "Frame f \<in> objs w"
  shows "objs (frame_close U (Some f) w) = objs w - {Frame f}"
proof -
  have "objs (av_frame_unref U (Some f) w) = objs w" using assms(2) by (simp add: av_keeps_def)
  then show ?thesis using av_takes_objs(6) [OF assms(1), of f "av_frame_unref U (Some f) w"] assms(3)
    by (simp add: frame_close_def)
qed

lemma frame_new_objs:
  assumes "av_gives U Fm Cd objs" and "frame_new U w = (r, w')"
  shows "leaves objs w r w'"
  using av_gives_objs(4) [OF assms(1), of w] assms(2)
  by (cases "av_frame_alloc U w"; cases "fst (av_frame_alloc U w)")
    (auto simp: frame_new_def gives_def leaves_def io_fail_def io_return_def)

definition dec_objs :: "decoder \<Rightarrow> av_object set" where
  "dec_objs d = (case dec_ctx d of None \<Rightarrow> {} | Some c \<Rightarrow> {Context c}) \<union>
     (case dec_internal d of None \<Rightarrow> {} | Some f \<Rightarrow> {Frame f})"

lemma decoder_dtor_objs:
  assumes "av_takes U Fm Cd objs" and "av_keeps U Fm Cd objs" and "dec_objs d \<subseteq> objs w"
  shows "objs (decoder_dtor U Cd d w) = objs w - dec_objs d"
proof -
  let ?w = "if dec_ctx d \<noteq> None then avcodec_free_context Cd (dec_ctx d) w else w"
  have w: "objs ?w = objs w - (case dec_ctx d of None \<Rightarrow> {} | Some c \<Rightarrow> {Context c})"
    using av_takes_objs(7) [OF assms(1)] assms(3) by (cases "dec_ctx d") (simp_all add: dec_objs_def)
  show ?thesis
  proof (cases "dec_internal d")
    case None
    then show ?thesis using w by (simp add: decoder_dtor_def dec_objs_def)
  next
    case (Some f)
    then have "Frame f \<in> objs ?w" using w assms(3) by (auto simp: dec_objs_def split: option.splits)
    then have "objs (frame_close U (Some f) ?w) = objs ?w - {Frame f}" by (rule frame_close_objs [OF assms(1,2)])
    then show ?thesis using Some w by (auto simp: decoder_dtor_def dec_objs_def Let_def)
  qed
qed

lemma decoder_new_objs:
  assumes "av_gives U Fm Cd objs" and "\<And>w. fst (av_frame_alloc U w) \<noteq> None"
  obtains d w' where "decoder_new U Cd w = (Inr d, w')" "dec_objs d \<inter> objs w = {}" "objs w' = objs w \<union> dec_objs d"
proof -
  obtain c w1 where c: "avcodec_alloc_context3 Cd w = (c, w1)" by (cases "avcodec_alloc_context3 Cd w")
  obtain f w2 where f: "av_frame_alloc U w1 = (Some f, w2)"
    using assms(2) [of w1] by (cases "av_frame_alloc U w1") auto
  have "gives objs Context w (c, w1)" "gives objs Frame w1 (Some f, w2)"
    using av_gives_objs(5) [OF assms(1), of w] av_gives_objs(4) [OF assms(1), of w1] c f by simp_all
  moreover have "decoder_new U Cd w = (Inr \<lparr>dec_ctx = c, dec_internal = Some f, dec_stream_idx = no_stream_idx\<rparr>, w2)"
    by (simp add: decoder_new_def c frame_new_def f io_bind_def io_return_def)
  ultimately show thesis using that by (cases c) (auto simp: gives_def dec_objs_def)
qed

lemma decoder_ctor_objs:
  assumes "av_gives U Fm Cd objs" and "av_takes U Fm Cd objs" and "av_keeps U Fm Cd objs"
    and "\<And>w. fst (av_frame_alloc U w) \<noteq> None"
    and "decoder_ctor U Cd \<lparr>opt_stream = s, opt_hwaccel = hwaccel_none\<rparr> w = (x, w')"
  shows "case x of Inl e \<Rightarrow> stops e \<or> objs w' = objs w
    | Inr d \<Rightarrow> dec_objs d \<inter> objs w = {} \<and> objs w' = objs w \<union> dec_objs d"
proof -
  obtain d w1 where new: "decoder_new U Cd w = (Inr d, w1)"
    and d: "dec_objs d \<inter> objs w = {}" "objs w1 = objs w \<union> dec_objs d"
    by (rule decoder_new_objs [OF assms(1,4)])
  have throw: "objs (snd (decoder_throw U Cd d e v)) = objs w" if "objs v = objs w1" for e v
    using decoder_dtor_objs [OF assms(2,3), of d v] that d by (auto simp: decoder_throw_def)
  show ?thesis
  proof (cases "stream_valid s")
    case False
    then have "(x, w') = (Inr d, w1)"
      using assms(5) unfolding decoder_ctor_def io_bind_Inr [of "decoder_new U Cd", OF new]
      by (simp add: hwaccel_valid_def hwaccel_none_def)
    then show ?thesis using d by simp
  next
    case True
    let ?h = "the (m_s s)"
    obtain res w2 where s2: "avcodec_parameters_to_context Cd (dec_ctx d) ?h w1 = (res, w2)"
      by (cases "avcodec_parameters_to_context Cd (dec_ctx d) ?h w1")
    define w3 where "w3 = set_pkt_timebase Cd (dec_ctx d) ?h w2"
    define codec where "codec = avcodec_find_decoder Cd (dec_ctx d) w3"
    obtain res' w4 where s4: "avcodec_open2 Cd (dec_ctx d) codec w3 = (res', w4)"
      by (cases "avcodec_open2 Cd (dec_ctx d) codec w3")
    have "objs (snd (avcodec_parameters_to_context Cd (dec_ctx d) ?h w1)) = objs w1"
      "objs w3 = objs w2" "objs (snd (avcodec_open2 Cd (dec_ctx d) codec w3)) = objs w3"
      using assms(3) unfolding w3_def by (simp_all add: av_keeps_def)
    then have keeps: "objs w2 = objs w1" "objs w3 = objs w1" "objs w4 = objs w1" by (simp_all add: s2 s4)
    have "decoder_ctor U Cd \<lparr>opt_stream = s, opt_hwaccel = hwaccel_none\<rparr> w = (if res \<noteq> 0 then decoder_throw U Cd d (av_exception U res) w2
         else if dec_ctx d = None then (Inl Undefined, w2)
         else if codec = None then decoder_throw U Cd d (Runtime_Error ''codec not found'') w3
         else if res' \<noteq> 0 then decoder_throw U Cd d (av_exception U res') w4 else (Inr d, w4))"
      unfolding decoder_ctor_def io_bind_Inr [of "decoder_new U Cd", OF new]
      using True s4 [unfolded w3_def codec_def]
      by (simp add: hwaccel_valid_def hwaccel_none_def s2 Let_def w3_def codec_def)
    then have "(\<exists>e v. (x, w') = decoder_throw U Cd d e v \<and> objs v = objs w1) \<or> x = Inl Undefined \<or> (x, w') = (Inr d, w4)"
      unfolding assms(5) using keeps by (metis (full_types) fst_conv)
    then show ?thesis
    proof (elim disjE)
      assume "\<exists>e v. (x, w') = decoder_throw U Cd d e v \<and> objs v = objs w1"
      then obtain e v where "(x, w') = decoder_throw U Cd d e v" "objs v = objs w1" by blast
      then show ?thesis using throw [of v e] by (simp add: decoder_throw_def)
    next
      assume "x = Inl Undefined"
      then show ?thesis by (simp add: stops_def)
    next
      assume "(x, w') = (Inr d, w4)"
      then show ?thesis using d keeps by simp
    qed
  qed
qed

section \<open>The packet and the frame\<close>

lemma decode_frame_objs:
  assumes "av_gives U Fm Cd objs" and "av_takes U Fm Cd objs" and "av_keeps U Fm Cd objs"
    and "decode_frame U Fm Cd b dem dec w = Some (r, w')"
  shows "leaves objs w r w'"
proof (rule with_object_leaves [where X = "\<lambda>pkt. case pkt of None \<Rightarrow> {} | Some p \<Rightarrow> {Packet p}",
      OF assms(4) [unfolded decode_frame_def]], goal_cases)
  case (1 e w0)
  then show ?case by (simp add: packet_new_def split: prod.splits)
next
  case (2 x w0)
  then have "av_packet_alloc Cd w = (x, w0)" by (simp add: packet_new_def split: prod.splits)
  then show ?case using av_gives_objs(3) [OF assms(1), of w] by (cases x) (simp_all add: gives_def)
next
  case (3 pkt w0 r w1)
  obtain f w2 where new: "frame_new U w0 = (f, w2)" by (cases "frame_new U w0")
  have l: "leaves objs w0 f w2" by (rule frame_new_objs [OF assms(1) new])
  show ?case
  proof (cases f)
    case (Inl e)
    then show ?thesis using 3(2) new l by simp
  next
    case (Inr frm)
    then obtain i where i: "frm = Some i" "Frame i \<notin> objs w0" "objs w2 = insert (Frame i) (objs w0)"
      using l by (auto simp: leaves_def)
    obtain c w3 where loop: "decode_loop U Fm Cd b dem dec pkt frm w2 = Some (c, w3)"
      using 3(2) new Inr by (cases "decode_loop U Fm Cd b dem dec pkt frm w2") auto
    have w3: "objs w3 = objs w2" by (rule decode_loop_keeps [OF assms(3) loop])
    show ?thesis
    proof (cases c)
      case (Inl e)
      then have "r = Inl e" "stops e \<or> w1 = frame_close U (Some i) w3"
        using 3(2) new Inr loop i(1) by (auto simp: destroy_ptr_def after_def split: if_splits)
      moreover have "objs (frame_close U (Some i) w3) = objs w0"
        using frame_close_objs [OF assms(2,3), of i w3] w3 i by simp
      ultimately show ?thesis by (auto simp: leaves_def)
    next
      case ok: (Inr u)
      then have "r = Inr frm" "w1 = w3" using 3(2) new Inr loop by simp_all
      then show ?thesis using w3 i by (simp add: leaves_def)
    qed
  qed
next
  case (4 x w0 w1 F)
  then have "av_packet_alloc Cd w = (x, w0)" by (simp add: packet_new_def split: prod.splits)
  then have "(case x of None \<Rightarrow> {} | Some p \<Rightarrow> {Packet p}) \<subseteq> objs w1"
    using av_gives_objs(3) [OF assms(1), of w] 4(2) by (cases x) (simp_all add: gives_def)
  then show ?case using av_takes_objs(5) [OF assms(2)] by (cases x) (simp_all add: destroy_ptr_def)
qed

lemma demux_best_keeps:
  assumes "av_keeps U Fm Cd objs"
  shows "objs (snd (demux_best_video_stream U Fm b d w)) = objs w"
proof -
  obtain res w1 where r: "av_find_best_stream Fm (dx_ctx d) w = (res, w1)" by (cases "av_find_best_stream Fm (dx_ctx d) w")
  have "objs (snd (av_find_best_stream Fm (dx_ctx d) w)) = objs w" using assms by (simp add: av_keeps_def)
  then show ?thesis
    by (simp add: demux_best_video_stream_def io_bind_def io_lift_def upp_check_def io_return_def io_fail_def r split: sum.split)
qed

lemma decode_stream_objs:
  assumes "av_gives U Fm Cd objs" and "av_takes U Fm Cd objs" and "av_keeps U Fm Cd objs"
    and "\<And>w. fst (av_frame_alloc U w) \<noteq> None"
    and "with_object (decoder_ctor U Cd \<lparr>opt_stream = s, opt_hwaccel = hwaccel_none\<rparr>)
      (\<lambda>dec w. (Inr (), decoder_dtor U Cd dec w)) (decode_frame U Fm Cd b dem) w = Some (r, w')"
  shows "leaves objs w r w'"
proof (rule with_object_leaves [where X = dec_objs, OF assms(5)], goal_cases)
  case (1 e w0)
  then show ?case using decoder_ctor_objs [OF assms(1-4) 1] by simp
next
  case (2 x w0)
  then show ?case using decoder_ctor_objs [OF assms(1-4) 2] by simp
next
  case (3 x w0 r w1)
  then show ?case using decode_frame_objs [OF assms(1-3)] by blast
next
  case (4 x w0 w1 F)
  have "dec_objs x \<subseteq> objs w1" using decoder_ctor_objs [OF assms(1-4) 4(1)] 4(2) by auto
  then show ?case using decoder_dtor_objs [OF assms(2,3)] by simp
qed

lemma decode_body_objs:
  assumes "av_gives U Fm Cd objs" and "av_takes U Fm Cd objs" and "av_keeps U Fm Cd objs"
    and "\<And>w. fst (av_frame_alloc U w) \<noteq> None"
    and "(case demux_best_video_stream U Fm b dem v of (Inl e, w1) \<Rightarrow> Some (Inl e, w1)
       | (Inr idx, w1) \<Rightarrow> (case io_bind (demux_stream_info Fm b dem) (\<lambda>info. io_lift (stream_at info idx)) w1 of
           (Inl e, w2) \<Rightarrow> Some (Inl e, w2)
         | (Inr s, w2) \<Rightarrow> with_object (decoder_ctor U Cd \<lparr>opt_stream = s, opt_hwaccel = hwaccel_none\<rparr>)
             (\<lambda>dec w. (Inr (), decoder_dtor U Cd dec w)) (decode_frame U Fm Cd b dem) w2)) = Some (r, w')"
  shows "leaves objs v r w'"
proof -
  obtain best w2 where s1: "demux_best_video_stream U Fm b dem v = (best, w2)" by (cases "demux_best_video_stream U Fm b dem v")
  have w2: "objs w2 = objs v" using demux_best_keeps [OF assms(3), of b dem v] s1 by simp
  show ?thesis
  proof (cases best)
    case (Inl e)
    then show ?thesis using assms(5) s1 w2 by (auto simp: leaves_def)
  next
    case (Inr idx)
    obtain s w3 where s2: "io_bind (demux_stream_info Fm b dem) (\<lambda>info. io_lift (stream_at info idx)) w2 = (s, w3)"
      by (cases "io_bind (demux_stream_info Fm b dem) (\<lambda>info. io_lift (stream_at info idx)) w2")
    have w3: "w3 = w2" using s2 by (auto simp: demux_stream_info_def io_bind_def io_lift_def split: sum.splits)
    show ?thesis
    proof (cases s)
      case (Inl e)
      then show ?thesis using assms(5) s1 s2 Inr w2 w3 by (auto simp: leaves_def)
    next
      case stream: (Inr st)
      have "leaves objs w2 r w'"
        by (rule decode_stream_objs [OF assms(1-4)]) (use assms(5) s1 s2 Inr stream w3 in simp)
      then show ?thesis using w2 by (simp add: leaves_def cong: sum.case_cong)
    qed
  qed
qed

section \<open>An ffmpeg that keeps books\<close>

text \<open>Its world is the list of the objects it has handed out; every input has a first frame.  The buffer of an
  I/O context has the context's number.\<close>

fun obj_number :: "av_object \<Rightarrow> nat" where
  "obj_number (Block n) = n" | "obj_number (Format n) = n" | "obj_number (Io n) = n" | "obj_number (Io_drained n) = n"
| "obj_number (Packet n) = n" | "obj_number (Frame n) = n" | "obj_number (Context n) = n"

definition next_number :: "av_object list \<Rightarrow> nat" where
  "next_number w = Suc (sum_list (map obj_number w))"

lemma next_number_fresh: "x \<in> set w \<Longrightarrow> obj_number x \<noteq> next_number w"
  using member_le_sum_list [of "obj_number x" "map obj_number w"] by (auto simp: next_number_def)

lemma next_number_kinds [simp]:
  "Block (next_number w) \<notin> set w" "Format (next_number w) \<notin> set w" "Io (next_number w) \<notin> set w"
  "Io_drained (next_number w) \<notin> set w" "Packet (next_number w) \<notin> set w" "Frame (next_number w) \<notin> set w"
  "Context (next_number w) \<notin> set w"
  by (auto dest: next_number_fresh)

definition hand_out :: "(nat \<Rightarrow> av_object) \<Rightarrow> av_object list \<Rightarrow> ptr \<times> av_object list" where
  "hand_out kind w = (Some (next_number w), kind (next_number w) # w)"

fun take_back :: "(nat \<Rightarrow> av_object) \<Rightarrow> ptr \<Rightarrow> av_object list \<Rightarrow> av_object list" where
  "take_back kind None w = w"
| "take_back kind (Some p) w = removeAll (kind p) w"

definition ledger_util :: "av_object list av_util" where
  "ledger_util =
     \<lparr>av_malloc = (\<lambda>n. hand_out Block),
      av_free = (\<lambda>p w. case p of None \<Rightarrow> (Inr (), w)
        | Some i \<Rightarrow> if Io i \<in> set w then (Inr (), Io_drained i # removeAll (Io i) w)
            else if Block i \<in> set w then (Inr (), removeAll (Block i) w) else (Inl Undefined, w)),
      av_error_string = (\<lambda>code. []), av_error_max = 64, averror_eof = - 541478725, averror_eagain = - 11, av_padding = 64,
      av_buffer_ref = (\<lambda>p w. (p, w)), av_buffer_unref = (\<lambda>p w. w), av_hwdevice_none = 0,
      av_hwdevice_ctx_create = (\<lambda>t w. ((0, None), w)), av_hwdevice_iterate_types = (\<lambda>t. 0),
      av_hwdevice_get_type_name = (\<lambda>t. None), av_frame_alloc = hand_out Frame,
      av_frame_ref = (\<lambda>dst src. io_return 0), av_frame_unref = (\<lambda>p w. w), av_frame_free = take_back Frame\<rparr>"

definition ledger_format :: "av_object list av_format" where
  "ledger_format =
     \<lparr>avformat_alloc_context = hand_out Format, avformat_open_input = (\<lambda>ctx url w. ((0, ctx), w)),
      avformat_close_input = (\<lambda>ctx w. (None, take_back Format ctx w)), avformat_free_context = take_back Format,
      avio_alloc_context = (\<lambda>buf size opaque w. (Some (next_number w), Io (next_number w) # take_back Block buf w)),
      avio_buffer = (\<lambda>io w. io), avio_context_free = take_back Io_drained, set_pb = (\<lambda>ctx io w. w),
      av_read_frame = (\<lambda>ctx pkt w. (0, w)), fmt_streams = (\<lambda>ctx w. [8]), av_find_best_stream = (\<lambda>ctx w. (0, w))\<rparr>"

definition ledger_codec :: "av_object list av_codec" where
  "ledger_codec =
     \<lparr>av_packet_alloc = hand_out Packet, av_packet_free = take_back Packet, av_packet_unref = (\<lambda>p w. w),
      pkt_data = (\<lambda>p w. None), pkt_size = (\<lambda>p w. 0), pkt_stream_index = (\<lambda>p w. 0),
      avcodec_alloc_context3 = hand_out Context, avcodec_free_context = take_back Context,
      set_hw_device_ctx = (\<lambda>c r w. w), avcodec_parameters_to_context = (\<lambda>c s w. (0, w)),
      set_pkt_timebase = (\<lambda>c s w. w), avcodec_find_decoder = (\<lambda>c w. Some 7), avcodec_open2 = (\<lambda>c d w. (0, w)),
      avcodec_send_packet = (\<lambda>c p w. (0, w)), avcodec_receive_frame = (\<lambda>c f w. (0, w)),
      ctx_width = (\<lambda>c w. 0), ctx_height = (\<lambda>c w. 0)\<rparr>"

lemma ledger_gives: "av_gives ledger_util ledger_format ledger_codec set"
  by (auto simp: av_gives_def gives_def hand_out_def ledger_util_def ledger_format_def ledger_codec_def)

lemma ledger_takes: "av_takes ledger_util ledger_format ledger_codec set"
  by (auto simp: av_takes_def takes_def ledger_util_def ledger_format_def ledger_codec_def)

lemma ledger_keeps: "av_keeps ledger_util ledger_format ledger_codec set"
  by (simp add: av_keeps_def ledger_util_def ledger_format_def ledger_codec_def io_return_def)

text \<open>When the frame inside a decoder cannot be allocated, the constructor of the delegating one has not finished:
  no destructor runs, and the codec context stays.\<close>

lemma decoder_new_leaks_context:
  assumes "av_gives U Fm Cd objs" and "avcodec_alloc_context3 Cd w = (Some c, w1)" and "av_frame_alloc U w1 = (None, w2)"
  shows "decoder_ctor U Cd opts w = (Inl Bad_Alloc, w2) \<and> Context c \<notin> objs w \<and> objs w2 = insert (Context c) (objs w)"
proof -
  have "decoder_new U Cd w = (Inl Bad_Alloc, w2)"
    by (simp add: decoder_new_def frame_new_def assms(2,3) io_bind_def io_fail_def)
  then show ?thesis
    using av_gives_objs(5) [OF assms(1), of w] av_gives_objs(4) [OF assms(1), of w1] assms(2,3)
    by (simp add: decoder_ctor_def gives_def io_bind_def)
qed

section \<open>Properties\<close>

text \<open>C7. Once the input is open, \<open>decode_image\<close> gives back everything it gets from ffmpeg, whether it returns or
  throws (rather than stop at a failed assertion or undefined behaviour, where no destructor runs): the format context, the I/O context and its buffer, the codec context, the packet and the
  frames; only the frame it returns stays.  The frames must be allocated: see
  \<open>decoder_new_leaks_context\<close>.\<close>

theorem decode_image_releases:
  assumes "av_gives U Fm Cd objs" and "av_takes U Fm Cd objs" and "av_keeps U Fm Cd objs"
    and "\<forall>w. fst (av_frame_alloc U w) \<noteq> None"
    and "demux_from_buffer U Fm 0 this data w = (Inr d, w0)"
    and "decode_image U Fm Cd b 0 this data w = Some (r, w')"
  shows "case r of Inl e \<Rightarrow> e \<noteq> Assertion \<and> e \<noteq> Undefined \<longrightarrow> objs w' = objs w
    | Inr p \<Rightarrow> \<exists>f. p = Some f \<and> Frame f \<notin> objs w \<and> objs w' = insert (Frame f) (objs w)"
proof -
  from demux_from_buffer_objs [OF assms(1,3,5)] obtain c i where d: "dx_ctx d = Some c" "dx_io d = Some i"
    "{Format c, Io i, Io_drained i} \<inter> objs w = {}" "objs w0 = objs w \<union> {Format c, Io i}" by blast
  have "leaves objs w r w'"
  proof (rule with_object_leaves [where X = "\<lambda>d. {Format c, Io i}", OF assms(6) [unfolded decode_image_def]], goal_cases)
    case (1 e w0)
    then show ?case using assms(5) by simp
  next
    case (2 x w0)
    then show ?case using assms(5) d by auto
  next
    case (3 x v r w1)
    show ?case by (rule decode_body_objs [OF assms(1-3) assms(4) [rule_format] 3(2)])
  next
    case (4 x v w1 F)
    then have "x = d" "v = w0" using assms(5) by simp_all
    then show ?case using demux_dtor_objs [OF assms(2) d(1,2), of w1] 4 d(3,4) by auto
  qed
  then show ?thesis by (auto simp: leaves_def stops_def split: sum.splits)
qed

theorem decode_image_releases_witness:
  "\<exists>f w'. decode_image ledger_util ledger_format ledger_codec Debug 0 9 [1, 2] [Packet 1] = Some (Inr (Some f), w') \<and>
    set w' = {Frame f, Packet 1}"
proof -
  let ?run = "decode_image ledger_util ledger_format ledger_codec Debug 0 9 [1, 2] [Packet 1]"
  let ?new = "demux_from_buffer ledger_util ledger_format 0 9 [1, 2] [Packet 1]"
  have "case ?run of Some (Inr p, w') \<Rightarrow> True | _ \<Rightarrow> False" by code_simp
  then obtain p w' where run: "?run = Some (Inr p, w')" by (auto split: option.splits prod.splits sum.splits)
  have "case ?new of (Inr d, w0) \<Rightarrow> True | _ \<Rightarrow> False" by code_simp
  then obtain d w0 where new: "?new = (Inr d, w0)" by (auto split: prod.splits sum.splits)
  have "\<forall>w. fst (av_frame_alloc ledger_util w) \<noteq> None" by (simp add: ledger_util_def hand_out_def)
  from decode_image_releases [OF ledger_gives ledger_takes ledger_keeps this new run] run show ?thesis by auto
qed

end
