(* ===== verification/Coro.thy ===== *)
theory Coro
  imports Handles "HOL-Library.Multiset"
begin

text \<open>
  The library \<open>coro\<close>: a scheduler that hands the completion of an operation to an \<open>asio\<close> context, the
  sender that completes at once, and the utilities that start a sender on a scheduler.  Receivers,
  \<open>stdexec\<close> and \<open>asio\<close> are parameters; the world is what they change.
\<close>

section \<open>Scheduling on an asio context\<close>

text \<open>The function object that \<open>start\<close> posts: the receiver it has captured.\<close>

datatype 'r completion = Completion 'r

record ('r, 'w) asio =
  set_value :: "'r \<Rightarrow> 'w \<Rightarrow> 'w"
  asio_post :: "nat \<Rightarrow> 'r completion \<Rightarrow> 'w \<Rightarrow> 'w"

fun invoke :: "('r, 'w) asio \<Rightarrow> 'r completion \<Rightarrow> 'w \<Rightarrow> 'w" where
  "invoke A (Completion r) w = set_value A r w"

(* coro/include/upp/coro/asio.hpp 9-14: asio_scheduler *)
record asio_scheduler =
  sched_ctx :: nat

(* coro/include/upp/coro/asio.hpp 31-37: asio_scheduler::sender *)
record asio_sender =
  sender_ctx :: nat

(* coro/include/upp/coro/asio.hpp 16-22: asio_scheduler::op *)
record 'r asio_op =
  op_recv :: 'r
  op_ctx :: nat

(* coro/include/upp/coro/asio.hpp 44-44: asio_scheduler::schedule *)
definition asio_schedule :: "asio_scheduler \<Rightarrow> asio_sender" where
  "asio_schedule s = \<lparr>sender_ctx = sched_ctx s\<rparr>"

(* coro/include/upp/coro/asio.hpp 39-41: sender::connect *)
definition asio_connect :: "asio_sender \<Rightarrow> 'r \<Rightarrow> 'r asio_op" where
  "asio_connect s receiver = \<lparr>op_recv = receiver, op_ctx = sender_ctx s\<rparr>"

(* coro/include/upp/coro/asio.hpp 24-28: op::start *)
definition asio_start :: "('r, 'w) asio \<Rightarrow> 'r asio_op \<Rightarrow> 'w \<Rightarrow> 'w" where
  "asio_start A x w = asio_post A (op_ctx x) (Completion (op_recv x)) w"

(* coro/include/upp/coro/asio.hpp 46-46: operator<=> *)
definition asio_scheduler_eq :: "asio_scheduler \<Rightarrow> asio_scheduler \<Rightarrow> bool" where
  "asio_scheduler_eq a b \<longleftrightarrow> sched_ctx a = sched_ctx b"

section \<open>Yielding\<close>

(* coro/include/upp/coro/yield.hpp 7-9: yield_t::op *)
record 'r yield_op =
  y_recv :: 'r

(* coro/include/upp/coro/yield.hpp 18-22: yield_sender::connect *)
definition yield_connect :: "'r \<Rightarrow> 'r yield_op" where
  "yield_connect recv = \<lparr>y_recv = recv\<rparr>"

(* coro/include/upp/coro/yield.hpp 10-10: op::start *)
definition yield_start :: "('r, 'w) asio \<Rightarrow> 'r yield_op \<Rightarrow> 'w \<Rightarrow> 'w" where
  "yield_start A x w = set_value A (y_recv x) w"

section \<open>Starting work\<close>

text \<open>What the utilities use of \<open>stdexec\<close>.  \<open>sync_wait\<close> gives the values of the sender, nothing when it was stopped,
  or throws.\<close>

record ('sched, 's, 'f, 'scope, 'v, 'w) stdexec =
  se_schedule :: "'sched \<Rightarrow> 's"
  se_starts_on :: "'sched \<Rightarrow> 's \<Rightarrow> 's"
  se_then :: "'s \<Rightarrow> 'f \<Rightarrow> 's"
  se_sync_wait :: "'s \<Rightarrow> ('v list option, 'w) io"
  se_spawn :: "'scope \<Rightarrow> 's \<Rightarrow> 'w \<Rightarrow> 'w"

datatype 'v unpacked = Single 'v | Tuple "'v list"

fun unpack :: "'v list \<Rightarrow> 'v unpacked" where
  "unpack [v] = Single v"
| "unpack vs = Tuple vs"

text \<open>The second argument is a sender or a function.\<close>

(* coro/include/upp/coro/util.hpp 8-33: run *)
fun coro_run :: "('sched, 's, 'f, 'scope, 'v, 'w) stdexec \<Rightarrow> 'sched \<Rightarrow> 's + 'f \<Rightarrow> ('v unpacked option, 'w) io" where
  "coro_run S sched (Inl sender) = io_bind (se_sync_wait S (se_starts_on S sched sender)) (\<lambda>r.
     io_return (map_option unpack r))"
| "coro_run S sched (Inr f) = io_bind (se_sync_wait S (se_then S (se_schedule S sched) f)) (\<lambda>r.
     io_return (map_option unpack r))"

text \<open>The scheduler is that of the coroutine that awaits the task.\<close>

(* coro/include/upp/coro/detach.hpp 7-11: detach *)
definition detach :: "('sched, 's, 'f, 'scope, 'v, 'w) stdexec \<Rightarrow> 'scope \<Rightarrow> 's \<Rightarrow> 'sched \<Rightarrow> (unit, 'w) io" where
  "detach S scope sender sched = (\<lambda>w. (Inr (), se_spawn S scope (se_starts_on S sched sender) w))"

text \<open>A function that returns a value gives that value, one that returns nothing an empty tuple.\<close>

lemma coro_run_values:
  assumes "se_sync_wait S (se_then S (se_schedule S sched) f) w = (Inr (Some vs), w')"
  shows "coro_run S sched (Inr f) w = (Inr (Some (case vs of [v] \<Rightarrow> Single v | _ \<Rightarrow> Tuple vs)), w')"
  using assms by (cases vs; cases "tl vs") (simp_all add: io_bind_def io_return_def)

section \<open>Completion\<close>

text \<open>What happens in a program: operations are scheduled and started on any contexts, yields are started, and contexts
  run the function of a receiver.\<close>

datatype 'r event = Scheduled nat 'r | Yielded 'r | Ran nat 'r

fun receiver :: "'r completion \<Rightarrow> 'r" where
  "receiver (Completion r) = r"

fun scheduled :: "nat \<Rightarrow> 'r event list \<Rightarrow> 'r multiset" where
  "scheduled c [] = {#}"
| "scheduled c (Scheduled d r # es) = (if d = c then {#r#} else {#}) + scheduled c es"
| "scheduled c (e # es) = scheduled c es"

fun ran :: "nat \<Rightarrow> 'r event list \<Rightarrow> 'r multiset" where
  "ran c [] = {#}"
| "ran c (Ran d r # es) = (if d = c then {#r#} else {#}) + ran c es"
| "ran c (e # es) = ran c es"

fun completed :: "'r event list \<Rightarrow> 'r multiset" where
  "completed [] = {#}"
| "completed (Scheduled c r # es) = completed es"
| "completed (Yielded r # es) = add_mset r (completed es)"
| "completed (Ran c r # es) = add_mset r (completed es)"

lemma event_append [simp]:
  "scheduled c (es @ fs) = scheduled c es + scheduled c fs" "ran c (es @ fs) = ran c es + ran c fs"
  "completed (es @ fs) = completed es + completed fs"
  by (induction es rule: completed.induct) simp_all

text \<open>The documented behaviour of contexts and receivers, seen by the functions that wait in each context and the
  receivers that were completed: posting adds a function to its context, and a context that runs something takes any of
  its own functions, in no particular order.  Completing a receiver completes that one; its continuation may schedule
  operations and start yields, the events \<open>follow r w\<close>, before it returns.\<close>

definition asio_laws ::
    "('r, 'w) asio \<Rightarrow> (nat \<Rightarrow> 'r completion \<Rightarrow> 'w \<Rightarrow> 'w \<Rightarrow> bool) \<Rightarrow> ('r \<Rightarrow> 'w \<Rightarrow> 'r event list) \<Rightarrow>
     (nat \<Rightarrow> 'w \<Rightarrow> 'r completion multiset) \<Rightarrow> ('w \<Rightarrow> 'r multiset) \<Rightarrow> bool" where
  "asio_laws A takes follow waiting done \<longleftrightarrow>
     (\<forall>c h w. (\<forall>d. waiting d (asio_post A c h w) = (if d = c then add_mset h (waiting d w) else waiting d w)) \<and>
       done (asio_post A c h w) = done w) \<and>
     (\<forall>c h w w'. takes c h w w' \<longrightarrow>
       (\<forall>d. waiting d w = (if d = c then add_mset h (waiting d w') else waiting d w')) \<and> done w' = done w) \<and>
     (\<forall>r w. (\<forall>d. ran d (follow r w) = {#} \<and>
         waiting d (set_value A r w) = waiting d w + image_mset Completion (scheduled d (follow r w))) \<and>
       done (set_value A r w) = add_mset r (done w) + completed (follow r w))"

inductive coro_trace :: "('r, 'w) asio \<Rightarrow> (nat \<Rightarrow> 'r completion \<Rightarrow> 'w \<Rightarrow> 'w \<Rightarrow> bool) \<Rightarrow> ('r \<Rightarrow> 'w \<Rightarrow> 'r event list) \<Rightarrow>
    'w \<Rightarrow> 'r event list \<Rightarrow> 'w \<Rightarrow> bool" for A takes follow where
  coro_idle: "coro_trace A takes follow w [] w"
| coro_schedule: "coro_trace A takes follow w es v \<Longrightarrow> sched_ctx s = c \<Longrightarrow>
    coro_trace A takes follow w (es @ [Scheduled c r]) (asio_start A (asio_connect (asio_schedule s) r) v)"
| coro_yield: "coro_trace A takes follow w es v \<Longrightarrow>
    coro_trace A takes follow w (es @ Yielded r # follow r v) (yield_start A (yield_connect r) v)"
| coro_run_one: "coro_trace A takes follow w es v \<Longrightarrow> takes c h v v' \<Longrightarrow> h = Completion r \<Longrightarrow>
    coro_trace A takes follow w (es @ Ran c r # follow r v') (invoke A h v')"

text \<open>C33. No completion is lost, duplicated or run by another context.  Let all contexts be empty at first.  Whatever
  operations are scheduled, by the program or by the continuations of receivers, and in whatever order the contexts run
  their functions: the receivers scheduled on a context are those whose function still waits in it and those it has run;
  what was completed are the receivers run and those of the yields, each when its yield was started; so a context with
  nothing left has completed each receiver scheduled on it exactly once.\<close>

theorem coro_completes_once:
  assumes "asio_laws A takes follow waiting done" and "coro_trace A takes follow w es w'" and "\<And>d. waiting d w = {#}"
  shows "scheduled c es = image_mset receiver (waiting c w') + ran c es \<and>
    done w' = done w + completed es \<and> (waiting c w' = {#} \<longrightarrow> scheduled c es = ran c es)"
proof -
  note laws = assms(1) [unfolded asio_laws_def]
  have same: "image_mset receiver (image_mset Completion X) = X" for X :: "'a multiset"
    by (simp add: image_mset.compositionality o_def)
  have "scheduled c es = image_mset receiver (waiting c w') + ran c es \<and> done w' = done w + completed es" for c
    using assms(2,3)
  proof (induction arbitrary: c)
    case (coro_run_one w es v d h v' r)
    from coro_run_one.IH [OF coro_run_one.prems, of c] laws coro_run_one.hyps(2,3) show ?case by (auto simp: same)
  next
    case (coro_schedule w es v s d r)
    from coro_schedule.IH [OF coro_schedule.prems, of c] laws coro_schedule.hyps(2) show ?case
      by (auto simp: asio_start_def asio_connect_def asio_schedule_def)
  next
    case (coro_yield w es v r)
    from coro_yield.IH [OF coro_yield.prems, of c] laws show ?case
      by (simp add: yield_start_def yield_connect_def same)
  qed simp
  then show ?thesis by simp
qed

text \<open>Contexts as a multiset of what was posted, with the multiset of what was done.  The continuation of receiver 9
  schedules receiver 3 on context 5.\<close>

type_synonym bag = "(nat \<times> nat completion) multiset \<times> nat multiset"

definition bag_follow :: "nat \<Rightarrow> bag \<Rightarrow> nat event list" where
  "bag_follow r w = (if r = 9 then [Scheduled 5 3] else [])"

definition bag_asio :: "(nat, bag) asio" where
  "bag_asio = \<lparr>set_value = (\<lambda>r (q, d). (if r = 9 then add_mset (5, Completion 3) q else q, add_mset r d)),
     asio_post = (\<lambda>c h (q, d). (add_mset (c, h) q, d))\<rparr>"

definition bag_takes :: "nat \<Rightarrow> nat completion \<Rightarrow> bag \<Rightarrow> bag \<Rightarrow> bool" where
  "bag_takes c h w w' \<longleftrightarrow> w = (add_mset (c, h) (fst w'), snd w')"

definition bag_waiting :: "nat \<Rightarrow> bag \<Rightarrow> nat completion multiset" where
  "bag_waiting c w = image_mset snd (filter_mset (\<lambda>x. fst x = c) (fst w))"

lemma bag_asio_laws: "asio_laws bag_asio bag_takes bag_follow bag_waiting snd"
  by (auto simp: asio_laws_def bag_asio_def bag_takes_def bag_waiting_def bag_follow_def)

text \<open>Two operations on context 4 and a yield; context 4 runs the second operation first.\<close>

theorem coro_completes_once_witness:
  "\<exists>w. coro_trace bag_asio bag_takes bag_follow ({#}, {#})
      [Scheduled 4 1, Scheduled 4 2, Yielded 9, Scheduled 5 3, Ran 4 2, Ran 4 1] w \<and>
    bag_waiting 4 w = {#} \<and> bag_waiting 5 w = {#Completion 3#} \<and> snd w = {#9, 2, 1#}"
proof -
  let ?es = "[Scheduled 4 1, Scheduled 4 2, Yielded 9, Scheduled 5 3, Ran 4 2, Ran 4 (1 :: nat)]"
  let ?c = "Completion :: nat \<Rightarrow> nat completion" and ?run = "coro_trace bag_asio bag_takes bag_follow ({#}, {#})"
  have start: "asio_start bag_asio (asio_connect (asio_schedule \<lparr>sched_ctx = c\<rparr>) r) (q, d) = (add_mset (c, Completion r) q, d)"
    for c r q d by (simp add: asio_start_def asio_connect_def asio_schedule_def bag_asio_def)
  note s = coro_schedule [of bag_asio bag_takes bag_follow _ _ "(q, d)" "\<lparr>sched_ctx = c\<rparr>" c r for q d c r, unfolded start, simplified]
  note x = coro_run_one [of bag_asio bag_takes bag_follow _ _ "(add_mset (c, Completion r) q, d)" c "Completion r" "(q, d)" r for q d c r,
    unfolded bag_takes_def [of c "Completion r" "(add_mset (c, Completion r) q, d)" "(q, d)" for c r q d], simplified]
  have "?run ([] @ [Scheduled 4 1]) ({#(4, ?c 1)#}, {#})"
    by (rule s) (rule coro_idle)
  from s [OF this, of 4 2] have "?run [Scheduled 4 1, Scheduled 4 2] ({#(4, ?c 2), (4, ?c 1)#}, {#})" by simp
  from coro_yield [OF this, of 9] have "?run [Scheduled 4 1, Scheduled 4 2, Yielded 9, Scheduled 5 3]
      (add_mset (4, ?c 2) {#(4, ?c 1), (5, ?c 3)#}, {#9#})"
    by (simp add: bag_asio_def bag_follow_def yield_start_def yield_connect_def add_mset_commute)
  from x [OF this] have "?run [Scheduled 4 1, Scheduled 4 2, Yielded 9, Scheduled 5 3, Ran 4 2]
      (add_mset (4, ?c 1) {#(5, ?c 3)#}, {#2, 9#})"
    by (simp add: bag_asio_def bag_follow_def)
  from x [OF this] have t: "?run ?es ({#(5, ?c 3)#}, {#1, 2, 9#})"
    by (simp add: bag_asio_def bag_follow_def)
  from coro_completes_once [OF bag_asio_laws this, of 4] coro_completes_once [OF bag_asio_laws this, of 5] t
  show ?thesis by (intro exI [of _ "({#(5, ?c 3)#}, {#1, 2, 9#})"]) (auto simp: bag_waiting_def add_mset_commute)
qed

end
