(* ===== verification/Spec2Isabelle.thy ===== *)
theory Spec2Isabelle
  imports Prelude Heap_Lists Fifo Layout Ring_Buffer Chunk_Queue Intrusive_List
    Logs_Context Logs_Organize Logs_Levels Logs_Set_Level Logs_Output Logs_Startup Logs_Runs Logs_Any_Order Logs_Threads Logs_Path Logs_Orphans
    Ints Bitset Enums Strings Matrix Matrix_Alias
    Maybe Values Guard Handles Files Linux Demux_Buffer Ffmpeg Demux Codec Decoder Decoder_Release Coro
begin

text \<open>
  Verification library of \<open>upp\<close>, a collection of C++ libraries.  Paths are below \<open>src/\<close>.

  \<^bold>\<open>The program.\<close>  \<open>core\<close> has containers over raw storage, values, integers, strings and a mutex with a
  value; \<open>logs\<close> keeps a tree of logging contexts in one list that goes through all of them; \<open>math\<close> has
  matrices; \<open>fs\<close> and \<open>linux\<close> own the handles of the operating system; \<open>codec\<close> owns the objects of
  ffmpeg and decodes images with them; \<open>coro\<close> hands work to the schedulers of others.  The parts meet in a few places: the ring buffer and the
  matrices lie in the flexible objects of \<open>flexible.hpp\<close> and \<open>fam.hpp\<close>; the output of \<open>logs\<close> uses the
  arrays of \<open>enum_array.hpp\<close> and the escape codes of \<open>terminal.hpp\<close>; files and pipes throw through
  \<open>exceptions.hpp\<close>; \<open>codec\<close> uses the clean-ups of \<open>cleanup.hpp\<close> and a context of \<open>logs\<close>.

  \<^bold>\<open>Conventions.\<close>  A function that can throw, fail an assertion or meet undefined behaviour returns
  \<open>error + 'a\<close> (\<^typ>\<open>'a result\<close>); the theory Prelude lists the errors.  Assertions depend on the
  argument of type \<^typ>\<open>build\<close>.  A loop over pointers, which need not end, is a \<open>partial_function (option)\<close>:
  \<open>None\<close> is a run without end, and the properties prove \<open>Some\<close>; no fuel is used.  Objects with identity
  live in a store from addresses to records, and a freed or moved-from object is absent or empty
  there.  \<open>size_t\<close> is a 64-bit word in Layout and Ring_Buffer, where sizes can wrap, and a natural number
  with the reduction modulo \<open>2 ^ 64\<close> written out in Matrix; \<open>int\<close> has 32 bits.  Code outside the
  repository is a record of functions over a state of the world: \<open>posix\<close> in Files, the calls of
  libc in Linux, \<open>av_util\<close>, \<open>av_format\<close> and \<open>av_codec\<close> in Ffmpeg.

  \<^bold>\<open>Containers over raw storage.\<close>
  \<^item> Layout: \<open>core/include/upp/fam.hpp\<close>, \<open>flexible.hpp\<close>; offsets and byte counts, elements inside the
    storage at aligned addresses for whatever block \<open>operator new\<close> returns, the counts that wrap, release of what was created.
  \<^item> Fifo: the contract of a queue as a locale over the list it holds, with a capacity; programs of pushes and
    pops over such a queue, and (\<open>fifo_refinement\<close>) when every program behaves as it does on the list.
  \<^item> Ring_Buffer: \<open>ring_buffer.hpp\<close>; refinement of the list by push, pop, front and back, while the
    offset stays small; what goes wrong after that.
  \<^item> Heap_Lists, Chunk_Queue: \<open>queue.hpp\<close>; the chunks in a store with their allocation state, refinement
    of the list across chunk boundaries, release of the chunks, the dangling pointer of an emptied queue.
  \<^item> Intrusive_List: \<open>intrusive_list.hpp\<close>; nodes in a store, what iteration visits and when it does not end.
    This queue, the ring buffer and the chunked queue interpret both locales of Fifo.

  \<^bold>\<open>Logging\<close>, \<open>logs/lib/logs.cpp\<close>, \<open>logs/lib/contextutils.hpp\<close>, \<open>logs/include/upp/logs.hpp\<close>.
  \<^item> Logs_Context: \<open>context_base\<close> as a record, the doubly linked list (\<open>dlink\<close>, \<open>linked\<close>), constructor,
    destructor and the validity check.
  \<^item> Logs_Organize: \<open>organize\<close> and its loops; they return and leave each context followed by its
    descendants (\<open>forest\<close>), for every order of the list, given parents of smaller rank.
  \<^item> Logs_Levels: \<open>set_level\<close>, \<open>sync_inherited_log_levels\<close> and the level test; a reference for what they
    reach, over the tree of the contexts (\<open>visit\<close>, \<open>told\<close>), and the proof that the loops compute it.
  \<^item> Logs_Set_Level: the effect of \<open>set_level\<close> on an organized tree, whose siblings are ordered as in the list of
    contexts (\<open>trees_below\<close>), the siblings it skips, and runs in which inherited levels go stale.
  \<^item> Logs_Output: prefix, colors for a terminal, path and line of a message, which \<open>fputs\<close> writes up to its first null
    character (\<open>fputs_text\<close>), \<open>push_log\<close>, \<open>UPP_LOG\<close>, \<open>quick_init\<close>.
  \<^item> Logs_Startup: the composition of all of these, from the first constructor to the line written.
  \<^item> Logs_Runs: the states reachable by constructing, setting levels and destroying children before their parents
    (\<open>logs_step\<close>, \<open>logs_reach\<close>), their invariant (\<open>logs_ok\<close>), and that every operation returns in them.
  \<^item> Logs_Any_Order: the same with contexts destroyed in any order (\<open>any_step\<close>, \<open>any_reach\<close>).  The list of contexts
    survives; the first \<open>set_level\<close> needs all live contexts connected to the root (\<open>in_tree\<close>), and follows a null
    pointer otherwise (\<open>first_level_orphans\<close>).
  \<^item> Logs_Threads, Logs_Path: several threads, see Concurrency.
  \<^item> Logs_Orphans: what logging does with contexts that outlive a context above them.

  \<^bold>\<open>Values.\<close>
  \<^item> Ints: \<open>int.hpp\<close>, \<open>bitmask.hpp\<close>, \<open>cast.hpp\<close>.  Bitset: \<open>bitset.hpp\<close>.  Enums: \<open>enum.hpp\<close>,
    \<open>enum_array.hpp\<close>, \<open>enum_set.hpp\<close>, over the locale \<open>enum_reflection\<close>, which the loops of the
    reflection branch interpret.
  \<^item> Strings: \<open>strlit.hpp\<close>, \<open>cstr.hpp\<close>, \<open>template_str.hpp\<close>, \<open>terminal.hpp\<close>; the comparisons of
    \<open>strlit\<close>, the escape codes, and a reader of such codes that gets back what they set.
  \<^item> Maybe: \<open>maybe.hpp\<close>; the class over the locale \<open>null_traits\<close>, with an interpretation for each of the
    four specialisations of \<open>maybe_traits\<close>; programs over several objects (\<open>maybe_exec\<close>) leave the values that the
    same programs over \<open>option\<close> (\<open>optional_exec\<close>) leave.
  \<^item> Values: \<open>frac.hpp\<close>, \<open>matcher.hpp\<close>, \<open>sbool.hpp\<close>, \<open>cleanup.hpp\<close>, \<open>exceptions.hpp\<close>.
  \<^item> Matrix: \<open>math/include/upp/math/detail\<close>; the concept \<open>matrixlike\<close> is a locale, interpreted by dense and
    static matrices, and the operators are compared with sums over rows and columns.  Copies of dense matrices, sums
    with a dense left operand and all differences \<open>a - b\<close> do not compile and have no model.
    Matrix_Alias: \<open>m += m\<close>, \<open>m -= m\<close> and \<open>m *= m\<close>, where the loop reads what it has written.

  \<^bold>\<open>Concurrency.\<close>  Guard: \<open>guard.hpp\<close>, \<open>nop_mutex.hpp\<close>; lock objects of several threads and a step
  relation that interleaves them; the locales \<open>mutexlike\<close> and \<open>exclusive_mutex\<close> with \<open>nop_mutex\<close> and
  \<open>std::mutex\<close> as interpretations; exclusion as an invariant of the reachable states, and that a waiting
  thread can be let in.  Logs_Threads: threads over the state of \<open>logs\<close> with its mutex; the writes of an
  operation (\<open>op_allowed\<close>: children are destroyed before their parents) appear one by one (\<open>sync_trace\<close>, \<open>op_states\<close>) and the test in \<open>UPP_LOG\<close>, which takes no lock, loads
  its two levels between them (\<open>sys_step\<close>, \<open>sys_reach\<close>).  When the mutex is free the state is one of
  \<open>logs_reach\<close>, so what Logs_Runs and Logs_Any_Order show holds for programs with threads.  Logs_Path: the line of a
  message reads names and parent pointers without the mutex as well; each load is at a moment of its own, and
  the line is the one of a single state as long as the context and those above it live (\<open>steps_alive\<close>).

  \<^bold>\<open>Handles.\<close>
  \<^item> Handles: owners of a handle with the moves and the destructor all these classes share, as the locale
    \<open>unique_owner\<close>: along every run of operations no handle is closed twice and every open one has one owner.
    Files, dynamic libraries, packets, frames and hardware accelerators interpret it.
  \<^item> Files: \<open>fs/lib/file.cpp\<close>, \<open>tmpfile.cpp\<close> and their headers.  Hypotheses: \<open>posix_descriptors\<close> (an
    open descriptor is not handed out again) and \<open>regular_file\<close> (what \<open>read\<close> and \<open>lseek\<close> do on a regular
    file); \<open>example_posix\<close> satisfies both.
  \<^item> Linux: \<open>linux/lib/dlopen.cpp\<close>, \<open>pipe.cpp\<close>, \<open>signal.cpp\<close>.  Hypotheses \<open>pipe2_law\<close>, \<open>sigset_law\<close>.
  \<^item> Ffmpeg, Demux_Buffer, Demux, Codec, Decoder: \<open>codec/lib\<close>; the memory callbacks with the arithmetic of
    their types, construction, move and destruction of a demuxer with its I/O buffer, packets and
    frames, sending and receiving, the range of the supported accelerators, and \<open>decode_image\<close>, which
    ends for every input that ends (\<open>finite_input\<close>).  Its scopes run their destructors when the function returns or
    throws, and not when it stops at a failed assertion or undefined behaviour (\<open>stops\<close>, \<open>after\<close>).  \<open>av_heap\<close> states what allocation and release of an I/O
    buffer do.
  \<^item> Decoder_Release: what ffmpeg hands out to \<open>decode_image\<close> and gets back, over all the classes.
    Hypotheses \<open>av_gives\<close>, \<open>av_takes\<close> and \<open>av_keeps\<close>, which the book-keeping ffmpeg of the theory satisfies.

  \<^bold>\<open>Coroutines.\<close>  Coro: \<open>asio.hpp\<close>, \<open>yield.hpp\<close>, \<open>util.hpp\<close>, \<open>detach.hpp\<close>; receivers, stdexec and asio are
  parameters.  Hypothesis \<open>asio_laws\<close> (posting adds a function to its context, which runs any of its own, and a
  continuation may schedule more), satisfied by \<open>bag_asio\<close>; along every interleaving of starts and runs (\<open>coro_trace\<close>) no completion is lost, duplicated or run by another
  context.

  \<^bold>\<open>Not modelled.\<close>  The file monitor is disabled by \<open>#if 0\<close>; concepts, type traits, feature macros, \<open>immovable\<close>,
  \<open>uncopyable\<close>, \<open>forward\<close> and \<open>visit\<close> have no behaviour of their own at run time; \<open>noexcept\<close> specifications;
  the members of \<open>stream_meta\<close> and \<open>lookup_hardware_accelerator\<close>, which are declared only; trace
  messages of \<open>codec\<close>; the text that \<open>std::format\<close> makes; relaxed stores of \<open>logs\<close> that become visible out
  of their order (the two loads of the level test may be swapped); a parent destroyed before its child by one thread while others work; failing allocations of the containers.  \<open>magic_enum\<close> is the work of others.
\<close>

end
